(* ===== verification/Fenec_Prelude.thy ===== *)
theory Fenec_Prelude
  imports Main "HOL-Library.Word" "HOL-Library.List_Lexorder" "HOL-Library.Sublist"
    "HOL-Library.Code_Target_Nat"
begin

unbundle bit_operations_syntax

text \<open>
  The vocabulary every component shares: the machine types of a 64-bit target, Rust's
  \<open>Result\<close> with its errors and panics as values (\<open>fenec-core/src/error.rs\<close>), reads of a
  byte slice, and what a buffer holds at a position. The named collections
  \<open>result_simps\<close> (the \<open>?\<close> operator), \<open>at_simps\<close> (what sits where in a buffer) and
  \<open>word_cast_simps\<close> (integer casts) carry the proofs of the components.
\<close>

named_theorems result_simps
named_theorems at_simps
named_theorems word_cast_simps

section \<open>Machine types\<close>

text \<open>
  Integers keep their width: a Rust \<open>u8\<close>, \<open>u32\<close> or \<open>u64\<close> is a word, an \<open>i64\<close> a 64-bit
  word read by \<open>sint\<close>, and a float is its IEEE bit pattern, which is all the storage layer
  looks at. A \<open>usize\<close> -- a length, a position -- is a \<open>nat\<close> below \<open>2 ^ 64\<close>, the wrap-around
  of release-profile arithmetic written out where an operand comes from the bytes read.
\<close>

type_synonym u8 = "8 word"
type_synonym u16 = "16 word"
type_synonym u32 = "32 word"
type_synonym u64 = "64 word"
type_synonym i64 = "64 word"
type_synonym f32 = "32 word"
type_synonym f64 = "64 word"
type_synonym usize = nat
type_synonym bytes = "u8 list"

definition usize_mul :: "usize \<Rightarrow> usize \<Rightarrow> usize" where
  "usize_mul a b = (a * b) mod 2 ^ 64"

definition usize_add :: "usize \<Rightarrow> usize \<Rightarrow> usize" where
  "usize_add a b = (a + b) mod 2 ^ 64"

definition isize_max :: nat where
  "isize_max = 2 ^ 63 - 1"

lemma usize_mul_small [word_cast_simps]: "a * b < 2 ^ 64 \<Longrightarrow> usize_mul a b = a * b"
  by (simp add: usize_mul_def)

lemma usize_add_small [word_cast_simps]: "a + b < 2 ^ 64 \<Longrightarrow> usize_add a b = a + b"
  by (simp add: usize_add_def)

lemma unat_of_nat_u64 [word_cast_simps]: "n < 2 ^ 64 \<Longrightarrow> unat (word_of_nat n :: u64) = n"
  by (simp add: unat_of_nat)

lemma unat_of_nat_u32 [word_cast_simps]: "n < 2 ^ 32 \<Longrightarrow> unat (word_of_nat n :: u32) = n"
  by (simp add: unat_of_nat)

lemma unat_u64_lt [simp]: "unat (w :: u64) < 18446744073709551616"
  using unsigned_less [of w] by simp

lemma unat_u32_lt [simp]: "unat (w :: u32) < 4294967296"
  using unsigned_less [of w] by simp

section \<open>Errors and results\<close>

text \<open>\<open>error.rs\<close>: one error type for the whole crate, each kind with its message.\<close>

datatype error =
    Type_error string
  | NotFound string
  | Exists string
  | Duplicate string
  | Corrupt string
  | Query string
  | Io string
  | Plugin string
  | ReadOnly string
  | Denied string
  | Unmet string
  | Quota string

text \<open>
  A call returns \<open>Ok\<close>, an \<open>Err\<close> its caller sees, or it panics -- a slice out of range, a
  capacity overflow, or the stack run out: what no \<open>?\<close> catches.
\<close>

datatype 'a result = Ok 'a | Err error | Panic

fun and_then :: "'a result \<Rightarrow> ('a \<Rightarrow> 'b result) \<Rightarrow> 'b result" where
  "and_then (Ok x) f = f x"
| "and_then (Err e) f = Err e"
| "and_then Panic f = Panic"

fun map_ok :: "('a \<Rightarrow> 'b) \<Rightarrow> 'a result \<Rightarrow> 'b result" where
  "map_ok f (Ok x) = Ok (f x)"
| "map_ok f (Err e) = Err e"
| "map_ok f Panic = Panic"

fun is_ok :: "'a result \<Rightarrow> bool" where
  "is_ok (Ok x) = True"
| "is_ok (Err e) = False"
| "is_ok Panic = False"

fun ok_or :: "error \<Rightarrow> 'a option \<Rightarrow> 'a result" where
  "ok_or e None = Err e"
| "ok_or e (Some x) = Ok x"

text \<open>\<open>Result::ok\<close>: an error dropped. A panic has no value to hand on.\<close>

fun ok_opt :: "'a result \<Rightarrow> 'a option" where
  "ok_opt (Ok x) = Some x"
| "ok_opt (Err e) = None"
| "ok_opt Panic = None"

lemma and_then_cong [fundef_cong]:
  "\<lbrakk>m = m'; \<And>x. m' = Ok x \<Longrightarrow> f x = g x\<rbrakk> \<Longrightarrow> and_then m f = and_then m' g"
  by (cases m') auto

lemma and_then_Ok_iff [result_simps]:
  "and_then m f = Ok y \<longleftrightarrow> (\<exists>x. m = Ok x \<and> f x = Ok y)"
  by (cases m) auto

lemma and_then_Panic_iff [result_simps]:
  "and_then m f = Panic \<longleftrightarrow> m = Panic \<or> (\<exists>x. m = Ok x \<and> f x = Panic)"
  by (cases m) auto

lemma map_ok_Ok_iff [result_simps]: "map_ok f m = Ok y \<longleftrightarrow> (\<exists>x. m = Ok x \<and> y = f x)"
  by (cases m) auto

lemma map_ok_Panic_iff [result_simps]: "map_ok f m = Panic \<longleftrightarrow> m = Panic"
  by (cases m) auto

lemma ok_or_Ok_iff [result_simps]: "ok_or e opt = Ok x \<longleftrightarrow> opt = Some x"
  by (cases opt) auto

lemma ok_or_not_Panic [simp]: "ok_or e opt \<noteq> Panic"
  by (cases opt) auto

lemma ok_opt_Some_iff [result_simps]: "ok_opt m = Some x \<longleftrightarrow> m = Ok x"
  by (cases m) auto

lemma is_ok_iff: "is_ok m \<longleftrightarrow> (\<exists>x. m = Ok x)"
  by (cases m) auto

lemma and_then_assoc [simp]: "and_then (and_then m f) g = and_then m (\<lambda>x. and_then (f x) g)"
  by (cases m) auto

section \<open>Reads of a slice\<close>

text \<open>\<open>buf.get(i)\<close> and \<open>buf.get(a..b)\<close>.\<close>

definition get_byte :: "bytes \<Rightarrow> usize \<Rightarrow> u8 option" where
  "get_byte buf i = (if i < length buf then Some (buf ! i) else None)"

definition get_range :: "'a list \<Rightarrow> usize \<Rightarrow> usize \<Rightarrow> 'a list option" where
  "get_range xs a b = (if a \<le> b \<and> b \<le> length xs then Some (take (b - a) (drop a xs)) else None)"

lemma get_byte_Some_iff: "get_byte buf i = Some b \<longleftrightarrow> i < length buf \<and> buf ! i = b"
  by (auto simp: get_byte_def)

lemma get_byte_None_iff: "get_byte buf i = None \<longleftrightarrow> length buf \<le> i"
  by (auto simp: get_byte_def)

lemma get_range_Some_iff:
  "get_range xs a b = Some ys \<longleftrightarrow> a \<le> b \<and> b \<le> length xs \<and> ys = take (b - a) (drop a xs)"
  by (auto simp: get_range_def)

lemma get_range_length: "get_range xs a b = Some ys \<Longrightarrow> length ys = b - a"
  by (auto simp: get_range_Some_iff)

text \<open>What a buffer holds from a position on: the proofs' view of an encoding in place.\<close>

definition at_pos :: "bytes \<Rightarrow> usize \<Rightarrow> bytes \<Rightarrow> bool" where
  "at_pos buf pos bs \<longleftrightarrow> pos + length bs \<le> length buf \<and> take (length bs) (drop pos buf) = bs"

lemma at_pos_Nil [at_simps]: "at_pos buf pos [] \<longleftrightarrow> pos \<le> length buf"
  by (simp add: at_pos_def)

lemma at_pos_append [at_simps]:
  "at_pos buf pos (xs @ ys) \<longleftrightarrow> at_pos buf pos xs \<and> at_pos buf (pos + length xs) ys"
proof -
  have "take (length xs + length ys) (drop pos buf)
      = take (length xs) (drop pos buf) @ take (length ys) (drop (pos + length xs) buf)"
    by (simp add: take_add add.commute)
  moreover have "length xs = length (take (length xs) (drop pos buf))"
    if "pos + length xs \<le> length buf" using that by simp
  ultimately show ?thesis
    by (auto simp: at_pos_def add.assoc append_eq_append_conv)
qed

lemma at_pos_Cons [at_simps]:
  "at_pos buf pos (b # bs) \<longleftrightarrow> get_byte buf pos = Some b \<and> at_pos buf (Suc pos) bs"
proof -
  have "at_pos buf pos [b] \<longleftrightarrow> get_byte buf pos = Some b"
    by (auto simp: at_pos_def get_byte_def Suc_le_eq take_Suc_conv_app_nth)
  with at_pos_append [of buf pos "[b]" bs] show ?thesis by simp
qed

lemma at_pos_range:
  "at_pos buf pos bs \<Longrightarrow> n = length bs \<Longrightarrow> get_range buf pos (pos + n) = Some bs"
  by (auto simp: at_pos_def get_range_def)

lemma at_pos_le: "at_pos buf pos bs \<Longrightarrow> pos + length bs \<le> length buf"
  by (simp add: at_pos_def)

lemma at_pos_whole [simp]: "at_pos (pre @ bs @ post) (length pre) bs"
  by (simp add: at_pos_def)

lemma at_pos_self [simp]: "at_pos bs 0 bs"
  by (simp add: at_pos_def)

section \<open>Orderings\<close>

text \<open>\<open>std::cmp::Ordering\<close>, \<open>cmp\<close> on an ordered type, and \<open>then\<close>.\<close>

datatype ordering = Less | Equal | Greater

definition cmp :: "'a::linorder \<Rightarrow> 'a \<Rightarrow> ordering" where
  "cmp a b = (if a < b then Less else if a = b then Equal else Greater)"

fun then_ord :: "ordering \<Rightarrow> ordering \<Rightarrow> ordering" where
  "then_ord Equal o2 = o2"
| "then_ord o1 o2 = o1"

fun reverse_ord :: "ordering \<Rightarrow> ordering" where
  "reverse_ord Less = Greater"
| "reverse_ord Equal = Equal"
| "reverse_ord Greater = Less"

lemma cmp_simps [simp]:
  "cmp a b = Less \<longleftrightarrow> a < b" "cmp a b = Equal \<longleftrightarrow> a = b" "cmp a b = Greater \<longleftrightarrow> b < a"
  by (auto simp: cmp_def)

lemma cmp_same [simp]: "cmp a a = Equal"
  by simp

lemma cmp_reverse: "reverse_ord (cmp a b) = cmp b a"
  by (auto simp: cmp_def)

lemma then_ord_Equal_iff [simp]: "then_ord o1 o2 = Equal \<longleftrightarrow> o1 = Equal \<and> o2 = Equal"
  by (cases o1) auto

lemma then_ord_reverse: "reverse_ord (then_ord o1 o2) = then_ord (reverse_ord o1) (reverse_ord o2)"
  by (cases o1) auto

section \<open>Counting loops\<close>

text \<open>
  \<open>for _ in 0..n\<close> over a reader: each turn reads an element at the position the one before
  left, and the first error ends the loop.
\<close>

primrec many :: "(usize \<Rightarrow> ('a \<times> usize) result) \<Rightarrow> nat \<Rightarrow> usize \<Rightarrow> ('a list \<times> usize) result" where
  "many f 0 pos = Ok ([], pos)"
| "many f (Suc n) pos =
     and_then (f pos) (\<lambda>(x, p). and_then (many f n p) (\<lambda>(xs, q). Ok (x # xs, q)))"

lemma many_cong [fundef_cong]:
  assumes "n = n'" "pos = pos'" "\<And>p. f p = g p"
  shows "many f n pos = many g n' pos'"
proof -
  from assms(3) have "f = g" by blast
  with assms show ?thesis by simp
qed

lemma many_length: "many f n pos = Ok (xs, q) \<Longrightarrow> length xs = n"
  by (induction n arbitrary: pos xs) (auto simp: result_simps)

text \<open>A reader that moves on keeps its loop moving, and inside the buffer.\<close>

lemma many_progress:
  assumes "many f n pos = Ok (xs, q)" "pos \<le> b"
    and "\<And>p x p'. f p = Ok (x, p') \<Longrightarrow> p < p' \<and> p' \<le> b"
  shows "pos + n \<le> q \<and> q \<le> b"
  using assms(1,2)
proof (induction n arbitrary: pos xs)
  case 0
  then show ?case by simp
next
  case (Suc n)
  then obtain x p xs' where f: "f pos = Ok (x, p)" and r: "many f n p = Ok (xs', q)"
    by (auto simp: result_simps)
  from assms(3) [OF f] have p: "pos < p" "p \<le> b" by auto
  with Suc.IH [OF r] show ?case by auto
qed

text \<open>The loop over the encodings of a list reads the list back.\<close>

lemma many_roundtrip:
  assumes "at_pos buf pos (concat (map enc xs))"
    and "\<And>x p. x \<in> set xs \<Longrightarrow> at_pos buf p (enc x) \<Longrightarrow> f p = Ok (x, p + length (enc x))"
  shows "many f (length xs) pos = Ok (xs, pos + length (concat (map enc xs)))"
  using assms
proof (induction xs arbitrary: pos)
  case Nil
  then show ?case by simp
next
  case (Cons x xs)
  then have "f pos = Ok (x, pos + length (enc x))"
    by (simp add: at_simps)
  moreover have "many f (length xs) (pos + length (enc x))
      = Ok (xs, pos + length (enc x) + length (concat (map enc xs)))"
    using Cons.prems by (intro Cons.IH) (simp_all add: at_simps)
  ultimately show ?case by (simp add: add.assoc)
qed

end
