(* ===== verification/Fenec_Std.thy ===== *)
theory Fenec_Std
  imports Fenec_Prelude
begin

unbundle bit_operations_syntax

text \<open>
  What the code uses of Rust's standard library: little-endian bytes of a word and the
  words of a byte slice, \<open>as_chunks\<close>, the binary search of a slice and \<open>partition_point\<close>,
  \<open>str::from_utf8\<close>, \<open>split\<close> on a character, and \<open>leading_zeros\<close>. The lemmas say what the
  documentation promises, each proved of the definition here.
\<close>

section \<open>Little-endian bytes\<close>

definition le_bytes :: "nat \<Rightarrow> 'a::len word \<Rightarrow> bytes" where
  "le_bytes n w = map (\<lambda>i. ucast (drop_bit (8 * i) w)) [0..<n]"

primrec of_le_bytes :: "bytes \<Rightarrow> 'a::len word" where
  "of_le_bytes [] = 0"
| "of_le_bytes (b # bs) = ucast b OR push_bit 8 (of_le_bytes bs)"

lemma length_le_bytes [simp]: "length (le_bytes n w) = n"
  by (simp add: le_bytes_def)

lemma bit_of_le_bytes:
  "bit (of_le_bytes bs :: 'a::len word) i
     \<longleftrightarrow> i < LENGTH('a) \<and> i div 8 < length bs \<and> bit (bs ! (i div 8)) (i mod 8)"
proof (induction bs arbitrary: i)
  case Nil
  then show ?case by simp
next
  case (Cons b bs)
  show ?case
  proof (cases "i < 8")
    case True
    then show ?thesis
      by (auto simp: bit_or_iff bit_push_bit_iff bit_ucast_iff bit_simps)
  next
    case False
    then have "\<not> bit b i"
      by (metis bit_imp_le_length len_num0 len_bit0 len_num1 mult_2 numeral_Bit0 not_less
            one_add_one numeral_One mult.right_neutral)
    with False show ?thesis
      by (auto simp: bit_or_iff bit_push_bit_iff bit_ucast_iff Cons.IH le_div_geq le_mod_geq)
  qed
qed

lemma of_le_bytes_le_bytes:
  fixes w :: "'a::len word"
  assumes "LENGTH('a) = 8 * n"
  shows "of_le_bytes (le_bytes n w) = w"
proof (rule bit_word_eqI)
  fix i assume i: "i < LENGTH('a)"
  with assms have "i div 8 < n" by auto
  with i show "bit (of_le_bytes (le_bytes n w) :: 'a word) i = bit w i"
    by (simp add: bit_of_le_bytes le_bytes_def bit_ucast_iff bit_drop_bit_eq)
qed

lemma le_bytes_roundtrip [simp]:
  "of_le_bytes (le_bytes 2 (h :: u16)) = h"
  "of_le_bytes (le_bytes 4 (s :: u32)) = s"
  "of_le_bytes (le_bytes 8 (d :: u64)) = d"
  by (rule of_le_bytes_le_bytes, simp)+

section \<open>Chunks\<close>

text \<open>\<open>as_chunks::<N>().0\<close>: the whole chunks, what is left over dropped.\<close>

fun chunks :: "nat \<Rightarrow> 'a list \<Rightarrow> 'a list list" where
  "chunks n xs = (if n = 0 \<or> length xs < n then [] else take n xs # chunks n (drop n xs))"

declare chunks.simps [simp del]

lemma chunks_concat:
  assumes "0 < n" "\<And>x. x \<in> set xss \<Longrightarrow> length x = n"
  shows "chunks n (concat xss) = xss"
  using assms(2)
proof (induction xss)
  case Nil
  with assms(1) show ?case by (simp add: chunks.simps)
next
  case (Cons xs xss)
  then have n: "n = length xs" and IH: "chunks n (concat xss) = xss" by auto
  from IH assms(1) show ?case unfolding n by (simp add: chunks.simps [of _ "xs @ concat xss"])
qed

lemma length_chunks: "length (chunks n xs) = (if n = 0 then 0 else length xs div n)"
proof (induction n xs rule: chunks.induct)
  case (1 n xs)
  then show ?case by (subst chunks.simps) (auto simp: le_div_geq)
qed

lemma length_concat_const:
  "(\<And>x. x \<in> set xs \<Longrightarrow> length (f x) = n) \<Longrightarrow> length (concat (map f xs)) = length xs * n"
  by (induction xs) auto

section \<open>Binary search\<close>

text \<open>
  \<open>slice::binary_search_by\<close> as the library has it: the half of the slice that can hold the
  target kept until one element is left. \<open>Inl i\<close> stands for \<open>Ok(i)\<close>, \<open>Inr i\<close> for \<open>Err(i)\<close>,
  the place to insert at.
\<close>

function bs_loop :: "('a \<Rightarrow> ordering) \<Rightarrow> 'a list \<Rightarrow> nat \<Rightarrow> nat \<Rightarrow> nat" where
  "bs_loop f xs base sz =
     (if sz \<le> 1 then base
      else let half = sz div 2; mid = base + half
           in bs_loop f xs (if f (xs ! mid) = Greater then base else mid) (sz - half))"
  by pat_completeness auto
termination
  by (relation "measure (\<lambda>(f, xs, base, sz). sz)") auto

declare bs_loop.simps [simp del]

definition binary_search_by :: "('a \<Rightarrow> ordering) \<Rightarrow> 'a list \<Rightarrow> nat + nat" where
  "binary_search_by f xs =
     (if xs = [] then Inr 0
      else let base = bs_loop f xs 0 (length xs) in
        (case f (xs ! base) of
           Equal \<Rightarrow> Inl base
         | Less \<Rightarrow> Inr (Suc base)
         | Greater \<Rightarrow> Inr base))"

definition partition_point :: "('a \<Rightarrow> bool) \<Rightarrow> 'a list \<Rightarrow> nat" where
  "partition_point P xs =
     (case binary_search_by (\<lambda>x. if P x then Less else Greater) xs of Inl i \<Rightarrow> i | Inr i \<Rightarrow> i)"

fun rank :: "ordering \<Rightarrow> nat" where
  "rank Less = 0" | "rank Equal = 1" | "rank Greater = 2"

text \<open>The slice is ordered as the search reads it: what is less, what is equal, what is greater.\<close>

definition search_sorted :: "('a \<Rightarrow> ordering) \<Rightarrow> 'a list \<Rightarrow> bool" where
  "search_sorted f xs \<longleftrightarrow> sorted (map (\<lambda>x. rank (f x)) xs)"

lemma search_sortedD:
  "search_sorted f xs \<Longrightarrow> i \<le> j \<Longrightarrow> j < length xs \<Longrightarrow> rank (f (xs ! i)) \<le> rank (f (xs ! j))"
  using sorted_nth_mono [of "map (\<lambda>x. rank (f x)) xs" i j] by (simp add: search_sorted_def)

lemma bs_loop_inv:
  assumes "search_sorted f xs" "0 < sz" "base + sz \<le> length xs"
    and "\<forall>j<length xs. base + sz \<le> j \<longrightarrow> f (xs ! j) = Greater"
    and "base = 0 \<or> f (xs ! base) \<noteq> Greater"
  shows "let b = bs_loop f xs base sz in b < length xs
     \<and> (\<forall>j<length xs. b < j \<longrightarrow> f (xs ! j) = Greater) \<and> (b = 0 \<or> f (xs ! b) \<noteq> Greater)"
  using assms
proof (induction f xs base sz rule: bs_loop.induct)
  case (1 f xs base sz)
  show ?case
  proof (cases "sz \<le> 1")
    case True
    with "1.prems" show ?thesis by (auto simp: bs_loop.simps [of f xs base sz])
  next
    case False
    let ?half = "sz div 2"
    let ?mid = "base + ?half"
    let ?b = "if f (xs ! ?mid) = Greater then base else ?mid"
    have mid: "?mid < length xs" using False "1.prems"(2,3) by auto
    have greater: "f (xs ! j) = Greater" if "f (xs ! ?mid) = Greater" "?mid \<le> j" "j < length xs" for j
      using search_sortedD [OF "1.prems"(1) that(2,3)] that(1) by (cases "f (xs ! j)") auto
    have above: "\<forall>j<length xs. ?b + (sz - ?half) \<le> j \<longrightarrow> f (xs ! j) = Greater"
      using "1.prems"(4) greater False by auto
    have room: "0 < sz - ?half" "?b + (sz - ?half) \<le> length xs"
      using False "1.prems"(3) by auto
    have low: "?b = 0 \<or> f (xs ! ?b) \<noteq> Greater" using "1.prems"(5) by simp
    have "bs_loop f xs base sz = bs_loop f xs ?b (sz - ?half)"
      using False by (simp add: bs_loop.simps [of f xs base sz] Let_def)
    with "1.IH" [OF False refl refl "1.prems"(1) room above low] show ?thesis by simp
  qed
qed

theorem binary_search_by_found:
  "search_sorted f xs \<Longrightarrow> binary_search_by f xs = Inl i \<Longrightarrow> i < length xs \<and> f (xs ! i) = Equal"
  using bs_loop_inv [of f xs "length xs" 0]
  by (auto simp: binary_search_by_def Let_def split: if_splits ordering.splits)

lemma binary_search_by_place:
  assumes s: "search_sorted f xs" and r: "binary_search_by f xs = Inr i"
  shows "i \<le> length xs \<and> (\<forall>j<i. f (xs ! j) = Less) \<and> (\<forall>j<length xs. i \<le> j \<longrightarrow> f (xs ! j) = Greater)"
proof (cases "xs = []")
  case True
  with r show ?thesis by (simp add: binary_search_by_def)
next
  case False
  let ?b = "bs_loop f xs 0 (length xs)"
  from False s have b: "?b < length xs" "\<forall>j<length xs. ?b < j \<longrightarrow> f (xs ! j) = Greater"
    "?b = 0 \<or> f (xs ! ?b) \<noteq> Greater"
    using bs_loop_inv [of f xs "length xs" 0] by (auto simp: Let_def)
  from False r consider "f (xs ! ?b) = Less" "i = Suc ?b" | "f (xs ! ?b) = Greater" "i = ?b"
    by (auto simp: binary_search_by_def Let_def split: ordering.splits)
  then show ?thesis
  proof cases
    case 1
    have "f (xs ! j) = Less" if "j < i" for j
      using search_sortedD [OF s, of j ?b] that 1 b(1) by (cases "f (xs ! j)") auto
    with 1 b show ?thesis by auto
  next
    case 2
    with b(3) have "?b = 0" by auto
    with 2 b show ?thesis by (metis le_eq_less_or_eq less_imp_le_nat not_less_zero)
  qed
qed

lemma binary_search_by_absent:
  "search_sorted f xs \<Longrightarrow> binary_search_by f xs = Inr i \<Longrightarrow> x \<in> set xs \<Longrightarrow> f x \<noteq> Equal"
  by (metis binary_search_by_place in_set_conv_nth not_le ordering.distinct(1) ordering.distinct(5))

text \<open>A slice ascending by a key is ordered for a search of that key.\<close>

lemma search_sorted_key:
  assumes "sorted (map k xs)"
  shows "search_sorted (\<lambda>x. cmp (k x) key) xs"
proof -
  have "sorted_wrt (\<lambda>x y. k x \<le> k y) xs"
    using assms by (simp add: sorted_map)
  then show ?thesis
    unfolding search_sorted_def sorted_wrt_map
    by (rule sorted_wrt_mono_rel [rotated]) (auto simp: cmp_def)
qed

lemma partition_point_spec:
  assumes "sorted_wrt (\<lambda>x y. P y \<longrightarrow> P x) xs"
  shows "partition_point P xs \<le> length xs"
    and "j < partition_point P xs \<Longrightarrow> P (xs ! j)"
    and "partition_point P xs \<le> j \<Longrightarrow> j < length xs \<Longrightarrow> \<not> P (xs ! j)"
proof -
  let ?f = "\<lambda>x. if P x then Less else Greater"
  have s: "search_sorted ?f xs"
    unfolding search_sorted_def sorted_wrt_map
    by (rule sorted_wrt_mono_rel [OF _ assms]) simp
  obtain i where i: "binary_search_by ?f xs = Inr i"
    using binary_search_by_found [OF s] by (cases "binary_search_by ?f xs") (auto split: if_splits)
  then have p: "partition_point P xs = i" by (simp add: partition_point_def)
  note spec = binary_search_by_place [OF s i]
  show "partition_point P xs \<le> length xs" using spec p by simp
  show "P (xs ! j)" if "j < partition_point P xs" using spec p that by (auto split: if_splits)
  show "\<not> P (xs ! j)" if "partition_point P xs \<le> j" "j < length xs"
    using spec p that by (auto split: if_splits)
qed

lemma partition_point_unique:
  assumes s: "sorted_wrt (\<lambda>x y. P y \<longrightarrow> P x) xs" and k: "k \<le> length xs"
    and P: "\<forall>j<k. P (xs ! j)" and N: "k < length xs \<Longrightarrow> \<not> P (xs ! k)"
  shows "partition_point P xs = k"
proof (cases "partition_point P xs" k rule: linorder_cases)
  case less
  with partition_point_spec(3) [OF s, of "partition_point P xs"] k P show ?thesis by auto
next
  case equal
  then show ?thesis .
next
  case greater
  with partition_point_spec(1) [OF s] partition_point_spec(2) [OF s, of k] N show ?thesis by auto
qed

lemma take_partition_point:
  "sorted_wrt (\<lambda>x y. P y \<longrightarrow> P x) xs \<Longrightarrow> take (partition_point P xs) xs = filter P xs"
proof (induction xs)
  case Nil
  then show ?case by simp
next
  case (Cons x xs)
  show ?case
  proof (cases "P x")
    case True
    let ?k = "partition_point P xs"
    have sx: "sorted_wrt (\<lambda>x y. P y \<longrightarrow> P x) xs" using Cons.prems by simp
    have "partition_point P (x # xs) = Suc ?k"
      using True partition_point_spec [OF sx]
      by (intro partition_point_unique [OF Cons.prems]) (auto simp: less_Suc_eq_0_disj)
    with Cons.IH [OF sx] True show ?thesis by simp
  next
    case False
    with Cons.prems have "\<forall>y\<in>set xs. \<not> P y" by auto
    moreover have "partition_point P (x # xs) = 0"
      using False by (intro partition_point_unique [OF Cons.prems]) auto
    ultimately show ?thesis using False by simp
  qed
qed

lemma drop_partition_point:
  assumes "sorted_wrt (\<lambda>x y. P y \<longrightarrow> P x) xs"
  shows "drop (partition_point P xs) xs = filter (\<lambda>x. \<not> P x) xs"
  using assms
proof (induction xs)
  case Nil
  then show ?case by simp
next
  case (Cons x xs)
  show ?case
  proof (cases "P x")
    case True
    have sx: "sorted_wrt (\<lambda>x y. P y \<longrightarrow> P x) xs" using Cons.prems by simp
    have "partition_point P (x # xs) = Suc (partition_point P xs)"
      using True partition_point_spec [OF sx]
      by (intro partition_point_unique [OF Cons.prems]) (auto simp: less_Suc_eq_0_disj)
    with Cons.IH [OF sx] True show ?thesis by simp
  next
    case False
    with Cons.prems have "\<forall>y\<in>set xs. \<not> P y" by auto
    moreover have "partition_point P (x # xs) = 0"
      using False by (intro partition_point_unique [OF Cons.prems]) auto
    ultimately show ?thesis using False by simp
  qed
qed

section \<open>Text\<close>

text \<open>
  A Rust \<open>str\<close> is its UTF-8 bytes. \<open>from_utf8\<close> accepts the well-formed sequences of the
  Unicode standard: no overlong form, no surrogate, nothing past U+10FFFF.
\<close>

definition cont :: "u8 \<Rightarrow> bool" where
  "cont b \<longleftrightarrow> 0x80 \<le> b \<and> b \<le> 0xBF"

fun from_utf8 :: "bytes \<Rightarrow> bool" where
  "from_utf8 [] = True"
| "from_utf8 (b # bs) =
     (if b < 0x80 then from_utf8 bs
      else if 0xC2 \<le> b \<and> b \<le> 0xDF then
        (case bs of c # cs \<Rightarrow> cont c \<and> from_utf8 cs | _ \<Rightarrow> False)
      else if 0xE0 \<le> b \<and> b \<le> 0xEF then
        (case bs of c # d # cs \<Rightarrow>
             (if b = 0xE0 then 0xA0 else 0x80) \<le> c \<and> c \<le> (if b = 0xED then 0x9F else 0xBF)
             \<and> cont d \<and> from_utf8 cs
         | _ \<Rightarrow> False)
      else if 0xF0 \<le> b \<and> b \<le> 0xF4 then
        (case bs of c # d # e # cs \<Rightarrow>
             (if b = 0xF0 then 0x90 else 0x80) \<le> c \<and> c \<le> (if b = 0xF4 then 0x8F else 0xBF)
             \<and> cont d \<and> cont e \<and> from_utf8 cs
         | _ \<Rightarrow> False)
      else False)"

text \<open>\<open>s.split(d)\<close>: always at least one piece.\<close>

fun split_on :: "'a \<Rightarrow> 'a list \<Rightarrow> 'a list list" where
  "split_on d [] = [[]]"
| "split_on d (x # xs) =
     (if x = d then [] # split_on d xs
      else (case split_on d xs of [] \<Rightarrow> [[x]] | y # ys \<Rightarrow> (x # y) # ys))"

lemma split_on_not_Nil [simp]: "split_on d xs \<noteq> []"
  by (induction xs) (auto split: list.splits)

text \<open>\<open>s.split_once(d)\<close>.\<close>

fun split_once :: "'a \<Rightarrow> 'a list \<Rightarrow> ('a list \<times> 'a list) option" where
  "split_once d [] = None"
| "split_once d (x # xs) =
     (if x = d then Some ([], xs)
      else map_option (\<lambda>(a, b). (x # a, b)) (split_once d xs))"

lemma split_once_Some: "split_once d xs = Some (a, b) \<Longrightarrow> xs = a @ d # b \<and> d \<notin> set a"
  by (induction xs arbitrary: a) (auto split: if_splits)

lemma split_once_None: "split_once d xs = None \<longleftrightarrow> d \<notin> set xs"
  by (induction xs) auto

section \<open>Leading zeros\<close>

text \<open>The bits a number takes, and \<open>u64::leading_zeros\<close> by them.\<close>

fun bit_len :: "nat \<Rightarrow> nat" where
  "bit_len n = (if n = 0 then 0 else Suc (bit_len (n div 2)))"

declare bit_len.simps [simp del]

definition leading_zeros :: "u64 \<Rightarrow> nat" where
  "leading_zeros w = 64 - bit_len (unat w)"

lemma bit_len_0 [simp]: "bit_len 0 = 0"
  by (simp add: bit_len.simps)

lemma bit_len_le_iff: "bit_len n \<le> k \<longleftrightarrow> n < 2 ^ k"
proof (induction n arbitrary: k rule: bit_len.induct)
  case (1 n)
  show ?case
  proof (cases "n = 0")
    case True
    then show ?thesis by simp
  next
    case False
    then show ?thesis
    proof (cases k)
      case 0
      with False show ?thesis by (simp add: bit_len.simps [of n])
    next
      case (Suc j)
      have "n div 2 < 2 ^ j \<longleftrightarrow> n < 2 ^ Suc j" by auto
      with False Suc 1 show ?thesis by (simp add: bit_len.simps [of n])
    qed
  qed
qed

end
