(* ===== verification/Fenec_Wire.thy ===== *)
theory Fenec_Wire
  imports Fenec_Prelude
begin

text \<open>
  The contract between a writer and a reader of the file format, as a locale: what is written
  at a position is read there, and the read stops where the writing did. The client's lemmas --
  round trips inside a larger buffer, encodings that cannot be mistaken for one another, runs of
  them -- are proved once here; varints, texts, values and types of \<open>codec.rs\<close> interpret it.
\<close>

locale wire =
  fixes enc :: "'a \<Rightarrow> bytes"
    and rd :: "bytes \<Rightarrow> usize \<Rightarrow> ('a \<times> usize) result"
    and ok :: "'a \<Rightarrow> bool"
  assumes rd_at: "ok x \<Longrightarrow> at_pos buf pos (enc x) \<Longrightarrow> length buf < 2 ^ 63
     \<Longrightarrow> rd buf pos = Ok (x, pos + length (enc x))"
begin

lemma round_trip:
  "ok x \<Longrightarrow> length (pre @ enc x @ post) < 2 ^ 63
     \<Longrightarrow> rd (pre @ enc x @ post) (length pre) = Ok (x, length pre + length (enc x))"
  by (rule rd_at) auto

text \<open>No encoding is the start of another's: where one ends is in its bytes.\<close>

lemma prefix_free:
  assumes "ok x" "ok y" "enc x @ r = enc y @ s" "length (enc x @ r) < 2 ^ 63"
  shows "x = y \<and> r = s"
proof -
  have "rd (enc x @ r) 0 = Ok (x, length (enc x))" using round_trip [of x "[]" r] assms by simp
  moreover have "rd (enc x @ r) 0 = Ok (y, length (enc y))" using round_trip [of y "[]" s] assms by simp
  ultimately have "x = y" by simp
  with assms(3) show ?thesis by simp
qed

lemma run_at:
  "\<forall>x\<in>set xs. ok x \<Longrightarrow> at_pos buf pos (concat (map enc xs)) \<Longrightarrow> length buf < 2 ^ 63
     \<Longrightarrow> many (rd buf) (length xs) pos = Ok (xs, pos + length (concat (map enc xs)))"
  by (rule many_roundtrip) (auto intro: rd_at)

lemma run_round_trip:
  "\<forall>x\<in>set xs. ok x \<Longrightarrow> length (concat (map enc xs)) < 2 ^ 63
     \<Longrightarrow> many (rd (concat (map enc xs))) (length xs) 0 = Ok (xs, length (concat (map enc xs)))"
  using run_at [of xs "concat (map enc xs)" 0] by simp

end

text \<open>Two readers one after the other, as the members of an object are read.\<close>

locale wire_pair = a: wire enc_a rd_a ok_a + b: wire enc_b rd_b ok_b
  for enc_a :: "'a \<Rightarrow> bytes" and rd_a ok_a and enc_b :: "'b \<Rightarrow> bytes" and rd_b ok_b
begin

definition enc_pair :: "'a \<times> 'b \<Rightarrow> bytes" where
  "enc_pair p = enc_a (fst p) @ enc_b (snd p)"

definition rd_pair :: "bytes \<Rightarrow> usize \<Rightarrow> (('a \<times> 'b) \<times> usize) result" where
  "rd_pair buf pos = and_then (rd_a buf pos) (\<lambda>(x, pos). and_then (rd_b buf pos) (\<lambda>(y, pos). Ok ((x, y), pos)))"

end

sublocale wire_pair \<subseteq> pair: wire enc_pair rd_pair "\<lambda>p. ok_a (fst p) \<and> ok_b (snd p)"
  by unfold_locales (auto simp: enc_pair_def rd_pair_def at_simps a.rd_at b.rd_at add.assoc)

end
