(* ===== verification/Fenec_Varint.thy ===== *)
theory Fenec_Varint
  imports Fenec_Std Fenec_Wire
begin

unbundle bit_operations_syntax

text \<open>
  The integers of the file format (\<open>fenec-core/src/codec.rs\<close>): LEB128 varints, zigzag for
  signed ones, and IEEE binary16. A reader takes the buffer and the position and returns the
  value with the position past it, as \<open>pos: &mut usize\<close> is left.
\<close>

section \<open>Varints\<close>

lemma unat_drop7: "unat (drop_bit 7 (v :: u64)) = unat v div 128"
  by (subst unat_drop_bit_eq) (simp add: drop_bit_eq_div)

function put_uvarint :: "u64 \<Rightarrow> bytes" where
  "put_uvarint v =
     (if 0x80 \<le> v then (ucast v OR 0x80) # put_uvarint (drop_bit 7 v) else [ucast v])"
  by pat_completeness auto
termination
proof (relation "measure unat")
  fix v :: u64
  assume "0x80 \<le> v"
  then have "128 \<le> unat v" by (simp add: word_le_nat_alt)
  then show "(drop_bit 7 v, v) \<in> measure unat"
    by (simp add: unat_drop7)
qed simp

declare put_uvarint.simps [simp del]

definition e_varint_early :: error where
  "e_varint_early = Corrupt ''varint ended early''"

definition e_varint_overflow :: error where
  "e_varint_overflow = Corrupt ''varint overflow''"

function get_uvarint_loop :: "bytes \<Rightarrow> usize \<Rightarrow> u64 \<Rightarrow> nat \<Rightarrow> (u64 \<times> usize) result" where
  "get_uvarint_loop buf pos result shift =
     (case get_byte buf pos of
        None \<Rightarrow> Err e_varint_early
      | Some b \<Rightarrow>
          (let pos = pos + 1; result = result OR push_bit shift (ucast (b AND 0x7f))
           in if b AND 0x80 = 0 then Ok (result, pos)
              else let shift = shift + 7
                   in if shift > 63 then Err e_varint_overflow
                      else get_uvarint_loop buf pos result shift))"
  by pat_completeness auto
termination
  by (relation "measure (\<lambda>(buf, pos, result, shift). 64 - shift)") auto

declare get_uvarint_loop.simps [simp del]

definition get_uvarint :: "bytes \<Rightarrow> usize \<Rightarrow> (u64 \<times> usize) result" where
  "get_uvarint buf pos = get_uvarint_loop buf pos 0 0"

text \<open>\<open>get_uvarint(..)? as usize\<close>, which most lengths and counts are read by.\<close>

definition get_usize :: "bytes \<Rightarrow> usize \<Rightarrow> (usize \<times> usize) result" where
  "get_usize buf pos = map_ok (\<lambda>(n, p). (unat n, p)) (get_uvarint buf pos)"

definition zigzag :: "i64 \<Rightarrow> u64" where
  "zigzag v = push_bit 1 v XOR signed_drop_bit 63 v"

definition unzigzag :: "u64 \<Rightarrow> i64" where
  "unzigzag v = drop_bit 1 v XOR - (v AND 1)"

subsection \<open>Round trips\<close>

lemma put_uvarint_not_Nil [simp]: "put_uvarint v \<noteq> []"
  by (subst put_uvarint.simps) simp

lemma and_one_bit: "(w :: u64) AND 1 = (if bit w 0 then 1 else 0)"
proof (rule bit_word_eqI)
  fix n :: nat
  show "bit (w AND 1) n = bit (if bit w 0 then 1 else 0 :: u64) n"
    by (cases n) (simp_all add: bit_and_iff bit_1_iff)
qed

lemma bit_x80: "bit (0x80 :: u8) n \<longleftrightarrow> n = 7"
proof -
  have "(0x80 :: u8) = push_bit 7 1" by simp
  then show ?thesis by (simp only: bit_push_bit_iff bit_1_iff) auto
qed

lemma byte_high_bit:
  fixes v :: u64
  shows "(ucast v OR 0x80 :: u8) AND 0x80 \<noteq> 0" "(ucast v OR 0x80 :: u8) AND 0x7f = ucast v AND 0x7f"
proof -
  have "bit ((ucast v OR 0x80 :: u8) AND 0x80) 7"
    by (simp add: bit_simps)
  then show "(ucast v OR 0x80 :: u8) AND 0x80 \<noteq> 0" by force
  have "(0x80 :: u8) AND 0x7f = 0" by simp
  then show "(ucast v OR 0x80 :: u8) AND 0x7f = ucast v AND 0x7f"
    by (simp add: bit.conj_disj_distrib2)
qed

lemma bit_low7: "bit (ucast ((ucast (v :: u64) :: u8) AND 0x7f) :: u64) n \<longleftrightarrow> n < 7 \<and> bit v n"
proof -
  have "(0x7f :: u8) = mask 7" by (simp add: mask_eq_exp_minus_1)
  then have "bit (0x7f :: u8) n \<longleftrightarrow> n < 7" by (simp only: bit_mask_iff) auto
  then show ?thesis by (auto simp: bit_simps)
qed

lemma varint_step:
  fixes v :: u64
  shows "push_bit s (ucast ((ucast v :: u8) AND 0x7f)) OR push_bit (s + 7) (drop_bit 7 v) = push_bit s v"
proof (rule bit_word_eqI)
  fix n :: nat
  have "s + 7 \<le> n \<Longrightarrow> 7 + (n - (s + 7)) = n - s" by simp
  then show "bit (push_bit s (ucast ((ucast v :: u8) AND 0x7f)) OR push_bit (s + 7) (drop_bit 7 v)) n
      = bit (push_bit s v) n"
    by (cases "s + 7 \<le> n") (auto simp: bit_or_iff bit_push_bit_iff bit_low7 bit_drop_bit_eq)
qed

lemma small_byte:
  fixes v :: u64
  assumes "v < 0x80"
  shows "(ucast v :: u8) AND 0x80 = 0" "ucast ((ucast v :: u8) AND 0x7f) = v"
proof -
  have "unat v < 2 ^ 7" using assms by (simp add: word_less_nat_alt)
  then have "v = take_bit 7 v"
    by (metis take_bit_nat_eq_self_iff unsigned_take_bit_eq word_unat_eq_iff)
  then have *: "\<not> bit v n" if "7 \<le> n" for n
    using that by (metis bit_take_bit_iff not_le)
  show "ucast ((ucast v :: u8) AND 0x7f) = v"
    using * by (intro bit_word_eqI) (meson bit_low7 not_le)
  show "(ucast v :: u8) AND 0x80 = 0"
    using * [of 7] by (intro bit_word_eqI) (simp only: bit_and_iff bit_ucast_iff bit_x80, auto)
qed

lemma get_loop_roundtrip:
  assumes "at_pos buf pos (put_uvarint v)" "unat v < 2 ^ (64 - shift)" "shift \<le> 63"
  shows "get_uvarint_loop buf pos acc shift = Ok (acc OR push_bit shift v, pos + length (put_uvarint v))"
  using assms
proof (induction v arbitrary: pos acc shift rule: put_uvarint.induct)
  case (1 v)
  show ?case
  proof (cases "0x80 \<le> v")
    case True
    then have e: "put_uvarint v = (ucast v OR 0x80) # put_uvarint (drop_bit 7 v)"
      by (simp add: put_uvarint.simps [of v])
    have b: "get_byte buf pos = Some (ucast v OR 0x80)"
      and rest: "at_pos buf (Suc pos) (put_uvarint (drop_bit 7 v))"
      using "1.prems"(1) by (simp_all add: e at_simps)
    have "128 \<le> unat v" using True by (simp add: word_le_nat_alt)
    with "1.prems"(2) have "(2::nat) ^ 7 < 2 ^ (64 - shift)" by simp
    then have "7 < 64 - shift" by (rule power_less_imp_less_exp [rotated]) simp
    then have sh: "shift + 7 \<le> 63" by simp
    have "unat (drop_bit 7 v) < 2 ^ (64 - (shift + 7))"
    proof -
      have "(2::nat) ^ (64 - shift) = 2 ^ (64 - (shift + 7)) * 128"
        using sh power_add [of "2::nat" "64 - (shift + 7)" 7] by simp
      with "1.prems"(2) show ?thesis
        by (simp add: unat_drop7 less_mult_imp_div_less)
    qed
    note IH = "1.IH" [OF True rest this sh]
    show ?thesis
      using b sh IH
      by (subst get_uvarint_loop.simps)
        (simp add: e byte_high_bit Let_def or.assoc varint_step)
  next
    case False
    then have e: "put_uvarint v = [ucast v]" by (simp add: put_uvarint.simps [of v])
    from False have "v < 0x80" by simp
    note small = small_byte [OF this]
    show ?thesis
      using "1.prems"(1)
      by (subst get_uvarint_loop.simps) (simp add: e at_simps small Let_def)
  qed
qed

subsection \<open>Lengths, and a varint cut short\<close>

lemma length_put_uvarint_le: "length (put_uvarint v) \<le> Suc k \<longleftrightarrow> unat v < 2 ^ (7 * Suc k)"
proof (induction v arbitrary: k rule: put_uvarint.induct)
  case (1 v)
  show ?case
  proof (cases "0x80 \<le> v")
    case True
    then have ge: "128 \<le> unat v" by (simp add: word_le_nat_alt)
    have e: "length (put_uvarint v) = Suc (length (put_uvarint (drop_bit 7 v)))"
      using True by (simp add: put_uvarint.simps [of v])
    show ?thesis
    proof (cases k)
      case 0
      then show ?thesis using ge e by (simp add: put_uvarint.simps [of "drop_bit 7 v"])
    next
      case (Suc j)
      have "length (put_uvarint v) \<le> Suc k \<longleftrightarrow> unat v div 128 < 2 ^ (7 * Suc j)"
        using e Suc "1.IH" [OF True, of j] by (simp add: unat_drop7)
      also have "\<dots> \<longleftrightarrow> unat v < 2 ^ (7 * Suc j) * 128" by (rule div_less_iff_less_mult) simp
      also have "(2::nat) ^ (7 * Suc j) * 128 = 2 ^ (7 * Suc k)" using Suc by (simp add: power_add)
      finally show ?thesis .
    qed
  next
    case False
    then have "put_uvarint v = [ucast v]" "unat v < 128"
      by (simp_all add: put_uvarint.simps [of v] word_less_nat_alt not_le)
    moreover have "(128::nat) \<le> 2 ^ (7 * Suc k)" by (simp add: power_add)
    ultimately show ?thesis by simp
  qed
qed

lemma length_put_uvarint: "1 \<le> length (put_uvarint v) \<and> length (put_uvarint v) \<le> 10"
  using length_put_uvarint_le [of v 9] unat_u64_lt [of v]
  by (simp add: put_uvarint.simps [of v])

lemma get_loop_torn:
  assumes "k < length (put_uvarint v)" "unat v < 2 ^ (64 - shift)" "shift \<le> 63"
  shows "get_uvarint_loop (pre @ take k (put_uvarint v)) (length pre) acc shift = Err e_varint_early"
  using assms
proof (induction v arbitrary: k pre acc shift rule: put_uvarint.induct)
  case (1 v)
  show ?case
  proof (cases k)
    case 0
    then show ?thesis by (subst get_uvarint_loop.simps) (simp add: get_byte_def)
  next
    case (Suc j)
    have big: "0x80 \<le> v" using "1.prems"(1) Suc by (auto simp: put_uvarint.simps [of v] split: if_splits)
    then have e: "put_uvarint v = (ucast v OR 0x80) # put_uvarint (drop_bit 7 v)"
      by (simp add: put_uvarint.simps [of v])
    have "128 \<le> unat v" using big by (simp add: word_le_nat_alt)
    with "1.prems"(2) have "(2::nat) ^ 7 < 2 ^ (64 - shift)" by simp
    then have "7 < 64 - shift" by (rule power_less_imp_less_exp [rotated]) simp
    then have sh: "shift + 7 \<le> 63" by simp
    have lt: "unat (drop_bit 7 v) < 2 ^ (64 - (shift + 7))"
    proof -
      have "(2::nat) ^ (64 - shift) = 2 ^ (64 - (shift + 7)) * 128"
        using sh power_add [of "2::nat" "64 - (shift + 7)" 7] by simp
      with "1.prems"(2) show ?thesis by (simp add: unat_drop7 less_mult_imp_div_less)
    qed
    have j: "j < length (put_uvarint (drop_bit 7 v))" using "1.prems"(1) Suc e by simp
    have b: "get_byte (pre @ take k (put_uvarint v)) (length pre) = Some (ucast v OR 0x80)"
      by (simp add: e Suc get_byte_def nth_append)
    from "1.IH" [OF big j lt sh, of "pre @ [ucast v OR 0x80]"] b sh show ?thesis
      by (subst get_uvarint_loop.simps) (simp add: e Suc byte_high_bit Let_def)
  qed
qed

lemma get_uvarint_torn:
  "k < length (put_uvarint v) \<Longrightarrow> get_uvarint (pre @ take k (put_uvarint v)) (length pre) = Err e_varint_early"
  using get_loop_torn [of k v 0 pre 0] by (simp add: get_uvarint_def)

subsection \<open>Round trips of whole reads\<close>

lemma get_put_uvarint [at_simps]:
  assumes "at_pos buf pos (put_uvarint v)"
  shows "get_uvarint buf pos = Ok (v, pos + length (put_uvarint v))"
  using get_loop_roundtrip [OF assms, of 0 0] by (simp add: get_uvarint_def)

lemma get_put_usize:
  assumes "at_pos buf pos (put_uvarint (word_of_nat n))" "n < 2 ^ 64"
  shows "get_usize buf pos = Ok (n, pos + length (put_uvarint (word_of_nat n)))"
  using assms by (simp add: get_usize_def get_put_uvarint word_cast_simps)

subsection \<open>A read moves on, and stays in the buffer\<close>

lemma get_loop_progress:
  "get_uvarint_loop buf pos acc shift = Ok (v, p) \<Longrightarrow> pos < p \<and> p \<le> length buf"
proof (induction buf pos acc shift rule: get_uvarint_loop.induct)
  case (1 buf pos acc shift)
  from "1.prems" obtain b where b: "get_byte buf pos = Some b"
    by (subst (asm) get_uvarint_loop.simps) (auto split: option.splits)
  then have "pos < length buf" by (simp add: get_byte_Some_iff)
  with "1.IH" [OF b refl refl _ refl] "1.prems" b show ?case
    by (auto simp: get_uvarint_loop.simps [of buf pos acc shift] Let_def split: if_splits)
qed

lemma get_uvarint_progress: "get_uvarint buf pos = Ok (v, p) \<Longrightarrow> pos < p \<and> p \<le> length buf"
  unfolding get_uvarint_def by (rule get_loop_progress)

lemma get_usize_progress: "get_usize buf pos = Ok (n, p) \<Longrightarrow> pos < p \<and> p \<le> length buf \<and> n < 2 ^ 64"
  unfolding get_usize_def by (auto simp: result_simps dest: get_uvarint_progress)

lemma get_loop_no_panic: "get_uvarint_loop buf pos acc shift \<noteq> Panic"
proof (induction buf pos acc shift rule: get_uvarint_loop.induct)
  case (1 buf pos acc shift)
  then show ?case
    by (subst get_uvarint_loop.simps) (auto simp: Let_def split: option.splits)
qed

lemma get_uvarint_no_panic [simp]: "get_uvarint buf pos \<noteq> Panic"
  unfolding get_uvarint_def by (rule get_loop_no_panic)

lemma get_usize_no_panic [simp]: "get_usize buf pos \<noteq> Panic"
  by (simp add: get_usize_def result_simps)

section \<open>Zigzag\<close>

lemma bit_zigzag: "n < 64 \<Longrightarrow> bit (zigzag v) n \<longleftrightarrow> (0 < n \<and> bit v (n - 1)) \<noteq> bit v 63"
  unfolding zigzag_def
  by (simp only: bit_xor_iff bit_push_bit_iff bit_signed_drop_bit_iff) (cases n; simp)

lemma bit_unzigzag: "n < 64 \<Longrightarrow> bit (unzigzag v) n \<longleftrightarrow> bit v (Suc n) \<noteq> bit v 0"
  unfolding unzigzag_def and_one_bit
  by (cases "bit v 0") (simp_all only: bit_xor_iff bit_drop_bit_eq, simp_all)

lemma unzigzag_zigzag [simp]: "unzigzag (zigzag v) = v"
proof (rule bit_word_eqI)
  fix n :: nat
  assume n: "n < LENGTH(64)"
  show "bit (unzigzag (zigzag v)) n = bit v n"
  proof (cases "n = 63")
    case True
    moreover have "\<not> bit (zigzag v) 64" using bit_imp_le_length [of "zigzag v" 64] by auto
    ultimately show ?thesis by (simp add: bit_unzigzag bit_zigzag)
  next
    case False
    with n show ?thesis by (auto simp: bit_unzigzag bit_zigzag)
  qed
qed

lemma zigzag_unzigzag [simp]: "zigzag (unzigzag v) = v"
proof (rule bit_word_eqI)
  fix n :: nat
  assume n: "n < LENGTH(64)"
  have top: "\<not> bit v 64" using bit_imp_le_length [of v 64] by auto
  show "bit (zigzag (unzigzag v)) n = bit v n"
    using n top by (cases n) (auto simp: bit_unzigzag bit_zigzag)
qed

subsection \<open>The wire contract\<close>

interpretation uvarint: wire put_uvarint get_uvarint "\<lambda>_. True"
  by unfold_locales (rule get_put_uvarint)

interpretation usize_wire: wire "\<lambda>n. put_uvarint (word_of_nat n)" get_usize "\<lambda>n. n < 2 ^ 64"
  by unfold_locales (auto intro: get_put_usize)

text \<open>
  A varint is read back from wherever it was written, past exactly its bytes, of which there
  are one to ten; and no varint is the start of another.
\<close>

lemma uvarint_roundtrip:
  "get_uvarint (pre @ put_uvarint v @ post) (length pre) = Ok (v, length pre + length (put_uvarint v))
   \<and> 1 \<le> length (put_uvarint v) \<and> length (put_uvarint v) \<le> 10
   \<and> (put_uvarint v @ post = put_uvarint w @ rest \<longleftrightarrow> v = w \<and> post = rest)"
proof (intro conjI iffI)
  show r: "get_uvarint (pre @ put_uvarint v @ post) (length pre) = Ok (v, length pre + length (put_uvarint v))"
    for pre v post by (rule get_put_uvarint) simp
  show "1 \<le> length (put_uvarint v)" "length (put_uvarint v) \<le> 10" using length_put_uvarint by auto
  assume e: "put_uvarint v @ post = put_uvarint w @ rest"
  show "v = w" using r [of "[]" v post] r [of "[]" w rest] e by simp
  with e show "post = rest" by simp
qed simp

lemma sint_bounds_u64: "- (2 ^ 63) \<le> sint (v :: i64)" "sint (v :: i64) < 2 ^ 63"
  using sint_range_size [of v] by (simp_all add: word_size)

lemma zigzag_uint: "uint (zigzag v) = (if 0 \<le> sint v then 2 * sint v else - (2 * sint v) - 1)"
proof -
  have b: "bit v 63 \<longleftrightarrow> sint v < 0" using bit_last_iff [of v] by simp
  have s: "signed_drop_bit 63 v = (if bit v 63 then - 1 else 0)"
    by (rule bit_word_eqI) (auto simp: bit_signed_drop_bit_iff not_less_eq_eq)
  have dbl: "push_bit 1 v = word_of_int (2 * sint v)"
    by (simp add: push_bit_eq_mult)
  show ?thesis
  proof (cases "0 \<le> sint v")
    case True
    then have "zigzag v = word_of_int (2 * sint v)" using b s dbl by (simp add: zigzag_def)
    then have "uint (zigzag v) = (2 * sint v) mod 2 ^ LENGTH(64)" by (simp only: uint_word_of_int)
    then show ?thesis using True sint_bounds_u64 [of v] by simp
  next
    case False
    then have "zigzag v = NOT (push_bit 1 v)" using b s by (simp add: zigzag_def)
    also have "\<dots> = word_of_int (- (2 * sint v) - 1)" unfolding dbl by (simp add: not_eq_complement)
    finally have "uint (zigzag v) = (- (2 * sint v) - 1) mod 2 ^ LENGTH(64)" by (simp only: uint_word_of_int)
    then show ?thesis using False sint_bounds_u64 [of v] by simp
  qed
qed

text \<open>
  Zigzag is a bijection between the signed and the unsigned 64-bit integers, and takes those
  near zero of either sign to small ones, alternately: 0, -1, 1, -2 to 0, 1, 2, 3.
\<close>

theorem zigzag_bijective:
  "uint (zigzag v) = (if 0 \<le> sint v then 2 * sint v else - (2 * sint v) - 1)
   \<and> unzigzag (zigzag v) = v \<and> zigzag (unzigzag u) = u"
  by (simp add: zigzag_uint)

end
