(* ===== verification/Fenec_Half.thy ===== *)
theory Fenec_Half
  imports Fenec_Std
begin

unbundle bit_operations_syntax

text \<open>
  Half precision (\<open>codec.rs\<close>, \<open>f16_from_f32\<close> and \<open>f32_from_f16\<close>): a \<open>vector<N, f16>\<close> field's
  elements are stored as IEEE binary16 and read back as \<open>f32\<close>, by the exact conversion or, where a
  query measures them, by \<open>half\<close> of \<open>vector.rs\<close>. Both are their bit patterns.
\<close>

section \<open>The conversions\<close>

definition round_up :: "u32 \<Rightarrow> u32 \<Rightarrow> u16 \<Rightarrow> bool" where
  "round_up rem half h \<longleftrightarrow> half < rem \<or> (rem = half \<and> h AND 1 = 1)"

definition f16_from_f32 :: "f32 \<Rightarrow> u16" where
  "f16_from_f32 x =
     (let sign = ucast (drop_bit 16 x AND 0x8000) :: u16;
          raw_exp = int (unat (drop_bit 23 x AND 0xff));
          mant = x AND 0x007fffff
      in if raw_exp = 0xff then sign OR 0x7c00 OR (if mant \<noteq> 0 then 0x0200 else 0)
         else let exp = raw_exp - 127 + 15 in
         if 0x1f \<le> exp then sign OR 0x7c00
         else if exp \<le> 0 then
           (if exp < -10 then sign
            else let m = mant OR 0x00800000;
                     shift = nat (14 - exp);
                     h = ucast (drop_bit shift m) :: u16;
                     rem = m AND (push_bit shift 1 - 1);
                     half = push_bit (shift - 1) 1
                 in sign OR (if round_up rem half h then h + 1 else h))
         else let h = push_bit 10 (word_of_int exp) OR ucast (drop_bit 13 mant) :: u16;
                  rem = mant AND 0x1fff
              in sign OR (if round_up rem 0x1000 h then h + 1 else h))"

text \<open>\<open>31 - mant.leading_zeros()\<close> of a number above zero is the place of its highest bit.\<close>

definition msb_of :: "u32 \<Rightarrow> nat" where
  "msb_of m = bit_len (unat m) - 1"

definition f32_from_f16 :: "u16 \<Rightarrow> f32" where
  "f32_from_f16 h =
     (let sign = push_bit 16 (ucast (h AND 0x8000) :: u32);
          exp = ucast (drop_bit 10 h AND 0x1f) :: u32;
          mant = ucast (h AND 0x03ff) :: u32
      in if exp = 0 then
           (if mant = 0 then sign
            else let msb = msb_of mant; e = int msb - 24
                 in sign OR push_bit 23 (word_of_int (e + 127))
                      OR (push_bit (23 - msb) mant AND 0x007fffff))
         else if exp = 0x1f then sign OR 0x7f800000 OR push_bit 13 mant
         else sign OR push_bit 23 (exp + 127 - 15) OR push_bit 13 mant)"

text \<open>
  \<open>vector::half\<close> shifts the bits into an \<open>f32\<close> and multiplies by \<open>2 ^ 112\<close>, which scales the
  exponent and normalises a subnormal. \<open>f32_times_pow2 k\<close> is the product with \<open>2 ^ k\<close>, exact or
  an infinity: a NaN made quiet, a zero kept, a subnormal shifted until its top bit is the
  implicit one or its exponent runs out.
\<close>

definition f32_times_pow2 :: "nat \<Rightarrow> f32 \<Rightarrow> f32" where
  "f32_times_pow2 k x =
     (let sign = x AND 0x80000000;
          exp = drop_bit 23 x AND 0xff;
          mant = x AND 0x007fffff
      in if exp = 0xff then (if mant = 0 then x else x OR 0x00400000)
         else if exp = 0 \<and> mant = 0 then x
         else if exp = 0 then
           (let e = int (msb_of mant) - 22 + int k in
            if e \<le> 0 then sign OR push_bit k mant
            else if 0xff \<le> e then sign OR 0x7f800000
            else sign OR push_bit 23 (word_of_int e) OR (push_bit (23 - msb_of mant) mant AND 0x007fffff))
         else if 0xff \<le> unat exp + k then sign OR 0x7f800000
         else sign OR push_bit 23 (exp + word_of_nat k) OR mant)"

definition half :: "u16 \<Rightarrow> f32" where
  "half x = f32_times_pow2 112
     (push_bit 16 (ucast (x AND 0x8000)) OR push_bit 13 (ucast (x AND 0x7fff)))"

definition f16_is_nan :: "u16 \<Rightarrow> bool" where
  "f16_is_nan h \<longleftrightarrow> drop_bit 10 h AND 0x1f = 0x1f \<and> h AND 0x03ff \<noteq> 0"

section \<open>Their bits\<close>

lemma masks:
  "(0x7fff :: u16) = mask 15" "(0x03ff :: u16) = mask 10" "(0x1f :: u16) = mask 5" "(0xff :: u32) = mask 8"
  "(0x007fffff :: u32) = mask 23"
  by (simp_all add: mask_eq_exp_minus_1)

lemma bit_sign:
  "bit (0x8000 :: u16) n \<longleftrightarrow> n = 15" "bit (0x8000 :: u32) n \<longleftrightarrow> n = 15" "bit (0x80000000 :: u32) n \<longleftrightarrow> n = 31"
proof -
  have "(0x8000 :: u16) = push_bit 15 1" "(0x8000 :: u32) = push_bit 15 1" "(0x80000000 :: u32) = push_bit 31 1"
    by (simp_all add: push_bit_eq_mult)
  then show "bit (0x8000 :: u16) n \<longleftrightarrow> n = 15" "bit (0x8000 :: u32) n \<longleftrightarrow> n = 15" "bit (0x80000000 :: u32) n \<longleftrightarrow> n = 31"
    by (auto simp only: bit_push_bit_iff bit_1_iff) auto
qed

lemmas half_bits = bit_and_iff bit_or_iff bit_mask_iff bit_push_bit_iff bit_drop_bit_eq bit_unsigned_iff bit_sign o_apply

lemma bit_x800000: "bit (0x00800000 :: u32) n \<longleftrightarrow> n = 23"
proof -
  have "(0x00800000 :: u32) = push_bit 23 1" by (simp add: push_bit_eq_mult)
  then show ?thesis by (auto simp only: bit_push_bit_iff bit_1_iff) auto
qed

lemma half_parts:
  fixes h :: u16
  defines "u \<equiv> push_bit 16 (ucast (h AND 0x8000)) OR push_bit 13 (ucast (h AND 0x7fff)) :: u32"
  shows "u AND 0x80000000 = push_bit 16 (ucast (h AND 0x8000))" (is ?s)
    "drop_bit 23 u AND 0xff = ucast (drop_bit 10 h AND 0x1f)" (is ?e)
    "u AND 0x007fffff = push_bit 13 (ucast (h AND 0x03ff))" (is ?m)
  unfolding u_def masks
  by (rule bit_word_eqI, simp only: half_bits, simp, arith?)+

lemma f32_split: "x = x AND 0x80000000 OR push_bit 23 (drop_bit 23 x AND 0xff) OR (x AND 0x007fffff)" for x :: f32
proof (rule bit_word_eqI)
  fix n assume "n < LENGTH(32)"
  then have "n < 23 \<or> (23 \<le> n \<and> n < 31) \<or> n = 31" by auto
  then show "bit x n = bit (x AND 0x80000000 OR push_bit 23 (drop_bit 23 x AND 0xff) OR (x AND 0x007fffff)) n"
    unfolding masks by (elim disjE; simp only: half_bits; auto)
qed

lemma bit_len_shift: "n \<noteq> 0 \<Longrightarrow> bit_len (n * 2 ^ k) = bit_len n + k"
  by (induction k) (auto simp: bit_len.simps [of "n * (2 * _)"])

lemma msb_of_push:
  assumes "m \<noteq> 0" "unat m < 2 ^ 10"
  shows "msb_of (push_bit 13 m) = msb_of m + 13" "msb_of m < 10"
proof -
  have "unat (push_bit 13 m) = unat m * 2 ^ 13"
    using assms(2) by (simp add: push_bit_eq_mult unat_word_ariths)
  with bit_len_shift [of "unat m" 13] assms(1)
  have "bit_len (unat (push_bit 13 m)) = bit_len (unat m) + 13" by (simp add: unat_eq_0)
  moreover have "bit_len (unat m) \<noteq> 0" using assms(1) by (simp add: bit_len.simps unat_eq_0)
  moreover have "bit_len (unat m) \<le> 10" using assms(2) by (simp add: bit_len_le_iff)
  ultimately show "msb_of (push_bit 13 m) = msb_of m + 13" "msb_of m < 10"
    by (simp_all add: msb_of_def)
qed

lemma half_widens:
  assumes "drop_bit 10 h AND 0x1f \<noteq> 0x1f"
  shows "half h = f32_from_f16 h"
proof -
  define s :: u32 where "s = push_bit 16 (ucast (h AND 0x8000))"
  define e :: u16 where "e = drop_bit 10 h AND 0x1f"
  define m :: u32 where "m = ucast (h AND 0x03ff)"
  define u :: u32 where "u = push_bit 16 (ucast (h AND 0x8000)) OR push_bit 13 (ucast (h AND 0x7fff))"
  have parts: "u AND 0x80000000 = s" "drop_bit 23 u AND 0xff = ucast e" "u AND 0x007fffff = push_bit 13 m"
    using half_parts [of h] by (simp_all add: s_def e_def m_def u_def)
  have "e \<le> 0x1f" unfolding e_def by (rule word_and_le1)
  moreover have "unat e \<noteq> unat (0x1f :: u16)" using assms unfolding e_def by (metis unsigned_word_eqI)
  ultimately have e: "unat e < 31" by (simp add: word_le_nat_alt)
  then have ue: "unat (ucast e :: u32) = unat e" by (simp add: unsigned_ucast_eq take_bit_nat_eq_self_iff)
  have "h AND 0x03ff \<le> 0x03ff" by (rule word_and_le1)
  then have m: "unat m < 2 ^ 10" by (simp add: m_def word_le_nat_alt unsigned_ucast_eq take_bit_eq_mod)
  then have m0: "push_bit 13 m = 0 \<longleftrightarrow> m = 0"
    by (simp add: push_bit_eq_mult unat_word_ariths flip: unat_eq_0)
  have ne: "(ucast e :: u32) \<noteq> 0xff" "(ucast e :: u32) \<noteq> 0x1f"
    using e ue by auto
  have f: "f32_from_f16 h = (if ucast e = (0 :: u32) then if m = 0 then s
      else s OR push_bit 23 (word_of_int (int (msb_of m) - 24 + 127)) OR (push_bit (23 - msb_of m) m AND 0x007fffff)
      else s OR push_bit 23 (ucast e + 127 - 15) OR push_bit 13 m)"
    using ne(2) by (simp add: f32_from_f16_def s_def m_def e_def Let_def)
  show ?thesis
  proof (cases "ucast e = (0 :: u32)")
    case True
    show ?thesis
    proof (cases "m = 0")
      case True': True
      have "u = s OR push_bit 23 (ucast e) OR push_bit 13 m" using f32_split [of u] parts by simp
      with True True' have "u = s" by simp
      with True True' parts m0 f show ?thesis
        by (simp add: half_def f32_times_pow2_def flip: u_def)
    next
      case False
      note b = msb_of_push [OF False m]
      have "push_bit (23 - (msb_of m + 13)) (push_bit 13 m) = push_bit (23 - msb_of m) m"
        using b(2) by (simp add: push_bit_push_bit)
      with True False parts m0 f b show ?thesis
        by (simp add: half_def f32_times_pow2_def Let_def flip: u_def)
    qed
  next
    case False
    have "unat (ucast e :: u32) + 112 < 255" using e ue by simp
    with False ne parts f show ?thesis
      by (simp add: half_def f32_times_pow2_def Let_def add.commute flip: u_def)
  qed
qed

lemma f16_split: "h = h AND 0x8000 OR push_bit 10 (drop_bit 10 h AND 0x1f) OR (h AND 0x03ff)" for h :: u16
proof (rule bit_word_eqI)
  fix n assume "n < LENGTH(16)"
  then have "n < 10 \<or> (10 \<le> n \<and> n < 15) \<or> n = 15" by auto
  then show "bit h n = bit (h AND 0x8000 OR push_bit 10 (drop_bit 10 h AND 0x1f) OR (h AND 0x03ff)) n"
    unfolding masks by (elim disjE; simp only: half_bits; auto)
qed

text \<open>The three parts of a float put together and taken apart.\<close>

lemma bit_below: "unat (w :: 'a::len word) < 2 ^ k \<Longrightarrow> bit w n \<Longrightarrow> n < k"
  using bit_take_bit_iff [of k "unat w" n] take_bit_nat_eq_self_iff [of k "unat w"]
  by (auto simp: bit_unsigned_iff bit_imp_le_length)

lemma f32_parts:
  fixes h :: u16 and e m :: u32
  assumes "unat e < 2 ^ 8" "unat m < 2 ^ 23"
  defines "x \<equiv> push_bit 16 (ucast (h AND 0x8000)) OR push_bit 23 e OR m"
  shows "(ucast (drop_bit 16 x AND 0x8000) :: u16) = h AND 0x8000" (is ?s)
    "drop_bit 23 x AND 0xff = e" (is ?e) "x AND 0x007fffff = m" (is ?m)
proof -
  note B = bit_below [OF assms(1)] bit_below [OF assms(2)]
  show ?s unfolding x_def masks
    by (rule bit_word_eqI, simp only: half_bits, simp) (auto dest: B)
  show ?e unfolding x_def masks
    by (rule bit_word_eqI, simp only: half_bits, simp) (auto dest: B)
  show ?m unfolding x_def masks
    by (rule bit_word_eqI, simp only: half_bits, simp) (auto dest: B)
qed


lemma exp_of_normal:
  "112 < q \<Longrightarrow> q < 143
     \<Longrightarrow> q < 2 ^ 8 \<and> int q \<noteq> 0xff \<and> \<not> 0x1f \<le> int q - 127 + 15 \<and> \<not> int q - 127 + 15 \<le> 0"
  by auto

lemma exp_of_small:
  "102 < q \<Longrightarrow> q \<le> 112
     \<Longrightarrow> q < 2 ^ 8 \<and> int q \<noteq> 0xff \<and> \<not> 0x1f \<le> int q - 127 + 15 \<and> int q - 127 + 15 \<le> 0
       \<and> \<not> int q - 127 + 15 < - 10"
  by auto

lemma f16_of_inf:
  fixes h :: u16 and m :: u32
  assumes "unat m < 2 ^ 23"
  shows "f16_from_f32 (push_bit 16 (ucast (h AND 0x8000)) OR push_bit 23 0xff OR m)
     = h AND 0x8000 OR 0x7c00 OR (if m \<noteq> 0 then 0x0200 else 0)"
proof -
  have "unat (0xff :: u32) < 2 ^ 8" by simp
  note P = f32_parts [OF this assms]
  show ?thesis unfolding f16_from_f32_def P Let_def by simp
qed

lemma f16_of_zero:
  fixes h :: u16
  shows "f16_from_f32 (push_bit 16 (ucast (h AND 0x8000)) OR push_bit 23 0 OR 0) = h AND 0x8000"
proof -
  have "unat (0 :: u32) < 2 ^ 8" "unat (0 :: u32) < 2 ^ 23" by simp_all
  note P = f32_parts [OF this]
  show ?thesis unfolding f16_from_f32_def P Let_def by simp
qed

lemma f16_of_normal:
  fixes h :: u16 and e m :: u32
  assumes "112 < unat e" "unat e < 143" "unat m < 2 ^ 23" "m AND 0x1fff = 0"
  shows "f16_from_f32 (push_bit 16 (ucast (h AND 0x8000)) OR push_bit 23 e OR m)
     = h AND 0x8000 OR (push_bit 10 (word_of_nat (unat e - 112)) OR ucast (drop_bit 13 m))"
proof -
  note e = exp_of_normal [OF assms(1,2)]
  have "int (unat e) - 127 + 15 = int (unat e - 112)" using assms(1) by linarith
  then have w: "word_of_int (int (unat e) - 127 + 15) = (word_of_nat (unat e - 112) :: u16)" by (simp only: of_int_of_nat_eq)
  show ?thesis
    unfolding f16_from_f32_def f32_parts [OF e [THEN conjunct1] assms(3)] Let_def assms(4) w
    using e by (simp only: if_False) (simp add: round_up_def)
qed

lemma f16_of_small:
  fixes h :: u16 and e m :: u32
  assumes "102 < unat e" "unat e \<le> 112" "unat m < 2 ^ 23" "m OR 0x00800000 = push_bit (126 - unat e) k" "unat k < 2 ^ (unat e - 102)"
  shows "f16_from_f32 (push_bit 16 (ucast (h AND 0x8000)) OR push_bit 23 e OR m) = h AND 0x8000 OR ucast k"
proof -
  let ?n = "126 - unat e"
  note e = exp_of_small [OF assms(1,2)]
  have s: "nat (14 - (int (unat e) - 127 + 15)) = ?n" using assms(1,2) by linarith
  have "push_bit ?n 1 - 1 = (mask ?n :: u32)" by (simp add: mask_eq_exp_minus_1 push_bit_of_1)
  then have "push_bit ?n k AND (push_bit ?n 1 - 1) = 0"
    by (intro bit_word_eqI) (auto simp: bit_simps)
  moreover have "drop_bit ?n (push_bit ?n k) = k"
    using assms(1) by (intro bit_word_eqI) (auto simp: bit_simps dest: bit_below [OF assms(5)])
  moreover have "bit (push_bit (?n - 1) 1 :: u32) (?n - 1)" using assms(1) by (simp add: bit_simps)
  then have "push_bit (?n - 1) 1 \<noteq> (0 :: u32)" by (metis bit_0_eq bot_apply bot_bool_def)
  ultimately show ?thesis
    unfolding f16_from_f32_def f32_parts [OF e [THEN conjunct1] assms(3)] Let_def assms(4) s
    using e by (simp only: if_False if_True) (simp add: round_up_def)
qed

lemma msb_of_bits:
  assumes "m \<noteq> 0"
  shows "bit m (msb_of m)" "bit m n \<Longrightarrow> n \<le> msb_of m" "unat m < 2 ^ Suc (msb_of m)"
proof -
  have b: "bit_len (unat m) \<noteq> 0" using assms by (simp add: bit_len.simps unat_eq_0)
  have lt: "unat m < 2 ^ Suc (msb_of m)" using b bit_len_le_iff [of "unat m" "Suc (msb_of m)"] by (simp add: msb_of_def)
  have ge: "2 ^ msb_of m \<le> unat m" using b bit_len_le_iff [of "unat m" "msb_of m"] by (simp add: msb_of_def not_less [symmetric])
  show "unat m < 2 ^ Suc (msb_of m)" by (rule lt)
  show "bit m n \<Longrightarrow> n \<le> msb_of m" using bit_below [OF lt] by fastforce
  have "unat m div 2 ^ msb_of m = 1"
    using lt ge by (metis div_nat_eqI mult.commute mult_1 mult_2 power_Suc Suc_1 mult_Suc_right one_add_one)
  then have "bit (unat m) (msb_of m)" by (simp add: bit_iff_odd)
  then show "bit m (msb_of m)" by (simp add: bit_unsigned_iff)
qed

lemma f16_roundtrip:
  assumes "\<not> f16_is_nan h"
  shows "f16_from_f32 (f32_from_f16 h) = h"
proof -
  define e :: u16 where "e = drop_bit 10 h AND 0x1f"
  define m :: u32 where "m = ucast (h AND 0x03ff)"
  have "h AND 0x03ff \<le> 0x03ff" "e \<le> 0x1f" unfolding e_def by (rule word_and_le1)+
  then have m: "unat m < 2 ^ 10" and e: "unat e \<le> 31"
    by (simp_all add: m_def word_le_nat_alt unsigned_ucast_eq take_bit_eq_mod)
  have um: "ucast m = h AND 0x03ff" by (intro bit_word_eqI) (simp add: m_def bit_unsigned_iff)
  have split: "h = h AND 0x8000 OR push_bit 10 e OR ucast m" using f16_split [of h] um by (simp add: e_def)
  have e31: "unat e = 31 \<Longrightarrow> e = 0x1f" by (rule unsigned_word_eqI [where 'a = nat]) simp
  let ?s = "push_bit 16 (ucast (h AND 0x8000)) :: u32"
  consider "e = 0x1f" | "e = 0" "m = 0" | "e = 0" "m \<noteq> 0" | "e \<noteq> 0" "unat e < 31"
    using e e31 by fastforce
  then show ?thesis
  proof cases
    case 1
    with assms have "h AND 0x03ff = 0" by (simp add: f16_is_nan_def e_def)
    then have "m = 0" "h = h AND 0x8000 OR 0x7c00" using split 1 by (simp_all add: m_def)
    moreover have "f32_from_f16 h = ?s OR push_bit 23 0xff OR 0"
      using 1 \<open>m = 0\<close> by (simp add: f32_from_f16_def Let_def flip: e_def m_def)
    ultimately show ?thesis using f16_of_inf [of 0 h] by simp
  next
    case 2
    then have "f32_from_f16 h = ?s" by (simp add: f32_from_f16_def Let_def flip: e_def m_def)
    then have "f32_from_f16 h = ?s OR push_bit 23 0 OR 0" by simp
    with split 2 show ?thesis using f16_of_zero [of h] by simp
  next
    case 3
    define b where "b = msb_of m"
    have b: "bit m b" "b < 10" "unat m < 2 ^ Suc b" "bit m n \<Longrightarrow> n \<le> b" for n
      using msb_of_bits [OF 3(2)] msb_of_push(2) [OF 3(2) m] by (auto simp: b_def)
    define x where "x = push_bit (23 - b) m AND 0x007fffff"
    have f: "f32_from_f16 h = ?s OR push_bit 23 (word_of_nat (b + 103)) OR x"
    proof -
      have "int b - 24 + 127 = int (b + 103)" by simp
      then have "word_of_int (int b - 24 + 127) = (word_of_nat (b + 103) :: u32)" by (simp only: of_int_of_nat_eq)
      then show ?thesis using 3 unfolding f32_from_f16_def Let_def x_def b_def by (simp add: add.commute flip: e_def m_def)
    qed
    have u: "unat (word_of_nat (b + 103) :: u32) = b + 103" using b(2) by (intro unat_of_nat_u32) simp
    have "x \<le> 0x007fffff" unfolding x_def by (rule word_and_le1)
    then have x: "unat x < 2 ^ 23" by (simp add: word_le_nat_alt)
    have "x OR 0x00800000 = push_bit (23 - b) m"
    proof (rule bit_word_eqI)
      fix n assume "n < LENGTH(32)"
      then consider "n < 23" | "n = 23" | "23 < n" by linarith
      then show "bit (x OR 0x00800000) n = bit (push_bit (23 - b) m) n"
        using b(1,2) b(4) [of "n - (23 - b)"] \<open>n < LENGTH(32)\<close> unfolding x_def masks
        by cases (simp_all only: half_bits bit_x800000, auto)
    qed
    then have "x OR 0x00800000 = push_bit (126 - unat (word_of_nat (b + 103) :: u32)) m" using u by simp
    from f16_of_small [OF _ _ x this] u b(2,3) f split 3 show ?thesis by simp
  next
    case 4
    define e' :: u32 where "e' = word_of_nat (unat e + 112)"
    have u: "unat e' = unat e + 112" using 4(2) unfolding e'_def by (intro unat_of_nat_u32) simp
    have "(ucast e :: u32) + 127 - 15 = e'" by (simp add: e'_def)
    moreover have "(ucast e :: u32) \<noteq> 0" "(ucast e :: u32) \<noteq> 0x1f"
      using 4 e'_def u by (auto simp: unat_eq_0)
    ultimately have f: "f32_from_f16 h = ?s OR push_bit 23 e' OR push_bit 13 m"
      unfolding f32_from_f16_def Let_def by (simp flip: e_def m_def)
    have "unat (push_bit 13 m) < 2 ^ 23" using m by (simp add: push_bit_eq_mult unat_word_ariths)
    moreover have "push_bit 13 m AND mask 13 = 0" by (intro bit_word_eqI) (auto simp: bit_simps)
    then have "push_bit 13 m AND 0x1fff = 0" by (simp add: mask_eq_exp_minus_1)
    moreover have "drop_bit 13 (push_bit 13 m) = m"
      by (intro bit_word_eqI) (auto simp: bit_simps dest: bit_below [OF m])
    ultimately have "unat (push_bit 13 m) < 2 ^ 23" "push_bit 13 m AND 0x1fff = 0" "drop_bit 13 (push_bit 13 m) = m" by blast+
    from f16_of_normal [OF _ _ this(1,2), of e' h] this(3) u 4 f split show ?thesis
      by (simp add: unat_gt_0)
  qed
qed

section \<open>Properties\<close>

text \<open>
  C26: a half that is a number or an infinity is stored again as it was read: narrowing its
  widening gives the half back, so rewriting a document never moves its vectors. On the finite
  halves the widening by one multiplication that the vector reads use is the exact one.
\<close>

theorem halves_stable:
  assumes "\<not> f16_is_nan h"
  shows "f16_from_f32 (f32_from_f16 h) = h
     \<and> (half h = f32_from_f16 h \<or> drop_bit 10 h AND 0x1f = 0x1f)"
  using f16_roundtrip [OF assms] half_widens by blast

theorem halves_stable_witness:
  "f16_from_f32 (f32_from_f16 0x8001) = 0x8001
     \<and> (half 0x8001 = f32_from_f16 0x8001 \<or> drop_bit 10 (0x8001 :: u16) AND 0x1f = 0x1f)"
proof (rule halves_stable)
  show "\<not> f16_is_nan 0x8001" by code_simp
qed

end
