(* ===== verification/Fenec_Value.thy ===== *)
theory Fenec_Value
  imports Fenec_Std "HOL-Library.Multiset"
begin

text \<open>
  The data model (\<open>fenec-core/src/value.rs\<close>): the types a field may have, the values it
  holds, objects with their members ascending by key, and the paths that read and set
  inside one. Floats are their bit patterns, text its UTF-8 bytes.
\<close>

section \<open>Types and values\<close>

type_synonym docid = nat

datatype vec_prec = F32 | F16

datatype data_type =
    TBool
  | TInt
  | TFloat
  | TText
  | TBytes
  | TTimestamp
  | TVector usize vec_prec
  | TSparse usize
  | TList data_type
  | TJson
  | TGeo

datatype val =
    VNull
  | VBool bool
  | VInt i64
  | VFloat f64
  | VText bytes
  | VBytes bytes
  | VTimestamp i64
  | VVector "f32 list"
  | VList "val list"
  | VSparse u32 "(u32 \<times> f32) list"
  | VObject "(bytes \<times> val) list"

definition max_json_depth :: nat where
  "max_json_depth = 64"

text \<open>The bytes of a message's text and back.\<close>

definition str_of :: "bytes \<Rightarrow> string" where
  "str_of bs = map (\<lambda>b. char_of (unat b)) bs"

definition bytes_of :: "string \<Rightarrow> bytes" where
  "bytes_of s = map (\<lambda>c. word_of_nat (of_char c)) s"

fun type_name :: "val \<Rightarrow> string" where
  "type_name VNull = ''null''"
| "type_name (VBool _) = ''bool''"
| "type_name (VInt _) = ''int''"
| "type_name (VFloat _) = ''float''"
| "type_name (VText _) = ''text''"
| "type_name (VBytes _) = ''bytes''"
| "type_name (VTimestamp _) = ''timestamp''"
| "type_name (VVector _) = ''vector''"
| "type_name (VList _) = ''list''"
| "type_name (VSparse _ _) = ''sparse''"
| "type_name (VObject _) = ''object''"

fun keeps_numbers :: "data_type \<Rightarrow> bool" where
  "keeps_numbers TJson = True"
| "keeps_numbers TGeo = True"
| "keeps_numbers (TList t) = keeps_numbers t"
| "keeps_numbers _ = False"

fun is_null :: "val \<Rightarrow> bool" where
  "is_null VNull = True"
| "is_null _ = False"

section \<open>Objects\<close>

definition e_twice :: "bytes \<Rightarrow> error" where
  "e_twice k = Type_error (''key `'' @ str_of k @ ''` was given twice'')"

text \<open>\<open>members.windows(2).find(..)\<close>: the first key next to its equal.\<close>

fun adjacent_twice :: "(bytes \<times> 'v) list \<Rightarrow> bytes option" where
  "adjacent_twice (a # b # rest) =
     (if fst a = fst b then Some (fst a) else adjacent_twice (b # rest))"
| "adjacent_twice _ = None"

text \<open>
  \<open>Value::object\<close>, natively by the library's stable sort. The browser module's build of it
  inserts each member where a binary search puts it.
\<close>

definition object_native :: "(bytes \<times> val) list \<Rightarrow> val result" where
  "object_native members =
     (let sorted = sort_key fst members in
      case adjacent_twice sorted of
        Some k \<Rightarrow> Err (e_twice k)
      | None \<Rightarrow> Ok (VObject sorted))"

definition insert_at :: "nat \<Rightarrow> 'a \<Rightarrow> 'a list \<Rightarrow> 'a list" where
  "insert_at i x xs = take i xs @ x # drop i xs"

fun object_wasm_loop :: "(bytes \<times> val) list \<Rightarrow> (bytes \<times> val) list \<Rightarrow> val result" where
  "object_wasm_loop out [] = Ok (VObject out)"
| "object_wasm_loop out (m # ms) =
     (case binary_search_by (\<lambda>p. cmp (fst p) (fst m)) out of
        Inl _ \<Rightarrow> Err (e_twice (fst m))
      | Inr i \<Rightarrow> object_wasm_loop (insert_at i m out) ms)"

definition object_wasm :: "(bytes \<times> val) list \<Rightarrow> val result" where
  "object_wasm members = object_wasm_loop [] members"

fun member :: "val \<Rightarrow> bytes \<Rightarrow> val option" where
  "member (VObject m) key =
     (case binary_search_by (\<lambda>p. cmp (fst p) key) m of
        Inl i \<Rightarrow> Some (snd (m ! i))
      | Inr _ \<Rightarrow> None)"
| "member _ key = None"

section \<open>Paths\<close>

definition dot :: u8 where
  "dot = 46"

fun at_keys :: "val \<Rightarrow> bytes list \<Rightarrow> val" where
  "at_keys v [] = v"
| "at_keys v (k # ks) =
     (case member v k of
        Some x \<Rightarrow> at_keys x ks
      | None \<Rightarrow> VNull)"

definition at_path :: "val \<Rightarrow> bytes \<Rightarrow> val" where
  "at_path v keys = at_keys v (split_on dot keys)"

definition e_no_object :: "bytes \<Rightarrow> nat \<Rightarrow> val \<Rightarrow> error" where
  "e_no_object path walked v =
     Type_error (''`'' @ str_of (take walked path) @ ''` holds '' @ type_name v @
       '', not an object: `'' @ str_of path @ ''` cannot be set in it'')"

text \<open>
  \<open>Value::set_path\<close> changes the value in place, so the model returns the value as it is left
  with what the call returns, an error's too.
\<close>

definition find_or_insert :: "(bytes \<times> val) list \<Rightarrow> bytes \<Rightarrow> (bytes \<times> val) list \<times> nat" where
  "find_or_insert m k =
     (case binary_search_by (\<lambda>p. cmp (fst p) k) m of
        Inl at \<Rightarrow> (m, at)
      | Inr at \<Rightarrow> (insert_at at (k, VNull) m, at))"

fun set_path_loop :: "bytes \<Rightarrow> nat \<Rightarrow> val \<Rightarrow> bytes list \<Rightarrow> val \<Rightarrow> val \<times> unit result" where
  "set_path_loop path walked v [] value = (value, Ok ())"
| "set_path_loop path walked v (k # ks) value =
     (let v = (if is_null v then VObject [] else v) in
      case v of
        VObject m \<Rightarrow>
          (let walked = walked + length k + 1;
               (m, at) = find_or_insert m k;
               (sub, r) = set_path_loop path walked (snd (m ! at)) ks value
           in (VObject (m[at := (fst (m ! at), sub)]), r))
      | _ \<Rightarrow> (v, Err (e_no_object path walked v)))"

definition set_path :: "val \<Rightarrow> bytes \<Rightarrow> bytes \<Rightarrow> val \<Rightarrow> val \<times> unit result" where
  "set_path self field keys value =
     set_path_loop (field @ dot # keys) (length field) self (split_on dot keys) value"

section \<open>Well-formed values\<close>

text \<open>
  What Rust's types and \<open>Value::object\<close> guarantee of a value: text is UTF-8, no allocation
  passes \<open>isize::MAX\<close> bytes, and an object's keys ascend, none twice.
\<close>

definition keys_ascend :: "(bytes \<times> 'v) list \<Rightarrow> bool" where
  "keys_ascend m \<longleftrightarrow> sorted_wrt (<) (map fst m)"

fun wf_val :: "val \<Rightarrow> bool" where
  "wf_val (VText s) \<longleftrightarrow> from_utf8 s \<and> length s < 2 ^ 63"
| "wf_val (VBytes b) \<longleftrightarrow> length b < 2 ^ 63"
| "wf_val (VVector v) \<longleftrightarrow> length v * 4 < 2 ^ 63"
| "wf_val (VList vs) \<longleftrightarrow> length vs < 2 ^ 63 \<and> (\<forall>v\<in>set vs. wf_val v)"
| "wf_val (VSparse d es) \<longleftrightarrow> length es * 8 < 2 ^ 63"
| "wf_val (VObject m) \<longleftrightarrow> length m < 2 ^ 63 \<and>
     (\<forall>p\<in>set m. from_utf8 (fst p) \<and> length (fst p) < 2 ^ 63 \<and> wf_val (snd p))"
| "wf_val _ = True"

fun objects_sorted :: "val \<Rightarrow> bool" where
  "objects_sorted (VList vs) \<longleftrightarrow> (\<forall>v\<in>set vs. objects_sorted v)"
| "objects_sorted (VObject m) \<longleftrightarrow> keys_ascend m \<and> (\<forall>p\<in>set m. objects_sorted (snd p))"
| "objects_sorted _ = True"

subsection \<open>Ascending keys\<close>

lemma keys_ascend_sorted: "keys_ascend m \<Longrightarrow> sorted (map fst m)"
  unfolding keys_ascend_def by (rule strict_sorted_imp_sorted)

lemma keys_ascend_distinct: "keys_ascend m \<Longrightarrow> distinct (map fst m)"
  unfolding keys_ascend_def by (metis strict_sorted_iff)

lemma keys_ascend_search: "keys_ascend m \<Longrightarrow> search_sorted (\<lambda>p. cmp (fst p) k) m"
  by (intro search_sorted_key keys_ascend_sorted)

lemma search_found:
  assumes "keys_ascend m" "binary_search_by (\<lambda>p. cmp (fst p) k) m = Inl i"
  shows "i < length m" "fst (m ! i) = k" "map_of m k = Some (snd (m ! i))"
proof -
  note found = binary_search_by_found [OF keys_ascend_search [OF assms(1)] assms(2)]
  then show "i < length m" "fst (m ! i) = k" by auto
  then show "map_of m k = Some (snd (m ! i))"
    using keys_ascend_distinct [OF assms(1)]
    by (metis map_of_eq_Some_iff nth_mem prod.collapse)
qed

lemma search_absent:
  assumes "keys_ascend m" "binary_search_by (\<lambda>p. cmp (fst p) k) m = Inr i"
  shows "i \<le> length m" "k \<notin> fst ` set m" "\<forall>p\<in>set (take i m). fst p < k"
    "\<forall>p\<in>set (drop i m). k < fst p"
proof -
  note s = keys_ascend_search [OF assms(1)]
  note place = binary_search_by_place [OF s assms(2)]
  show "i \<le> length m" using place by simp
  show "k \<notin> fst ` set m" using binary_search_by_absent [OF s assms(2)] by auto
  show "\<forall>p\<in>set (take i m). fst p < k"
    using place by (force simp: in_set_conv_nth)
  show "\<forall>p\<in>set (drop i m). k < fst p"
  proof
    fix p assume "p \<in> set (drop i m)"
    then obtain j where "j < length m - i" "p = m ! (i + j)"
      by (auto simp: in_set_conv_nth)
    with place show "k < fst p" by auto
  qed
qed

lemma member_map_of: "keys_ascend m \<Longrightarrow> member (VObject m) k = map_of m k"
  using search_found [of m k] search_absent [of m k]
  by (auto split: sum.splits simp: map_of_eq_None_iff [THEN iffD2])

lemma keys_ascend_insert:
  assumes "keys_ascend m" "binary_search_by (\<lambda>p. cmp (fst p) k) m = Inr i"
  shows "keys_ascend (insert_at i (k, v) m)"
proof -
  have "map fst m = map fst (take i m) @ map fst (drop i m)"
    by (metis append_take_drop_id map_append)
  with assms(1) have "sorted_wrt (<) (map fst (take i m) @ map fst (drop i m))"
    by (simp add: keys_ascend_def)
  with search_absent(3,4) [OF assms] show ?thesis
    by (auto simp: keys_ascend_def insert_at_def sorted_wrt_append)
qed

lemma set_insert_at: "set (insert_at i x m) = insert x (set m)"
  by (metis append_take_drop_id insert_at_def list.set(2) set_append Un_insert_right)

lemma nth_insert_at: "i \<le> length m \<Longrightarrow> insert_at i x m ! i = x"
  by (simp add: insert_at_def nth_append)

lemma length_insert_at [simp]: "length (insert_at i x m) = Suc (length m)"
  by (simp add: insert_at_def)

lemma insort_insert_at:
  assumes "keys_ascend m" "binary_search_by (\<lambda>p. cmp (fst p) (fst x)) m = Inr i"
  shows "insert_at i x m = insort_key fst x m"
proof -
  note a = search_absent [OF assms]
  have "insort_key fst x (take i m @ drop i m) = take i m @ x # drop i m"
    using a(3,4)
  proof (induction "take i m" arbitrary: i m)
    case Nil
    then show ?case by (cases m) (auto simp: less_imp_le)
  next
    case (Cons y ys)
    then obtain m' i' where "m = y # m'" "i = Suc i'" by (cases m; cases i) auto
    with Cons.hyps(1) [of i' m'] Cons.hyps(2) Cons.prems show ?case by auto
  qed
  then show ?thesis by (simp add: insert_at_def)
qed

lemma keys_ascend_unique:
  assumes "keys_ascend xs" "keys_ascend ys" "set xs = set ys"
  shows "xs = ys"
proof (rule map_sorted_distinct_set_unique [of fst])
  show "inj_on fst (set xs \<union> set ys)"
    using assms keys_ascend_distinct [OF assms(1)] by (simp add: distinct_map)
qed (use assms in \<open>simp_all add: keys_ascend_sorted keys_ascend_distinct\<close>)

lemma keys_ascend_iff: "keys_ascend m \<longleftrightarrow> sorted (map fst m) \<and> distinct (map fst m)"
  unfolding keys_ascend_def by (auto simp: strict_sorted_iff)

subsection \<open>Both builds of an object agree\<close>

lemma adjacent_twice_None:
  "sorted (map fst m) \<Longrightarrow> adjacent_twice m = None \<longleftrightarrow> distinct (map fst m)"
proof (induction m rule: adjacent_twice.induct)
  case (1 a b rest)
  then show ?case by (auto simp: image_iff order_antisym)
qed auto

lemma distinct_sort_keys [simp]:
  "distinct (map fst (sort_key fst ms)) \<longleftrightarrow> distinct (map fst ms)"
  by (rule mset_eq_imp_distinct_iff) simp

lemma object_native_Ok_iff:
  "object_native ms = Ok v \<longleftrightarrow> distinct (map fst ms) \<and> v = VObject (sort_key fst ms)"
  using adjacent_twice_None [of "sort_key fst ms"]
  by (auto simp: object_native_def Let_def split: option.splits)

lemma object_wasm_loop_Ok_iff:
  assumes "keys_ascend out"
  shows "object_wasm_loop out ms = Ok v
     \<longleftrightarrow> distinct (map fst (out @ ms)) \<and> v = VObject (sort_key fst (out @ ms))"
  using assms
proof (induction ms arbitrary: out)
  case Nil
  moreover have "sort_key fst out = out"
    using keys_ascend_sorted [OF Nil] by (rule sort_key_id_if_sorted)
  ultimately show ?case
    using keys_ascend_distinct [OF Nil] by auto
next
  case (Cons x ms)
  show ?case
  proof (cases "binary_search_by (\<lambda>p. cmp (fst p) (fst x)) out")
    case (Inl i)
    with search_found [OF Cons.prems Inl] have "fst x \<in> fst ` set out"
      by (metis image_eqI nth_mem)
    with Inl show ?thesis by auto
  next
    case (Inr i)
    let ?out = "insert_at i x out"
    have asc: "keys_ascend ?out" using keys_ascend_insert [OF Cons.prems Inr, of "snd x"] by simp
    have keys: "distinct (map fst (?out @ ms)) \<longleftrightarrow> distinct (map fst (out @ x # ms))"
      using keys_ascend_distinct [OF asc] keys_ascend_distinct [OF Cons.prems] search_absent(2) [OF Cons.prems Inr]
      by (auto simp: set_insert_at)
    have "sort_key fst (?out @ ms) = sort_key fst (out @ x # ms)" if "distinct (map fst (out @ x # ms))"
    proof (rule keys_ascend_unique)
      have sd: "keys_ascend (sort_key fst zs)" if "distinct (map fst zs)" for zs :: "(bytes \<times> val) list"
        using that by (simp add: keys_ascend_iff)
      show "keys_ascend (sort_key fst (?out @ ms))" using that keys by (intro sd) simp
      show "keys_ascend (sort_key fst (out @ x # ms))" using that by (intro sd)
    qed (auto simp: set_insert_at)
    with Inr Cons.IH [OF asc] keys show ?thesis by auto
  qed
qed

subsection \<open>Reading and setting a path\<close>

lemma find_or_insert_spec:
  assumes asc: "keys_ascend m" and f: "find_or_insert m k = (m', i)"
  shows "keys_ascend m'" "i < length m'" "fst (m' ! i) = k"
    "snd (m' ! i) = (case map_of m k of Some x \<Rightarrow> x | None \<Rightarrow> VNull)"
    "set m \<subseteq> set m'" "set m' \<subseteq> insert (k, snd (m' ! i)) (set m)"
    "map_of m k = None \<longleftrightarrow> m' \<noteq> m"
proof -
  consider (found) "binary_search_by (\<lambda>p. cmp (fst p) k) m = Inl i" "m' = m"
    | (absent) "binary_search_by (\<lambda>p. cmp (fst p) k) m = Inr i" "m' = insert_at i (k, VNull) m"
    using f by (auto simp: find_or_insert_def split: sum.splits)
  note cases = this
  have all: "keys_ascend m' \<and> i < length m' \<and> fst (m' ! i) = k
      \<and> snd (m' ! i) = (case map_of m k of Some x \<Rightarrow> x | None \<Rightarrow> VNull)
      \<and> set m \<subseteq> set m' \<and> set m' \<subseteq> insert (k, snd (m' ! i)) (set m)
      \<and> (map_of m k = None \<longleftrightarrow> m' \<noteq> m)"
    using cases
  proof cases
    case found
    with search_found [OF asc found(1)] asc show ?thesis by auto
  next
    case absent
    note a = search_absent [OF asc absent(1)]
    have "map_of m k = None" using a(2) by (simp add: map_of_eq_None_iff)
    moreover have "m' \<noteq> m" using absent(2) by (metis length_insert_at n_not_Suc_n)
    ultimately show ?thesis
      using a(1) absent keys_ascend_insert [OF asc absent(1)]
      by (auto simp: set_insert_at nth_insert_at)
  qed
  then show "keys_ascend m'" "i < length m'" "fst (m' ! i) = k"
    "snd (m' ! i) = (case map_of m k of Some x \<Rightarrow> x | None \<Rightarrow> VNull)"
    "set m \<subseteq> set m'" "set m' \<subseteq> insert (k, snd (m' ! i)) (set m)"
    "map_of m k = None \<longleftrightarrow> m' \<noteq> m" by auto
qed

lemma update_member:
  assumes "keys_ascend m" "i < length m"
  shows "keys_ascend (m[i := (fst (m ! i), sub)])"
    "map_of (m[i := (fst (m ! i), sub)]) = (map_of m)(fst (m ! i) \<mapsto> sub)"
proof -
  have keys: "map fst (m[i := (fst (m ! i), sub)]) = map fst m"
    using assms(2) by (simp add: map_update list_update_same_conv)
  then show asc: "keys_ascend (m[i := (fst (m ! i), sub)])"
    using assms(1) by (simp add: keys_ascend_def)
  have d: "distinct (map fst m)" by (rule keys_ascend_distinct [OF assms(1)])
  show "map_of (m[i := (fst (m ! i), sub)]) = (map_of m)(fst (m ! i) \<mapsto> sub)"
    using d assms(2)
  proof (induction m arbitrary: i)
    case Nil
    then show ?case by simp
  next
    case (Cons p m)
    show ?case
    proof (cases i)
      case 0
      then show ?thesis by (cases p) (auto simp: fun_eq_iff)
    next
      case (Suc j)
      with Cons.prems have "fst p \<noteq> fst (m ! j)"
        by (metis distinct.simps(2) length_map list.map(2) nth_map nth_mem Suc_less_eq length_Cons)
      with Cons Suc show ?thesis by (cases p) (auto simp: fun_upd_twist)
    qed
  qed
qed

text \<open>A path set below \<open>null\<close> makes its objects, and nothing on its way can refuse.\<close>

lemma set_path_loop_null: "snd (set_path_loop path w VNull ks x) = Ok ()"
proof (induction ks arbitrary: w)
  case Nil
  then show ?case by simp
next
  case (Cons k ks)
  have "find_or_insert [] k = ([(k, VNull)], 0)"
    by (simp add: find_or_insert_def binary_search_by_def insert_at_def)
  with Cons [of "w + length k + 1"] show ?case by (auto simp: Let_def split: prod.splits)
qed

text \<open>
  One turn of the loop, once the value is an object: the member found or made is set in,
  and every other member stays.
\<close>

lemma set_path_loop_object:
  assumes v: "v = VObject m \<or> v = VNull \<and> m = []"
    and f: "find_or_insert m k = (m', i)"
  shows "set_path_loop path w v (k # ks) x =
     (let (sub, r) = set_path_loop path (w + length k + 1) (snd (m' ! i)) ks x
      in (VObject (m'[i := (fst (m' ! i), sub)]), r))"
  using v f by (auto simp: Let_def)

lemma set_path_loop_other:
  assumes "v \<noteq> VNull" "\<And>m. v \<noteq> VObject m"
  shows "set_path_loop path w v (k # ks) x = (v, Err (e_no_object path w v))"
  using assms by (cases v) (auto simp: Let_def)

declare set_path_loop.simps(2) [simp del]

lemma set_path_loop_error:
  assumes "snd (set_path_loop path w v ks x) \<noteq> Ok ()" "objects_sorted v"
  shows "fst (set_path_loop path w v ks x) = v"
  using assms
proof (induction ks arbitrary: w v)
  case Nil
  then show ?case by simp
next
  case (Cons k ks)
  show ?case
  proof (cases "\<exists>m. v = VObject m")
    case True
    then obtain m where m: "v = VObject m" by blast
    obtain m' i where f: "find_or_insert m k = (m', i)" by fastforce
    have asc: "keys_ascend m" using Cons.prems(2) m by simp
    note spec = find_or_insert_spec [OF asc f]
    obtain sub r where sr: "set_path_loop path (w + length k + 1) (snd (m' ! i)) ks x = (sub, r)"
      by fastforce
    note step = set_path_loop_object [of v m k m' i path w ks x, OF disjI1 [OF m] f, unfolded sr]
    have "map_of m k \<noteq> None"
      using Cons.prems(1) spec(4) sr step set_path_loop_null [of path "w + length k + 1" ks x]
      by (cases "map_of m k") auto
    then have "m' = m" using spec(7) by simp
    with spec(2) Cons.prems(2) m have "objects_sorted (snd (m' ! i))" by auto
    with Cons.IH [of "w + length k + 1" "snd (m' ! i)"] Cons.prems(1) sr step
    have "sub = snd (m' ! i)" by auto
    with step m \<open>m' = m\<close> show ?thesis by simp
  next
    case False
    with Cons.prems(1) set_path_loop_null set_path_loop_other show ?thesis
      by (metis fst_conv)
  qed
qed

lemma found_member_sorted:
  assumes "\<forall>p\<in>set m. objects_sorted (snd p)"
    and "x = (case map_of m k of Some y \<Rightarrow> y | None \<Rightarrow> VNull)"
  shows "objects_sorted x"
  using assms by (cases "map_of m k") (auto dest!: map_of_SomeD)

lemma set_path_loop_sets:
  assumes "snd (set_path_loop path w v ks x) = Ok ()" "objects_sorted v" "objects_sorted x"
  shows "objects_sorted (fst (set_path_loop path w v ks x))
     \<and> at_keys (fst (set_path_loop path w v ks x)) ks = x"
  using assms
proof (induction ks arbitrary: w v)
  case Nil
  then show ?case by simp
next
  case (Cons k ks)
  then obtain m where v: "v = VObject m \<or> v = VNull \<and> m = []"
    by (metis set_path_loop_other result.distinct(1) snd_conv)
  obtain m' i where f: "find_or_insert m k = (m', i)" by fastforce
  have asc: "keys_ascend m" using Cons.prems(2) v by (auto simp: keys_ascend_def)
  note spec = find_or_insert_spec [OF asc f]
  have below: "\<forall>p\<in>set m. objects_sorted (snd p)"
    using Cons.prems(2) v by (cases "v = VNull") simp_all
  then have o: "objects_sorted (snd (m' ! i))"
    using spec(4) by (rule found_member_sorted)
  obtain sub r where sr: "set_path_loop path (w + length k + 1) (snd (m' ! i)) ks x = (sub, r)"
    by fastforce
  note step = set_path_loop_object [of v m k m' i path w ks x, OF v f, unfolded sr]
  have "objects_sorted sub" "at_keys sub ks = x"
    using Cons.IH [of "w + length k + 1" "snd (m' ! i)"] Cons.prems(1,3) o sr step by auto
  moreover have "\<forall>p\<in>set (m'[i := (fst (m' ! i), sub)]). objects_sorted (snd p)"
    using spec(6) below o \<open>objects_sorted sub\<close> set_update_subset_insert [of m' i "(fst (m' ! i), sub)"]
    by fastforce
  ultimately show ?case
    using step spec(3) update_member [OF spec(1,2), of sub] by (auto simp: member_map_of simp del: member.simps)
qed

lemma set_path_loop_frame:
  assumes "objects_sorted v" "\<not> prefix ks js" "\<not> prefix js ks"
  shows "at_keys (fst (set_path_loop path w v ks x)) js = at_keys v js"
  using assms
proof (induction ks arbitrary: w v js)
  case Nil
  then show ?case by simp
next
  case (Cons k ks)
  show ?case
  proof (cases "v = VNull \<or> (\<exists>m. v = VObject m)")
    case False
    then show ?thesis using set_path_loop_other [of v] by (metis fst_conv)
  next
    case True
    then obtain m where v: "v = VObject m \<or> v = VNull \<and> m = []" by blast
    obtain m' i where f: "find_or_insert m k = (m', i)" by fastforce
    have asc: "keys_ascend m" using Cons.prems(1) v by (auto simp: keys_ascend_def)
    note spec = find_or_insert_spec [OF asc f]
    obtain sub r where sr: "set_path_loop path (w + length k + 1) (snd (m' ! i)) ks x = (sub, r)"
      by fastforce
    note step = set_path_loop_object [of v m k m' i path w ks x, OF v f, unfolded sr]
    obtain j js' where js: "js = j # js'" using Cons.prems(3) by (cases js) auto
    have old: "member v j = map_of m j" for j
      using v member_map_of [OF asc] by auto
    have new: "member (fst (set_path_loop path w v (k # ks) x)) j = ((map_of m')(k \<mapsto> sub)) j" for j
      using step spec(3) update_member [OF spec(1,2), of sub] by (simp add: member_map_of del: member.simps)
    show ?thesis
    proof (cases "j = k")
      case False
      have "map_of m' j = Some y \<longleftrightarrow> map_of m j = Some y" for y
        using spec(5,6) False keys_ascend_distinct [OF asc] keys_ascend_distinct [OF spec(1)]
        by (auto simp: map_of_eq_Some_iff)
      then have "map_of m' j = map_of m j" by (metis not_None_eq)
      with False js old new show ?thesis by simp
    next
      case True
      have "\<forall>p\<in>set m. objects_sorted (snd p)"
        using Cons.prems(1) v by (cases "v = VNull") simp_all
      then have o: "objects_sorted (snd (m' ! i))"
        using spec(4) by (rule found_member_sorted)
      have "at_keys sub js' = at_keys (snd (m' ! i)) js'"
        using Cons.IH [OF o, of js' "w + length k + 1"] Cons.prems(2,3) js True sr by simp
      moreover have "at_keys VNull js' = VNull" by (cases js') auto
      ultimately show ?thesis
        using True js old new spec(4) by (auto split: option.splits)
    qed
  qed
qed

section \<open>Properties\<close>

text \<open>
  The two builds of an object agree: natively sorted and in the browser inserted one at a
  time, both succeed exactly when no key is given twice, with the same object, whose members
  ascend and are those given.
\<close>

lemma object_builds_agree:
  "(object_native ms = Ok v \<longleftrightarrow> object_wasm ms = Ok v)
   \<and> (object_native ms = Ok v \<longleftrightarrow>
        distinct (map fst ms) \<and> (\<exists>m. v = VObject m \<and> keys_ascend m \<and> mset m = mset ms))"
proof -
  have e: "keys_ascend []" by (simp add: keys_ascend_def)
  have "m = sort_key fst ms" if "keys_ascend m" "mset m = mset ms" "distinct (map fst ms)" for m
    using that by (intro keys_ascend_unique) (auto simp: keys_ascend_iff simp flip: set_mset_mset)
  then show ?thesis
    unfolding object_wasm_def object_wasm_loop_Ok_iff [OF e] object_native_Ok_iff
    by (auto simp: keys_ascend_iff)
qed

text \<open>
  C38: setting a path. When it is set, the value is what is read there and every object keeps its
  keys in order; when a value on its way is not an object, nothing has changed, whatever objects
  the walk might have made; and either way any other path -- one neither above nor below it --
  reads as it did.
\<close>

theorem set_path_correct:
  assumes "objects_sorted self" "objects_sorted x" "set_path self field keys x = (v, r)"
  shows "(if r = Ok () then at_path v keys = x \<and> objects_sorted v else v = self)
     \<and> (\<forall>other. \<not> prefix (split_on dot keys) (split_on dot other) \<longrightarrow> \<not> prefix (split_on dot other) (split_on dot keys)
       \<longrightarrow> at_path v other = at_path self other)"
proof (intro conjI allI impI)
  show "if r = Ok () then at_path v keys = x \<and> objects_sorted v else v = self"
    using set_path_loop_sets [of "field @ dot # keys" "length field" self "split_on dot keys" x]
      set_path_loop_error [of "field @ dot # keys" "length field" self "split_on dot keys" x] assms
    by (cases r) (auto simp: set_path_def at_path_def)
  fix other
  assume "\<not> prefix (split_on dot keys) (split_on dot other)" "\<not> prefix (split_on dot other) (split_on dot keys)"
  then show "at_path v other = at_path self other"
    using set_path_loop_frame [OF assms(1)] assms(3) by (simp add: set_path_def at_path_def) (metis fst_conv)
qed

definition demo_object :: val where
  "demo_object = VObject [([0x61], VInt 1), ([0x62], VText [0x78])]"

lemma demo_object_sorted: "objects_sorted demo_object"
  by (simp add: demo_object_def keys_ascend_def)

theorem set_path_correct_witness:
  "set_path demo_object [0x6d] [0x62, 0x2e, 0x63] VNull
     = (demo_object, Err (Type_error (''`m.b` holds text, not an object: `m.b.c` cannot be set in it'')))
   \<and> at_path (fst (set_path demo_object [0x6d] [0x61] (VBool True))) [0x61] = VBool True
   \<and> at_path (fst (set_path demo_object [0x6d] [0x61] (VBool True))) [0x62] = at_path demo_object [0x62]"
proof -
  have d: "\<not> prefix (split_on dot [0x61]) (split_on dot [0x62])" "\<not> prefix (split_on dot [0x62]) (split_on dot [0x61])"
    by (simp_all add: dot_def)
  have r: "set_path demo_object [0x6d] [0x61] (VBool True) = (VObject [([0x61], VBool True), ([0x62], VText [0x78])], Ok ())"
    "set_path demo_object [0x6d] [0x62, 0x2e, 0x63] VNull
       = (demo_object, Err (Type_error (''`m.b` holds text, not an object: `m.b.c` cannot be set in it'')))"
    by code_simp+
  note c = set_path_correct [OF demo_object_sorted _ r(1)]
  show ?thesis using c d r by simp
qed

end
