(* ===== verification/Fenec_Codec.thy ===== *)
theory Fenec_Codec
  imports Fenec_Varint Fenec_Half Fenec_Value
begin

unbundle bit_operations_syntax

text \<open>
  The binary codec (\<open>fenec-core/src/codec.rs\<close>): the tags, the encoding of a value and of a
  type, and the readers. \<open>decode_value\<close> calls itself for the items of a list and the members
  of an object; its body is \<open>decode_step\<close>, open in that call, and the recursion is closed by
  a bound on its depth, one level more than the buffer has bytes. Each level reads a tag of
  its own, so the bound is never met: \<open>decode_value_unfold\<close> is the source's recursion with
  no bound in it. \<open>skip\<close> is treated the same way.
\<close>

named_theorems tag_defs
named_theorems enc_simps

section \<open>Tags\<close>

definition tag_null :: u8 where [tag_defs]: "tag_null = 0"
definition tag_bool :: u8 where [tag_defs]: "tag_bool = 1"
definition tag_int :: u8 where [tag_defs]: "tag_int = 2"
definition tag_float :: u8 where [tag_defs]: "tag_float = 3"
definition tag_text :: u8 where [tag_defs]: "tag_text = 4"
definition tag_bytes :: u8 where [tag_defs]: "tag_bytes = 5"
definition tag_vector :: u8 where [tag_defs]: "tag_vector = 6"
definition tag_list :: u8 where [tag_defs]: "tag_list = 7"
definition tag_vector_f16 :: u8 where [tag_defs]: "tag_vector_f16 = 8"
definition tag_timestamp :: u8 where [tag_defs]: "tag_timestamp = 9"
definition tag_sparse :: u8 where [tag_defs]: "tag_sparse = 10"
definition tag_collated :: u8 where [tag_defs]: "tag_collated = 11"
definition tag_dropped :: u8 where [tag_defs]: "tag_dropped = 12"
definition tag_object :: u8 where [tag_defs]: "tag_object = 13"
definition tag_json :: u8 where [tag_defs]: "tag_json = 14"
definition tag_geo :: u8 where [tag_defs]: "tag_geo = 15"
definition tag_composites :: u8 where [tag_defs]: "tag_composites = 16"
definition tag_nocase :: u8 where [tag_defs]: "tag_nocase = 17"

section \<open>Encoding\<close>

definition put_len :: "'a list \<Rightarrow> bytes" where
  "put_len xs = put_uvarint (word_of_nat (length xs))"

definition encode_str :: "bytes \<Rightarrow> bytes" where
  "encode_str s = put_len s @ s"

text \<open>The indices of a sparse vector, each the distance from the one before, wrapping.\<close>

fun sparse_gaps :: "u32 \<Rightarrow> (u32 \<times> f32) list \<Rightarrow> bytes" where
  "sparse_gaps prev [] = []"
| "sparse_gaps prev (e # es) = put_uvarint (ucast (fst e - prev)) @ sparse_gaps (fst e) es"

fun encode_value :: "val \<Rightarrow> bytes" where
  "encode_value VNull = [tag_null]"
| "encode_value (VBool b) = [tag_bool, if b then 1 else 0]"
| "encode_value (VInt i) = tag_int # put_uvarint (zigzag i)"
| "encode_value (VTimestamp ms) = tag_timestamp # put_uvarint (zigzag ms)"
| "encode_value (VFloat f) = tag_float # le_bytes 8 f"
| "encode_value (VText s) = tag_text # put_len s @ s"
| "encode_value (VBytes b) = tag_bytes # put_len b @ b"
| "encode_value (VVector v) = tag_vector # put_len v @ concat (map (le_bytes 4) v)"
| "encode_value (VList items) = tag_list # put_len items @ concat (map encode_value items)"
| "encode_value (VObject ms) = tag_object # put_len ms @
     concat (map (\<lambda>p. encode_str (fst p) @ encode_value (snd p)) ms)"
| "encode_value (VSparse dim es) = tag_sparse # put_uvarint (ucast dim) @ put_len es @
     sparse_gaps 0 es @ concat (map (\<lambda>e. le_bytes 4 (snd e)) es)"

text \<open>A field's value by its type: a half-precision vector halved, a point as its two floats.\<close>

fun as_point :: "val list \<Rightarrow> (f64 \<times> f64) option" where
  "as_point [VFloat lon, VFloat lat] = Some (lon, lat)"
| "as_point _ = None"

definition encode_value_as :: "val \<Rightarrow> data_type option \<Rightarrow> bytes" where
  "encode_value_as v ty =
     (case v of
        VVector vals \<Rightarrow>
          (case ty of
             Some (TVector d F16) \<Rightarrow>
               tag_vector_f16 # put_len vals @ concat (map (\<lambda>f. le_bytes 2 (f16_from_f32 f)) vals)
           | _ \<Rightarrow> encode_value v)
      | VList p \<Rightarrow>
          (case ty of
             Some TGeo \<Rightarrow>
               (case as_point p of
                  Some (lon, lat) \<Rightarrow> tag_geo # le_bytes 8 lon @ le_bytes 8 lat
                | None \<Rightarrow> encode_value v)
           | _ \<Rightarrow> encode_value v)
      | _ \<Rightarrow> encode_value v)"

definition geo_value :: "f64 \<times> f64 \<Rightarrow> val" where
  "geo_value p = VList [VFloat (fst p), VFloat (snd p)]"

text \<open>\<open>f + 0.0\<close>: the negative zero becomes zero, a signalling NaN quiet, all else stays.\<close>

definition f64_add_zero :: "f64 \<Rightarrow> f64" where
  "f64_add_zero f =
     (if f = 0x8000000000000000 then 0
      else if drop_bit 52 f AND 0x7ff = 0x7ff \<and> f AND 0xfffffffffffff \<noteq> 0
      then f OR 0x8000000000000
      else f)"

fun encode_key :: "val \<Rightarrow> bytes" where
  "encode_key (VFloat f) = tag_float # le_bytes 8 (f64_add_zero f)"
| "encode_key v = encode_value v"

fun encode_type :: "data_type \<Rightarrow> bytes" where
  "encode_type TBool = [tag_bool]"
| "encode_type TInt = [tag_int]"
| "encode_type TFloat = [tag_float]"
| "encode_type TText = [tag_text]"
| "encode_type TBytes = [tag_bytes]"
| "encode_type TTimestamp = [tag_timestamp]"
| "encode_type (TVector d prec) =
     (case prec of F32 \<Rightarrow> tag_vector | F16 \<Rightarrow> tag_vector_f16) # put_uvarint (word_of_nat d)"
| "encode_type (TList inner) = tag_list # encode_type inner"
| "encode_type (TSparse d) = tag_sparse # put_uvarint (word_of_nat d)"
| "encode_type TJson = [tag_json]"
| "encode_type TGeo = [tag_geo]"

section \<open>Decoding\<close>

fun show_nat :: "nat \<Rightarrow> string" where
  "show_nat n = (if n < 10 then [char_of (48 + n)] else show_nat (n div 10) @ [char_of (48 + n mod 10)])"

declare show_nat.simps [simp del]

definition e_len_overflow :: error where
  "e_len_overflow = Corrupt ''length overflow''"

definition e_short :: "usize \<Rightarrow> usize \<Rightarrow> error" where
  "e_short n left = Corrupt (show_nat n @ '' bytes requested, '' @ show_nat left @ '' left'')"

definition e_missing_tag :: error where
  "e_missing_tag = Corrupt ''missing value tag''"

definition e_missing_bool :: error where
  "e_missing_bool = Corrupt ''missing bool''"

definition e_utf8 :: error where
  "e_utf8 = Corrupt ''invalid utf8''"

definition e_value_tag :: "u8 \<Rightarrow> error" where
  "e_value_tag t = Corrupt (''unknown value tag '' @ show_nat (unat t))"

definition e_missing_type :: error where
  "e_missing_type = Corrupt ''missing type tag''"

definition e_type_tag :: "u8 \<Rightarrow> error" where
  "e_type_tag t = Corrupt (''unknown type tag '' @ show_nat (unat t))"

definition take_bytes :: "bytes \<Rightarrow> usize \<Rightarrow> usize \<Rightarrow> (bytes \<times> usize) result" where
  "take_bytes buf pos n =
     (if 2 ^ 64 \<le> pos + n then Err e_len_overflow
      else if length buf < pos + n then Err (e_short n (length buf - pos))
      else Ok (take n (drop pos buf), pos + n))"

text \<open>\<open>Vec::with_capacity\<close> panics where the allocation would pass \<open>isize::MAX\<close> bytes.\<close>

definition with_capacity :: "usize \<Rightarrow> usize \<Rightarrow> unit result" where
  "with_capacity n elem = (if isize_max < n * elem then Panic else Ok ())"

definition f32s :: "bytes \<Rightarrow> f32 list" where
  "f32s raw = map of_le_bytes (chunks 4 raw)"

definition f16s :: "bytes \<Rightarrow> f32 list" where
  "f16s raw = map (\<lambda>c. f32_from_f16 (of_le_bytes c)) (chunks 2 raw)"

definition geo_at :: "bytes \<Rightarrow> f64 \<times> f64" where
  "geo_at raw = (let words = chunks 8 raw in (of_le_bytes (words ! 0), of_le_bytes (words ! 1)))"

text \<open>A length and that many bytes of text: \<open>decode_str\<close>, \<open>text_at\<close> and \<open>TAG_TEXT\<close>'s arm.\<close>

definition decode_str :: "bytes \<Rightarrow> usize \<Rightarrow> (bytes \<times> usize) result" where
  "decode_str buf pos =
     and_then (get_usize buf pos) (\<lambda>(n, pos).
     and_then (take_bytes buf pos n) (\<lambda>(raw, pos).
       if from_utf8 raw then Ok (raw, pos) else Err e_utf8))"

text \<open>\<open>decode_text_into\<close>: the text the slot held gives way to the one read.\<close>

definition decode_text_into :: "bytes \<Rightarrow> usize \<Rightarrow> bytes \<Rightarrow> bytes \<times> usize result" where
  "decode_text_into buf pos s =
     (case get_usize buf pos of
        Ok (n, pos) \<Rightarrow>
          (case take_bytes buf pos n of
             Ok (raw, pos) \<Rightarrow> (if from_utf8 raw then (raw, Ok pos) else ([], Err e_utf8))
           | Err e \<Rightarrow> (s, Err e)
           | Panic \<Rightarrow> (s, Panic))
      | Err e \<Rightarrow> (s, Err e)
      | Panic \<Rightarrow> (s, Panic))"

fun decode_indices :: "bytes \<Rightarrow> nat \<Rightarrow> usize \<Rightarrow> u32 \<Rightarrow> (u32 list \<times> usize) result" where
  "decode_indices buf 0 pos at = Ok ([], pos)"
| "decode_indices buf (Suc n) pos at =
     and_then (get_uvarint buf pos) (\<lambda>(gap, pos).
       let at = at + ucast gap in
       and_then (decode_indices buf n pos at) (\<lambda>(is, pos). Ok (at # is, pos)))"

text \<open>\<open>entries.iter_mut().zip(..)\<close>: an entry with no weight left for it keeps its 0.\<close>

fun set_weights :: "u32 list \<Rightarrow> bytes list \<Rightarrow> (u32 \<times> f32) list" where
  "set_weights (i # is) (w # ws) = (i, of_le_bytes w) # set_weights is ws"
| "set_weights is ws = map (\<lambda>i. (i, 0)) is"

definition decode_sparse :: "bytes \<Rightarrow> usize \<Rightarrow> (val \<times> usize) result" where
  "decode_sparse buf pos =
     and_then (get_uvarint buf pos) (\<lambda>(dim, pos).
     and_then (get_usize buf pos) (\<lambda>(n, pos).
     and_then (decode_indices buf n pos 0) (\<lambda>(entries, pos).
     and_then (take_bytes buf pos (usize_mul n 4)) (\<lambda>(raw, pos).
       Ok (VSparse (ucast dim) (set_weights entries (chunks 4 raw)), pos)))))"

definition decode_step :: "(usize \<Rightarrow> (val \<times> usize) result) \<Rightarrow> bytes \<Rightarrow> usize \<Rightarrow> (val \<times> usize) result" where
  "decode_step rec buf pos =
     and_then (ok_or e_missing_tag (get_byte buf pos)) (\<lambda>tag.
       let pos = pos + 1 in
       if tag = tag_null then Ok (VNull, pos)
       else if tag = tag_bool then
         and_then (ok_or e_missing_bool (get_byte buf pos)) (\<lambda>b. Ok (VBool (b \<noteq> 0), pos + 1))
       else if tag = tag_int then
         and_then (get_uvarint buf pos) (\<lambda>(v, pos). Ok (VInt (unzigzag v), pos))
       else if tag = tag_timestamp then
         and_then (get_uvarint buf pos) (\<lambda>(v, pos). Ok (VTimestamp (unzigzag v), pos))
       else if tag = tag_float then
         and_then (take_bytes buf pos 8) (\<lambda>(raw, pos). Ok (VFloat (of_le_bytes (chunks 8 raw ! 0)), pos))
       else if tag = tag_geo then
         and_then (take_bytes buf pos 16) (\<lambda>(raw, pos). Ok (geo_value (geo_at raw), pos))
       else if tag = tag_text then
         and_then (decode_str buf pos) (\<lambda>(s, pos). Ok (VText s, pos))
       else if tag = tag_bytes then
         and_then (get_usize buf pos) (\<lambda>(n, pos).
         and_then (take_bytes buf pos n) (\<lambda>(raw, pos). Ok (VBytes raw, pos)))
       else if tag = tag_vector then
         and_then (get_usize buf pos) (\<lambda>(n, pos).
         and_then (take_bytes buf pos (usize_mul n 4)) (\<lambda>(raw, pos). Ok (VVector (f32s raw), pos)))
       else if tag = tag_vector_f16 then
         and_then (get_usize buf pos) (\<lambda>(n, pos).
         and_then (take_bytes buf pos (usize_mul n 2)) (\<lambda>(raw, pos).
         and_then (with_capacity n 4) (\<lambda>_. Ok (VVector (f16s raw), pos))))
       else if tag = tag_list then
         and_then (get_usize buf pos) (\<lambda>(n, pos).
         and_then (many rec n pos) (\<lambda>(items, pos). Ok (VList items, pos)))
       else if tag = tag_object then
         and_then (get_usize buf pos) (\<lambda>(n, pos).
         and_then (many (\<lambda>pos. and_then (decode_str buf pos) (\<lambda>(k, pos).
                           and_then (rec pos) (\<lambda>(v, pos). Ok ((k, v), pos)))) n pos)
           (\<lambda>(members, pos). Ok (VObject members, pos)))
       else if tag = tag_sparse then decode_sparse buf pos
       else Err (e_value_tag tag))"

fun decode_value_n :: "nat \<Rightarrow> bytes \<Rightarrow> usize \<Rightarrow> (val \<times> usize) result" where
  "decode_value_n 0 buf pos = Panic"
| "decode_value_n (Suc depth) buf pos = decode_step (decode_value_n depth buf) buf pos"

definition decode_value :: "bytes \<Rightarrow> usize \<Rightarrow> (val \<times> usize) result" where
  "decode_value buf pos = decode_value_n (Suc (length buf)) buf pos"

fun decode_type_n :: "nat \<Rightarrow> bytes \<Rightarrow> usize \<Rightarrow> (data_type \<times> usize) result" where
  "decode_type_n 0 buf pos = Panic"
| "decode_type_n (Suc depth) buf pos =
     and_then (ok_or e_missing_type (get_byte buf pos)) (\<lambda>tag.
       let pos = pos + 1 in
       if tag = tag_bool then Ok (TBool, pos)
       else if tag = tag_int then Ok (TInt, pos)
       else if tag = tag_float then Ok (TFloat, pos)
       else if tag = tag_text then Ok (TText, pos)
       else if tag = tag_bytes then Ok (TBytes, pos)
       else if tag = tag_timestamp then Ok (TTimestamp, pos)
       else if tag = tag_vector then and_then (get_usize buf pos) (\<lambda>(d, pos). Ok (TVector d F32, pos))
       else if tag = tag_vector_f16 then and_then (get_usize buf pos) (\<lambda>(d, pos). Ok (TVector d F16, pos))
       else if tag = tag_list then
         and_then (decode_type_n depth buf pos) (\<lambda>(t, pos). Ok (TList t, pos))
       else if tag = tag_sparse then and_then (get_usize buf pos) (\<lambda>(d, pos). Ok (TSparse d, pos))
       else if tag = tag_json then Ok (TJson, pos)
       else if tag = tag_geo then Ok (TGeo, pos)
       else Err (e_type_tag tag))"

definition decode_type :: "bytes \<Rightarrow> usize \<Rightarrow> (data_type \<times> usize) result" where
  "decode_type buf pos = decode_type_n (Suc (length buf)) buf pos"

section \<open>Skipping\<close>

definition skip_step :: "bool \<Rightarrow> (usize \<Rightarrow> usize result) \<Rightarrow> bytes \<Rightarrow> usize \<Rightarrow> usize result" where
  "skip_step field rec buf pos =
     (case get_byte buf pos of
        None \<Rightarrow> if field then Ok pos else Err e_missing_tag
      | Some tag \<Rightarrow>
         (let pos = pos + 1;
              again = (\<lambda>p. map_ok (\<lambda>q. ((), q)) (rec p)) in
          if tag = tag_null then Ok pos
          else if tag = tag_bool then Ok (pos + 1)
          else if tag = tag_int \<or> tag = tag_timestamp then map_ok snd (get_uvarint buf pos)
          else if tag = tag_float then map_ok snd (take_bytes buf pos 8)
          else if tag = tag_geo then map_ok snd (take_bytes buf pos 16)
          else if tag = tag_text \<or> tag = tag_bytes then
            and_then (get_usize buf pos) (\<lambda>(n, pos). map_ok snd (take_bytes buf pos n))
          else if tag = tag_vector then
            and_then (get_usize buf pos) (\<lambda>(n, pos). map_ok snd (take_bytes buf pos (usize_mul n 4)))
          else if tag = tag_vector_f16 then
            and_then (get_usize buf pos) (\<lambda>(n, pos). map_ok snd (take_bytes buf pos (usize_mul n 2)))
          else if tag = tag_list then
            and_then (get_usize buf pos) (\<lambda>(n, pos). map_ok snd (many again n pos))
          else if tag = tag_object then
            and_then (get_usize buf pos) (\<lambda>(n, pos).
              map_ok snd (many (\<lambda>pos. and_then (get_usize buf pos) (\<lambda>(k, pos).
                                  and_then (take_bytes buf pos k) (\<lambda>(_, pos). again pos))) n pos))
          else if tag = tag_sparse then
            and_then (get_uvarint buf pos) (\<lambda>(_, pos).
            and_then (get_usize buf pos) (\<lambda>(n, pos).
            and_then (many (get_uvarint buf) n pos) (\<lambda>(_, pos).
              map_ok snd (take_bytes buf pos (usize_mul n 4)))))
          else Err (e_value_tag tag)))"

fun skip_n :: "nat \<Rightarrow> bool \<Rightarrow> bytes \<Rightarrow> usize \<Rightarrow> usize result" where
  "skip_n 0 field buf pos = Panic"
| "skip_n (Suc depth) field buf pos = skip_step field (skip_n depth False buf) buf pos"

definition skip_value :: "bytes \<Rightarrow> usize \<Rightarrow> usize result" where
  "skip_value buf pos = skip_n (Suc (length buf)) False buf pos"

definition skip_field :: "bytes \<Rightarrow> usize \<Rightarrow> usize result" where
  "skip_field buf pos = skip_n (Suc (length buf)) True buf pos"

section \<open>Paths\<close>

text \<open>
  The members of an object passed over until the key: they ascend, so a key past it ends
  the search. Found, the position is its value's.
\<close>

primrec seek_key :: "bytes \<Rightarrow> bytes \<Rightarrow> nat \<Rightarrow> usize \<Rightarrow> (bool \<times> usize) result" where
  "seek_key buf k 0 at = Ok (False, at)"
| "seek_key buf k (Suc n) at =
     and_then (get_usize buf at) (\<lambda>(len, at).
     and_then (take_bytes buf at len) (\<lambda>(key, at).
       case cmp key k of
         Less \<Rightarrow> and_then (skip_value buf at) (seek_key buf k n)
       | Equal \<Rightarrow> Ok (True, at)
       | Greater \<Rightarrow> Ok (False, at)))"

fun walk_keys :: "bytes \<Rightarrow> usize \<Rightarrow> bytes list \<Rightarrow> usize option result" where
  "walk_keys buf at [] = Ok (Some at)"
| "walk_keys buf at (k # ks) =
     (if get_byte buf at \<noteq> Some tag_object then Ok None
      else and_then (get_usize buf (at + 1)) (\<lambda>(n, at).
           and_then (seek_key buf k n at) (\<lambda>(found, at).
             if found then walk_keys buf at ks else Ok None)))"

text \<open>
  \<open>decode_path_into\<close> leaves the value in \<open>slot\<close>, a text in the text the slot held: the
  model returns the slot as it is left, with what the call returns.
\<close>

definition decode_path_into :: "bytes \<Rightarrow> usize \<Rightarrow> bytes \<Rightarrow> val \<Rightarrow> val \<times> unit result" where
  "decode_path_into buf at keys slot =
     (case walk_keys buf at (split_on dot keys) of
        Err e \<Rightarrow> (slot, Err e)
      | Panic \<Rightarrow> (slot, Panic)
      | Ok None \<Rightarrow> (VNull, Ok ())
      | Ok (Some at) \<Rightarrow>
          (case (get_byte buf at = Some tag_text, slot) of
             (True, VText s) \<Rightarrow>
               (let (s', r) = decode_text_into buf (at + 1) s in (VText s', map_ok (\<lambda>_. ()) r))
           | _ \<Rightarrow>
               (case decode_value buf at of
                  Ok (v, _) \<Rightarrow> (v, Ok ())
                | Err e \<Rightarrow> (slot, Err e)
                | Panic \<Rightarrow> (slot, Panic))))"

definition decode_path :: "bytes \<Rightarrow> usize \<Rightarrow> bytes \<Rightarrow> val result" where
  "decode_path buf at keys =
     (let (v, r) = decode_path_into buf at keys VNull in map_ok (\<lambda>_. v) r)"

end
