(* ===== verification/Fenec_Codec_Laws.thy ===== *)
theory Fenec_Codec_Laws
  imports Fenec_Codec
begin

unbundle bit_operations_syntax

text \<open>
  What the codec promises: a read moves on and stays inside its buffer, its recursion never
  meets the depth bound, what is written reads back, and a skip passes over exactly what a
  read would have read.
\<close>

section \<open>Reads move on\<close>

lemma take_bytes_Ok_iff [result_simps]:
  "take_bytes buf pos n = Ok (raw, p)
     \<longleftrightarrow> p = pos + n \<and> p < 2 ^ 64 \<and> p \<le> length buf \<and> raw = take n (drop pos buf)"
  by (auto simp: take_bytes_def)

lemma take_bytes_no_panic [simp]: "take_bytes buf pos n \<noteq> Panic"
  by (simp add: take_bytes_def)

lemma take_bytes_at [at_simps]:
  "at_pos buf pos bs \<Longrightarrow> n = length bs \<Longrightarrow> length buf < 2 ^ 63 \<Longrightarrow> take_bytes buf pos n = Ok (bs, pos + n)"
  by (auto simp: take_bytes_def at_pos_def)

lemma decode_str_progress:
  "decode_str buf pos = Ok (s, p) \<Longrightarrow> pos < p \<and> p \<le> length buf \<and> from_utf8 s"
  by (auto simp: decode_str_def result_simps dest!: get_usize_progress split: if_splits)

lemma decode_str_no_panic [simp]: "decode_str buf pos \<noteq> Panic"
  by (auto simp: decode_str_def result_simps split: if_splits)

lemma decode_indices_progress:
  "decode_indices buf n pos at = Ok (is, p) \<Longrightarrow> pos \<le> length buf
     \<Longrightarrow> pos + n \<le> p \<and> p \<le> length buf \<and> length is = n"
proof (induction n arbitrary: pos at "is")
  case 0
  then show ?case by simp
next
  case (Suc n)
  then obtain gap q is' where g: "get_uvarint buf pos = Ok (gap, q)"
    and r: "decode_indices buf n q (at + ucast gap) = Ok (is', p)" and "is = (at + ucast gap) # is'"
    by (auto simp: result_simps Let_def)
  with get_uvarint_progress [OF g] Suc.IH [OF r] show ?case by auto
qed

lemma decode_sparse_progress:
  assumes "decode_sparse buf pos = Ok (v, p)"
  shows "pos < p \<and> p \<le> length buf"
proof -
  from assms obtain dim q1 n q2 es q3 raw where d: "get_uvarint buf pos = Ok (dim, q1)"
    and n: "get_usize buf q1 = Ok (n, q2)" and e: "decode_indices buf n q2 0 = Ok (es, q3)"
    and t: "take_bytes buf q3 (usize_mul n 4) = Ok (raw, p)"
    by (auto simp: decode_sparse_def result_simps)
  from get_uvarint_progress [OF d] get_usize_progress [OF n] decode_indices_progress [OF e] t
  show ?thesis by (auto simp: result_simps)
qed

text \<open>A reader of a buffer, and one that at least goes forward.\<close>

definition moves_up :: "(usize \<Rightarrow> ('a \<times> usize) result) \<Rightarrow> bool" where
  "moves_up f \<longleftrightarrow> (\<forall>pos x p. f pos = Ok (x, p) \<longrightarrow> pos < p)"

definition moves_on :: "bytes \<Rightarrow> (usize \<Rightarrow> ('a \<times> usize) result) \<Rightarrow> bool" where
  "moves_on buf f \<longleftrightarrow> (\<forall>pos x p. f pos = Ok (x, p) \<longrightarrow> pos < p \<and> p \<le> length buf)"

lemma moves_onD: "moves_on buf f \<Longrightarrow> f pos = Ok (x, p) \<Longrightarrow> pos < p \<and> p \<le> length buf"
  by (auto simp: moves_on_def)

lemma many_moves:
  "moves_on buf f \<Longrightarrow> many f n pos = Ok (xs, p) \<Longrightarrow> pos \<le> length buf \<Longrightarrow> pos + n \<le> p \<and> p \<le> length buf"
  by (rule many_progress) (auto dest: moves_onD)

definition read_member :: "(usize \<Rightarrow> (val \<times> usize) result) \<Rightarrow> bytes \<Rightarrow> usize \<Rightarrow> ((bytes \<times> val) \<times> usize) result" where
  "read_member rec buf pos =
     and_then (decode_str buf pos) (\<lambda>(k, pos). and_then (rec pos) (\<lambda>(v, pos). Ok ((k, v), pos)))"

lemma read_member_moves: "moves_on buf rec \<Longrightarrow> moves_on buf (read_member rec buf)"
  by (fastforce simp: moves_on_def read_member_def result_simps dest: decode_str_progress)

lemmas decode_step_unfold = decode_step_def [folded read_member_def]

lemma decode_step_moves:
  assumes "moves_on buf rec"
  shows "moves_on buf (decode_step rec buf)"
  unfolding moves_on_def
proof (intro allI impI)
  fix pos v p
  assume d: "decode_step rec buf pos = Ok (v, p)"
  then obtain tag where tag: "get_byte buf pos = Some tag"
    by (auto simp: decode_step_def result_simps)
  then have pos: "Suc pos \<le> length buf" by (auto simp: get_byte_Some_iff)
  show "pos < p \<and> p \<le> length buf"
    using d tag pos
    by (auto simp: decode_step_unfold result_simps Let_def get_byte_Some_iff split: if_splits
        dest!: get_uvarint_progress get_usize_progress decode_str_progress decode_sparse_progress
          many_moves [OF assms] many_moves [OF read_member_moves [OF assms]])
qed

lemma decode_value_n_moves: "moves_on buf (decode_value_n d buf)"
proof (induction d)
  case 0
  show ?case by (simp add: moves_on_def)
next
  case (Suc d)
  have "decode_value_n (Suc d) buf = decode_step (decode_value_n d buf) buf" by (rule ext) simp
  with decode_step_moves [OF Suc] show ?case by (simp only:)
qed

lemma decode_value_moves: "moves_on buf (decode_value buf)"
  unfolding decode_value_def by (rule decode_value_n_moves)

lemmas decode_value_progress = moves_onD [OF decode_value_moves]

section \<open>The depth bound is never met\<close>

lemma moves_on_up: "moves_on buf f \<Longrightarrow> moves_up f"
  by (auto simp: moves_on_def moves_up_def)

lemma many_cong_above:
  assumes "moves_up f" "\<And>p. pos \<le> p \<Longrightarrow> f p = g p"
  shows "many f n pos = many g n pos"
  using assms(2)
proof (induction n arbitrary: pos)
  case 0
  then show ?case by simp
next
  case (Suc n)
  have "many f n p = many g n p" if "f pos = Ok (x, p)" for x p
    using assms(1) that Suc.prems unfolding moves_up_def
    by (intro Suc.IH) (meson less_imp_le le_trans)
  then have "and_then (f pos) (\<lambda>(x, p). and_then (many f n p) (\<lambda>(xs, q). Ok (x # xs, q)))
      = and_then (f pos) (\<lambda>(x, p). and_then (many g n p) (\<lambda>(xs, q). Ok (x # xs, q)))"
    by (intro and_then_cong) auto
  with Suc.prems [of pos] show ?case by simp
qed

lemma read_member_cong:
  assumes "\<And>p. pos < p \<Longrightarrow> rec p = rec' p"
  shows "read_member rec buf pos = read_member rec' buf pos"
proof (cases "decode_str buf pos")
  case (Ok kp)
  then obtain k p where "decode_str buf pos = Ok (k, p)" by (cases kp) auto
  with decode_str_progress [OF this] assms show ?thesis by (simp add: read_member_def)
qed (simp_all add: read_member_def)

lemma decode_step_cong:
  assumes "moves_on buf rec" "\<And>p. pos < p \<Longrightarrow> p \<le> length buf \<Longrightarrow> rec p = rec' p"
    and "\<And>p. length buf < p \<Longrightarrow> rec p = rec' p"
  shows "decode_step rec buf pos = decode_step rec' buf pos"
proof -
  have eq: "rec p = rec' p" if "pos < p" for p
    using assms(2,3) that by (cases "p \<le> length buf") auto
  have items: "many rec n p = many rec' n p"
    and members: "many (read_member rec buf) n p = many (read_member rec' buf) n p"
    if "get_usize buf (Suc pos) = Ok (n, p)" for n p
    using get_usize_progress [OF that] eq
    by (auto intro!: many_cong_above [OF moves_on_up [OF assms(1)]] read_member_cong
        many_cong_above [OF moves_on_up [OF read_member_moves [OF assms(1)]]])
  show ?thesis
  proof (cases "get_byte buf pos")
    case None
    then show ?thesis by (simp add: decode_step_def)
  next
    case (Some tag)
    consider "tag = tag_list" | "tag = tag_object" | "tag \<noteq> tag_list" "tag \<noteq> tag_object" by blast
    then show ?thesis
    proof cases
      case 1
      with Some show ?thesis
        by (simp add: decode_step_unfold tag_defs) (rule and_then_cong, auto simp: items)
    next
      case 2
      with Some show ?thesis
        by (simp add: decode_step_unfold tag_defs) (rule and_then_cong, auto simp: members)
    next
      case 3
      with Some show ?thesis by (simp add: decode_step_unfold)
    qed
  qed
qed

lemma decode_value_n_enough:
  "length buf - pos < d \<Longrightarrow> length buf - pos < d' \<Longrightarrow> decode_value_n d buf pos = decode_value_n d' buf pos"
proof (induction d arbitrary: d' pos)
  case 0
  then show ?case by simp
next
  case (Suc d)
  then obtain e where d': "d' = Suc e" by (cases d') auto
  show ?case
  proof (cases "pos < length buf")
    case True
    have "decode_value_n d buf p = decode_value_n e buf p" if "pos < p" for p
      using that True Suc.prems d' by (intro Suc.IH) auto
    then have "decode_step (decode_value_n d buf) buf pos = decode_step (decode_value_n e buf) buf pos"
      using True by (intro decode_step_cong [OF decode_value_n_moves]) auto
    with d' show ?thesis by (simp only: decode_value_n.simps)
  next
    case False
    then have "get_byte buf pos = None" by (simp add: get_byte_def)
    with d' show ?thesis by (simp add: decode_step_def)
  qed
qed

lemma decode_value_unfold: "decode_value buf pos = decode_step (decode_value buf) buf pos"
proof (cases "pos < length buf")
  case True
  have "decode_value_n (length buf) buf p = decode_value buf p" if "pos < p" for p
    using that True unfolding decode_value_def by (intro decode_value_n_enough) auto
  then have "decode_step (decode_value_n (length buf) buf) buf pos = decode_step (decode_value buf) buf pos"
    by (intro decode_step_cong [OF decode_value_n_moves]) (use True in auto)
  then show ?thesis by (subst decode_value_def) simp
next
  case False
  then have "get_byte buf pos = None" by (simp add: get_byte_def)
  then show ?thesis by (simp add: decode_value_def decode_step_def)
qed

section \<open>What is written reads back\<close>

lemma get_usize_put_len [at_simps]:
  "at_pos buf pos (put_len xs) \<Longrightarrow> length xs < 2 ^ 63
     \<Longrightarrow> get_usize buf pos = Ok (length xs, pos + length (put_len xs))"
  unfolding put_len_def by (intro get_put_usize) auto

lemma decode_str_at [at_simps]:
  assumes "at_pos buf pos (encode_str s)" "from_utf8 s" "length s < 2 ^ 63" "length buf < 2 ^ 63"
  shows "decode_str buf pos = Ok (s, pos + length (encode_str s))"
  using assms by (auto simp: decode_str_def encode_str_def at_simps)

lemma length_words [simp]:
  "length (concat (map (le_bytes k) v)) = length v * k"
  "length (concat (map (\<lambda>e. le_bytes k (g e)) es)) = length es * k"
  by (simp_all add: length_concat_const)

lemma f32s_words [simp]: "f32s (concat (map (le_bytes 4) v)) = v"
proof -
  have "chunks 4 (concat (map (le_bytes 4) v)) = map (le_bytes 4) v"
    by (rule chunks_concat) auto
  then show ?thesis by (simp add: f32s_def o_def)
qed

lemma f16s_words [simp]:
  "f16s (concat (map (\<lambda>f. le_bytes 2 (f16_from_f32 f)) v)) = map (\<lambda>f. f32_from_f16 (f16_from_f32 f)) v"
proof -
  have "chunks 2 (concat (map (\<lambda>f. le_bytes 2 (f16_from_f32 f)) v)) = map (\<lambda>f. le_bytes 2 (f16_from_f32 f)) v"
    by (rule chunks_concat) auto
  then show ?thesis by (simp add: f16s_def o_def)
qed

lemma chunks_one [simp]: "length w = n \<Longrightarrow> 0 < n \<Longrightarrow> chunks n w = [w]"
  using chunks_concat [of n "[w]"] by simp

lemma geo_at_words [simp]: "geo_at (le_bytes 8 lon @ le_bytes 8 lat) = (lon, lat)"
proof -
  have "chunks 8 (concat [le_bytes 8 lon, le_bytes 8 lat]) = [le_bytes 8 lon, le_bytes 8 lat]"
    by (rule chunks_concat) auto
  then show ?thesis by (simp add: geo_at_def)
qed

lemma decode_indices_at:
  "at_pos buf pos (sparse_gaps prev es)
     \<Longrightarrow> decode_indices buf (length es) pos prev = Ok (map fst es, pos + length (sparse_gaps prev es))"
proof (induction es arbitrary: pos prev)
  case Nil
  then show ?case by simp
next
  case (Cons e es)
  have "prev + ucast (ucast (fst e - prev) :: u64) = fst e" by (simp add: ucast_down_ucast_id is_down)
  with Cons show ?case by (auto simp: at_simps Let_def add.assoc)
qed

lemma set_weights_words [simp]:
  "set_weights (map fst es) (map (\<lambda>e. le_bytes 4 (snd e)) es) = es"
  by (induction es) auto

lemma decode_sparse_at:
  assumes "at_pos buf pos (put_uvarint (ucast dim) @ put_len es @ sparse_gaps 0 es
      @ concat (map (\<lambda>e. le_bytes 4 (snd e)) es))"
    and "length es * 8 < 2 ^ 63" "length buf < 2 ^ 63"
  shows "decode_sparse buf pos = Ok (VSparse dim es, pos + length (put_uvarint (ucast dim) @ put_len es
      @ sparse_gaps 0 es @ concat (map (\<lambda>e. le_bytes 4 (snd e)) es)))"
proof -
  have "chunks 4 (concat (map (\<lambda>e. le_bytes 4 (snd e)) es)) = map (\<lambda>e. le_bytes 4 (snd e)) es"
    by (rule chunks_concat) auto
  moreover have "ucast (ucast dim :: u64) = dim" by (simp add: ucast_down_ucast_id is_down)
  moreover have "usize_mul (length es) 4 = length es * 4" using assms(2) by (simp add: word_cast_simps)
  ultimately show ?thesis
    using assms by (auto simp: decode_sparse_def at_simps decode_indices_at add.assoc)
qed

lemma decode_encode_value:
  assumes "length buf < 2 ^ 63"
  shows "wf_val v \<Longrightarrow> at_pos buf pos (encode_value v)
     \<Longrightarrow> decode_value buf pos = Ok (v, pos + length (encode_value v))"
proof (induction v arbitrary: pos)
  case (VList vs)
  have "many (decode_value buf) (length vs) p = Ok (vs, p + length (concat (map encode_value vs)))"
    if "at_pos buf p (concat (map encode_value vs))" for p
    using that VList.IH VList.prems(1) by (intro many_roundtrip) auto
  with VList.prems show ?case
    by (subst decode_value_unfold) (auto simp: decode_step_def tag_defs at_simps)
next
  case (VObject ms)
  let ?enc = "\<lambda>p. encode_str (fst p) @ encode_value (snd p)"
  have "read_member (decode_value buf) buf p = Ok (m, p + length (?enc m))"
    if "m \<in> set ms" "at_pos buf p (?enc m)" for m p
    using that VObject.IH [of m "snd m"] VObject.prems(1) assms
    by (auto simp: read_member_def at_simps snds.simps add.assoc)
  then have "many (read_member (decode_value buf) buf) (length ms) p
      = Ok (ms, p + length (concat (map ?enc ms)))"
    if "at_pos buf p (concat (map ?enc ms))" for p
    using that by (intro many_roundtrip) auto
  with VObject.prems show ?case
    by (subst decode_value_unfold) (auto simp: decode_step_unfold tag_defs at_simps)
next
  case (VVector v)
  have "usize_mul (length v) 4 = length v * 4"
    using VVector.prems by (simp add: word_cast_simps)
  with VVector.prems assms show ?case
    by (subst decode_value_unfold) (auto simp: decode_step_def tag_defs at_simps)
next
  case (VSparse dim es)
  with assms decode_sparse_at [of buf "Suc pos" dim es] show ?case
    by (subst decode_value_unfold) (simp add: decode_step_def tag_defs at_pos_Cons)
qed (use assms in \<open>subst decode_value_unfold;
    auto simp: decode_step_def tag_defs at_simps decode_str_def\<close>)+

text \<open>
  A field's value by its type reads back as it was, a half-precision vector as its halves
  widened.
\<close>

definition stored_as :: "val \<Rightarrow> data_type option \<Rightarrow> val" where
  "stored_as v ty =
     (case v of
        VVector vals \<Rightarrow>
          (case ty of
             Some (TVector d F16) \<Rightarrow> VVector (map (\<lambda>f. f32_from_f16 (f16_from_f32 f)) vals)
           | _ \<Rightarrow> v)
      | _ \<Rightarrow> v)"

lemma as_point_Some_iff: "as_point p = Some (lon, lat) \<longleftrightarrow> p = [VFloat lon, VFloat lat]"
  by (auto elim: as_point.elims)

lemma decode_encode_half:
  assumes "length buf < 2 ^ 63" "length vals * 4 < 2 ^ 63"
    and "at_pos buf pos (tag_vector_f16 # put_len vals @ concat (map (\<lambda>f. le_bytes 2 (f16_from_f32 f)) vals))"
  shows "decode_value buf pos = Ok (VVector (map (\<lambda>f. f32_from_f16 (f16_from_f32 f)) vals),
      pos + length (tag_vector_f16 # put_len vals @ concat (map (\<lambda>f. le_bytes 2 (f16_from_f32 f)) vals)))"
proof -
  have "usize_mul (length vals) 2 = length vals * 2" using assms(2) by (simp add: word_cast_simps)
  moreover have "with_capacity (length vals) 4 = Ok ()"
    using assms(2) by (simp add: with_capacity_def isize_max_def)
  ultimately show ?thesis
    using assms by (subst decode_value_unfold) (auto simp: decode_step_def tag_defs at_simps)
qed

lemma decode_encode_value_as:
  assumes "length buf < 2 ^ 63" "wf_val v" "at_pos buf pos (encode_value_as v ty)"
  shows "decode_value buf pos = Ok (stored_as v ty, pos + length (encode_value_as v ty))"
proof (cases "encode_value_as v ty = encode_value v")
  case True
  have "stored_as v ty = v"
    using True by (auto simp: stored_as_def encode_value_as_def tag_defs
        split: val.splits option.splits data_type.splits vec_prec.splits)
  with True assms decode_encode_value show ?thesis by simp
next
  case False
  then consider (half) vals d where "v = VVector vals" "ty = Some (TVector d F16)"
    | (point) p lon lat where "v = VList p" "ty = Some TGeo" "as_point p = Some (lon, lat)"
    by (auto simp: encode_value_as_def split: val.splits option.splits data_type.splits vec_prec.splits)
  then show ?thesis
  proof cases
    case half
    with assms decode_encode_half [of buf vals pos] show ?thesis
      by (simp add: encode_value_as_def stored_as_def)
  next
    case point
    have "at_pos buf (Suc pos) (le_bytes 8 lon @ le_bytes 8 lat)"
      using assms(3) point by (simp add: encode_value_as_def at_pos_Cons)
    then have "take_bytes buf (Suc pos) 16 = Ok (le_bytes 8 lon @ le_bytes 8 lat, Suc pos + 16)"
      using assms(1) by (intro take_bytes_at) auto
    with assms(3) point show ?thesis
      by (subst decode_value_unfold)
        (auto simp: decode_step_def tag_defs at_pos_Cons encode_value_as_def stored_as_def
          as_point_Some_iff geo_value_def)
  qed
qed

subsection \<open>Types\<close>

fun wf_type :: "data_type \<Rightarrow> bool" where
  "wf_type (TVector d _) \<longleftrightarrow> d < 2 ^ 64"
| "wf_type (TSparse d) \<longleftrightarrow> d < 2 ^ 64"
| "wf_type (TList t) \<longleftrightarrow> wf_type t"
| "wf_type _ = True"

lemma decode_type_n_at:
  "wf_type t \<Longrightarrow> at_pos buf pos (encode_type t) \<Longrightarrow> length buf - pos < depth
     \<Longrightarrow> decode_type_n depth buf pos = Ok (t, pos + length (encode_type t))"
proof (induction t arbitrary: pos depth)
  case (TVector d prec)
  then show ?case
    by (cases depth; cases prec) (auto simp: at_simps get_put_usize tag_defs)
next
  case (TList t)
  from TList.prems(2) have "pos < length buf" by (auto simp: at_simps get_byte_Some_iff)
  with TList show ?case
    by (cases depth) (auto simp: at_simps tag_defs)
qed (case_tac depth; auto simp: at_simps get_put_usize tag_defs)+

lemma decode_type_at:
  "wf_type t \<Longrightarrow> at_pos buf pos (encode_type t) \<Longrightarrow> decode_type buf pos = Ok (t, pos + length (encode_type t))"
  unfolding decode_type_def by (rule decode_type_n_at) auto

section \<open>The wire contract\<close>

interpretation text_wire: wire encode_str decode_str "\<lambda>s. from_utf8 s \<and> length s < 2 ^ 63"
  by unfold_locales (auto intro: decode_str_at)

interpretation value_wire: wire encode_value decode_value wf_val
  by unfold_locales (rule decode_encode_value)

interpretation type_wire: wire encode_type decode_type wf_type
  by unfold_locales (rule decode_type_at)

interpretation member_wire: wire_pair encode_str decode_str "\<lambda>s. from_utf8 s \<and> length s < 2 ^ 63"
  encode_value decode_value wf_val
  by unfold_locales

section \<open>Properties\<close>

text \<open>
  C27: every well-formed value, of any depth, is read back from wherever it was encoded, past
  exactly its bytes.
\<close>

theorem value_roundtrip:
  assumes "wf_val v" "length (pre @ encode_value v @ post) < 2 ^ 63"
  shows "decode_value (pre @ encode_value v @ post) (length pre) = Ok (v, length pre + length (encode_value v))"
  by (rule value_wire.round_trip [OF assms])

definition demo_value :: val where
  "demo_value = VObject [([0x61], VList [VInt 1, VNull, VText [0x68, 0x69]]), ([0x62], VVector [0, 0x3f800000])]"

lemma demo_value_wf: "wf_val demo_value"
  by (simp add: demo_value_def)

theorem value_roundtrip_witness:
  "decode_value ([9] @ encode_value demo_value @ [7]) (length [9 :: u8])
     = Ok (demo_value, length [9 :: u8] + length (encode_value demo_value))"
proof (rule value_roundtrip [OF demo_value_wf])
  show "length ([9] @ encode_value demo_value @ [7]) < 2 ^ 63" by code_simp
qed

text \<open>
  No value's encoding is the start of another's, so a run of values -- a document's fields --
  reads one way only.
\<close>

theorem value_encoding_prefix_free:
  assumes "wf_val v" "wf_val w" "encode_value v @ r = encode_value w @ s" "length (encode_value v @ r) < 2 ^ 63"
  shows "v = w \<and> r = s"
  by (rule value_wire.prefix_free [OF assms])

theorem value_encoding_prefix_free_witness:
  "demo_value = VObject [([0x61], VList [VInt 1, VNull, VText [0x68, 0x69]]), ([0x62], VVector [0, 0x3f800000])]
   \<and> [1 :: u8] = [1]"
proof (rule value_encoding_prefix_free)
  show "encode_value demo_value @ [1]
      = encode_value (VObject [([0x61], VList [VInt 1, VNull, VText [0x68, 0x69]]), ([0x62], VVector [0, 0x3f800000])]) @ [1]"
    by (simp add: demo_value_def)
  show "length (encode_value demo_value @ [1]) < 2 ^ 63" by code_simp
qed (use demo_value_wf in \<open>simp_all add: demo_value_def\<close>)

text \<open>
  C28: a value encoded for its field's type reads back as it was, a vector of a half-precision
  field as its halves widened and a point as its two floats.
\<close>

theorem value_as_roundtrip:
  assumes "wf_val v" "length (pre @ encode_value_as v ty @ post) < 2 ^ 63"
  shows "decode_value (pre @ encode_value_as v ty @ post) (length pre)
     = Ok (stored_as v ty, length pre + length (encode_value_as v ty))"
  by (rule decode_encode_value_as [OF assms(2,1)]) simp

theorem value_as_roundtrip_witness:
  "decode_value ([] @ encode_value_as (VVector [0x3f800000]) (Some (TVector 1 F16)) @ [7]) (length ([] :: bytes))
     = Ok (stored_as (VVector [0x3f800000]) (Some (TVector 1 F16)),
           length ([] :: bytes) + length (encode_value_as (VVector [0x3f800000]) (Some (TVector 1 F16))))"
proof (rule value_as_roundtrip)
  show "length ([] @ encode_value_as (VVector [0x3f800000]) (Some (TVector 1 F16)) @ [7]) < 2 ^ 63" by code_simp
qed simp

text \<open>
  C29: decoding is total: the recursion never goes deeper than the buffer is long, so the bound the
  model gives it is never met -- the function is the code's recursion -- and a value read ends past
  where it began and inside the buffer.
\<close>

theorem decode_value_total:
  "decode_value buf pos = decode_step (decode_value buf) buf pos
   \<and> (case decode_value buf pos of Ok (v, p) \<Rightarrow> pos < p \<and> p \<le> length buf | Err e \<Rightarrow> True | Panic \<Rightarrow> True)"
  using decode_value_unfold [of buf pos] decode_value_progress [of buf pos] by (auto split: result.splits)

text \<open>Every field type is read back from its encoding, lists of lists included.\<close>

theorem type_roundtrip:
  assumes "wf_type t" "length (pre @ encode_type t @ post) < 2 ^ 63"
  shows "decode_type (pre @ encode_type t @ post) (length pre) = Ok (t, length pre + length (encode_type t))"
  by (rule type_wire.round_trip [OF assms])

theorem type_roundtrip_witness:
  "decode_type ([0] @ encode_type (TList (TVector 300 F16)) @ [1]) (length [0 :: u8])
     = Ok (TList (TVector 300 F16), length [0 :: u8] + length (encode_type (TList (TVector 300 F16))))"
proof (rule type_roundtrip)
  show "length ([0] @ encode_type (TList (TVector 300 F16)) @ [1]) < 2 ^ 63" by code_simp
qed simp

text \<open>
  A half-precision vector whose count is \<open>2 ^ 63\<close> wraps its byte length to zero, passes the
  check that its bytes are there, and panics where its room is reserved: eleven bytes of a damaged
  record that every other count answers with an error.
\<close>

theorem decode_value_f16_panics: "decode_value [8, 0x80, 0x80, 0x80, 0x80, 0x80, 0x80, 0x80, 0x80, 0x80, 1] 0 = Panic"
  (is "decode_value ?b 0 = _")
proof -
  have w: "(word_of_nat (2 ^ 63) :: u64) = 0x8000000000000000" by simp
  have "?b = [8] @ put_uvarint 0x8000000000000000 @ [] \<and> length (put_uvarint 0x8000000000000000) = 10" by code_simp
  then have "at_pos ?b 1 (put_uvarint (word_of_nat (2 ^ 63)))" "length (put_uvarint (word_of_nat (2 ^ 63))) = 10"
    unfolding w using at_pos_whole [of "[8 :: u8]" "put_uvarint 0x8000000000000000" "[]"] by simp_all
  from get_put_usize [OF this(1)] this(2) have "get_usize ?b 1 = Ok (2 ^ 63, 11)" by simp
  then show ?thesis
    by (subst decode_value_unfold)
      (simp add: decode_step_def get_byte_def tag_defs take_bytes_def usize_mul_def with_capacity_def isize_max_def)
qed

end
