(* ===== verification/Fenec_Codec_Skip.thy ===== *)
theory Fenec_Codec_Skip
  imports Fenec_Codec_Laws
begin

text \<open>
  Reading without decoding: \<open>skip_value\<close> and \<open>skip_field\<close> against \<open>decode_value\<close> over any
  bytes at all, and a path read off the bytes against the same path read in the value.
\<close>

section \<open>A skip passes over what a read reads\<close>

lemma many_same_positions:
  assumes "many f n pos = Ok (xs, q)" "\<And>p x p'. f p = Ok (x, p') \<Longrightarrow> \<exists>y. g p = Ok (y, p')"
  shows "\<exists>ys. many g n pos = Ok (ys, q)"
  using assms(1)
proof (induction n arbitrary: pos xs)
  case 0
  then show ?case by simp
next
  case (Suc n)
  then obtain x p xs' where f: "f pos = Ok (x, p)" and r: "many f n p = Ok (xs', q)"
    by (auto simp: result_simps)
  from assms(2) [OF f] Suc.IH [OF r] show ?case by auto
qed

lemma decode_indices_many:
  "decode_indices buf n pos at = Ok (is, q) \<Longrightarrow> \<exists>ys. many (get_uvarint buf) n pos = Ok (ys, q)"
proof (induction n arbitrary: pos at "is")
  case 0
  then show ?case by simp
next
  case (Suc n)
  then obtain gap p is' where g: "get_uvarint buf pos = Ok (gap, p)"
    and r: "decode_indices buf n p (at + ucast gap) = Ok (is', q)"
    by (auto simp: result_simps Let_def)
  from Suc.IH [OF r] g show ?case by auto
qed

lemma decode_sparse_skip:
  assumes "decode_sparse buf pos = Ok (v, p)"
  shows "and_then (get_uvarint buf pos) (\<lambda>(_, pos). and_then (get_usize buf pos) (\<lambda>(n, pos).
      and_then (many (get_uvarint buf) n pos) (\<lambda>(_, pos).
        map_ok snd (take_bytes buf pos (usize_mul n 4))))) = Ok p"
  using assms decode_indices_many by (fastforce simp: decode_sparse_def result_simps)

lemma skip_step_decode:
  assumes d: "decode_step rec buf pos = Ok (v, p)"
    and rec: "\<And>p v q. rec p = Ok (v, q) \<Longrightarrow> rec' p = Ok q"
  shows "skip_step field rec' buf pos = Ok p"
proof -
  from d obtain tag where tag: "get_byte buf pos = Some tag"
    by (auto simp: decode_step_def result_simps)
  have items: "map_ok snd (many (\<lambda>p. map_ok (\<lambda>q. ((), q)) (rec' p)) n s) = Ok q"
    if "many rec n s = Ok (xs, q)" for n s xs q
    using many_same_positions [OF that, of "\<lambda>p. map_ok (\<lambda>q. ((), q)) (rec' p)"] rec
    by (auto simp: result_simps)
  have members: "map_ok snd (many (\<lambda>pos. and_then (get_usize buf pos) (\<lambda>(k, pos).
      and_then (take_bytes buf pos k) (\<lambda>(_, pos). map_ok (\<lambda>q. ((), q)) (rec' pos)))) n s) = Ok q"
    if "many (read_member rec buf) n s = Ok (xs, q)" for n s xs q
  proof -
    have "\<exists>y. and_then (get_usize buf a) (\<lambda>(k, pos).
        and_then (take_bytes buf pos k) (\<lambda>(_, pos). map_ok (\<lambda>q. ((), q)) (rec' pos))) = Ok (y, b)"
      if "read_member rec buf a = Ok (x, b)" for a x b
      using that rec by (fastforce simp: read_member_def decode_str_def result_simps split: if_splits)
    from many_same_positions [OF that this] show ?thesis by (auto simp: result_simps)
  qed
  consider "tag = tag_list" | "tag = tag_object" | "tag = tag_sparse"
    | "tag \<noteq> tag_list" "tag \<noteq> tag_object" "tag \<noteq> tag_sparse" by blast
  then show ?thesis
  proof cases
    case 1
    with d tag obtain n s xs where "get_usize buf (Suc pos) = Ok (n, s)" "many rec n s = Ok (xs, p)"
      by (auto simp: decode_step_def tag_defs result_simps)
    with 1 tag items show ?thesis by (simp add: skip_step_def tag_defs)
  next
    case 2
    with d tag obtain n s xs where "get_usize buf (Suc pos) = Ok (n, s)"
      "many (read_member rec buf) n s = Ok (xs, p)"
      by (auto simp: decode_step_unfold tag_defs result_simps)
    with 2 tag members show ?thesis by (simp add: skip_step_def tag_defs)
  next
    case 3
    with d tag have "decode_sparse buf (Suc pos) = Ok (v, p)"
      by (simp add: decode_step_def tag_defs)
    with 3 tag decode_sparse_skip show ?thesis by (simp add: skip_step_def tag_defs)
  next
    case 4
    then consider "tag = 0" | "tag = 1" | "tag = 2" | "tag = 3" | "tag = 4" | "tag = 5" | "tag = 6"
      | "tag = 8" | "tag = 9" | "tag = 15" | "tag \<notin> {0, 1, 2, 3, 4, 5, 6, 8, 9, 15}"
      by blast
    from this 4 show ?thesis
      by cases (use d tag in \<open>auto simp: decode_step_def skip_step_def tag_defs decode_str_def
        result_simps split: if_splits\<close>)
  qed
qed

lemma skip_n_decode: "decode_value_n d buf pos = Ok (v, p) \<Longrightarrow> skip_n d field buf pos = Ok p"
proof (induction d arbitrary: pos v p field)
  case 0
  then show ?case by simp
next
  case (Suc d)
  then show ?case by (auto intro: skip_step_decode)
qed

lemma skip_value_decode: "decode_value buf pos = Ok (v, p) \<Longrightarrow> skip_value buf pos = Ok p"
  unfolding decode_value_def skip_value_def by (rule skip_n_decode)

lemma skip_field_decode: "decode_value buf pos = Ok (v, p) \<Longrightarrow> skip_field buf pos = Ok p"
  unfolding decode_value_def skip_field_def by (rule skip_n_decode)

lemma skip_value_at [at_simps]:
  "at_pos buf pos (encode_value v) \<Longrightarrow> wf_val v \<Longrightarrow> length buf < 2 ^ 63
     \<Longrightarrow> skip_value buf pos = Ok (pos + length (encode_value v))"
  by (rule skip_value_decode [OF decode_encode_value])

lemma skip_field_end: "length buf \<le> pos \<Longrightarrow> skip_field buf pos = Ok pos"
  by (simp add: skip_field_def skip_step_def get_byte_def)

section \<open>The skip's depth bound is never met\<close>

text \<open>The reader \<open>skip\<close> calls for an item and for a member, and that both go forward.\<close>

definition skip_item :: "(usize \<Rightarrow> usize result) \<Rightarrow> usize \<Rightarrow> (unit \<times> usize) result" where
  "skip_item rec pos = map_ok (\<lambda>q. ((), q)) (rec pos)"

definition skip_member :: "(usize \<Rightarrow> usize result) \<Rightarrow> bytes \<Rightarrow> usize \<Rightarrow> (unit \<times> usize) result" where
  "skip_member rec buf pos =
     and_then (get_usize buf pos) (\<lambda>(k, pos). and_then (take_bytes buf pos k) (\<lambda>(_, pos). skip_item rec pos))"

definition skips_up :: "(usize \<Rightarrow> usize result) \<Rightarrow> bool" where
  "skips_up rec \<longleftrightarrow> (\<forall>pos p. rec pos = Ok p \<longrightarrow> pos < p)"

lemma skip_item_up: "skips_up rec \<Longrightarrow> moves_up (skip_item rec)"
  by (auto simp: skips_up_def moves_up_def skip_item_def result_simps)

lemma skip_member_up: "skips_up rec \<Longrightarrow> moves_up (skip_member rec buf)"
  by (fastforce simp: skips_up_def moves_up_def skip_member_def skip_item_def result_simps
      dest: get_usize_progress)

lemma many_up: "moves_up f \<Longrightarrow> many f n pos = Ok (xs, q) \<Longrightarrow> pos \<le> q"
proof (induction n arbitrary: pos xs)
  case (Suc n)
  then obtain x p xs' where "f pos = Ok (x, p)" "many f n p = Ok (xs', q)"
    by (auto simp: result_simps)
  with Suc.IH [of p xs'] Suc.prems(1) show ?case by (fastforce simp: moves_up_def)
qed simp

lemmas skip_step_unfold = skip_step_def [folded skip_item_def, unfolded Let_def, folded skip_member_def]

lemma get_uvarint_up: "moves_up (get_uvarint buf)"
  by (auto simp: moves_up_def dest: get_uvarint_progress)

lemma skip_step_up:
  assumes "skips_up rec"
  shows "skips_up (skip_step False rec buf)"
  unfolding skips_up_def
proof (intro allI impI)
  fix pos p
  assume d: "skip_step False rec buf pos = Ok p"
  then obtain tag where "get_byte buf pos = Some tag"
    by (auto simp: skip_step_def split: option.splits)
  with d show "pos < p"
    by (auto simp: skip_step_unfold result_simps split: if_splits
        dest!: get_uvarint_progress get_usize_progress many_up [OF skip_item_up [OF assms]]
          many_up [OF skip_member_up [OF assms]] many_up [OF get_uvarint_up])
qed

lemma skip_n_up: "skips_up (skip_n d False buf)"
proof (induction d)
  case 0
  show ?case by (simp add: skips_up_def)
next
  case (Suc d)
  have "skip_n (Suc d) False buf = skip_step False (skip_n d False buf) buf" by (rule ext) simp
  with skip_step_up [OF Suc] show ?case by (simp only:)
qed

lemma skip_step_cong:
  assumes "skips_up rec" "\<And>p. pos < p \<Longrightarrow> rec p = rec' p"
  shows "skip_step field rec buf pos = skip_step field rec' buf pos"
proof (cases "get_byte buf pos")
  case None
  then show ?thesis by (simp add: skip_step_def)
next
  case (Some tag)
  have items: "many (skip_item rec) n p = many (skip_item rec') n p"
    and members: "many (skip_member rec buf) n p = many (skip_member rec' buf) n p"
    if "get_usize buf (Suc pos) = Ok (n, p)" for n p
  proof -
    have p: "pos < p" using get_usize_progress [OF that] by simp
    then show "many (skip_item rec) n p = many (skip_item rec') n p"
      using assms by (intro many_cong_above [OF skip_item_up]) (auto simp: skip_item_def)
    have "skip_member rec buf q = skip_member rec' buf q" if "p \<le> q" for q
      unfolding skip_member_def using p that assms(2)
      by (intro and_then_cong refl)
        (auto simp: skip_item_def result_simps intro!: and_then_cong dest!: get_usize_progress)
    then show "many (skip_member rec buf) n p = many (skip_member rec' buf) n p"
      using assms by (intro many_cong_above [OF skip_member_up]) auto
  qed
  consider "tag = tag_list" | "tag = tag_object" | "tag \<noteq> tag_list" "tag \<noteq> tag_object" by blast
  then show ?thesis
  proof cases
    case 1
    with Some show ?thesis
      by (simp add: skip_step_unfold tag_defs) (rule and_then_cong, auto simp: items)
  next
    case 2
    with Some show ?thesis
      by (simp add: skip_step_unfold tag_defs) (rule and_then_cong, auto simp: members)
  next
    case 3
    with Some show ?thesis by (simp add: skip_step_unfold)
  qed
qed

lemma skip_n_enough:
  "length buf - pos < d \<Longrightarrow> length buf - pos < d' \<Longrightarrow> skip_n d field buf pos = skip_n d' field buf pos"
proof (induction d arbitrary: d' pos field)
  case 0
  then show ?case by simp
next
  case (Suc d)
  then obtain e where d': "d' = Suc e" by (cases d') auto
  show ?case
  proof (cases "pos < length buf")
    case True
    have "skip_n d False buf p = skip_n e False buf p" if "pos < p" for p
      using that True Suc.prems d' by (intro Suc.IH) auto
    then have "skip_step field (skip_n d False buf) buf pos = skip_step field (skip_n e False buf) buf pos"
      by (intro skip_step_cong [OF skip_n_up]) auto
    with d' show ?thesis by (simp only: skip_n.simps)
  next
    case False
    then have "get_byte buf pos = None" by (simp add: get_byte_def)
    with d' show ?thesis by (simp add: skip_step_def)
  qed
qed

section \<open>A path read off the bytes\<close>

lemma seek_key_at:
  assumes "at_pos buf at (concat (map (\<lambda>p. encode_str (fst p) @ encode_value (snd p)) ms))"
    and "keys_ascend ms" "length buf < 2 ^ 63"
    and "\<forall>p\<in>set ms. from_utf8 (fst p) \<and> length (fst p) < 2 ^ 63 \<and> wf_val (snd p)"
  shows "\<exists>p. seek_key buf k (length ms) at = Ok (map_of ms k \<noteq> None, p)
     \<and> (\<forall>v. map_of ms k = Some v \<longrightarrow> at_pos buf p (encode_value v))"
  using assms
proof (induction ms arbitrary: at)
  case Nil
  then show ?case by simp
next
  case (Cons m ms)
  let ?p = "at + length (encode_str (fst m))"
  have head: "at_pos buf at (put_len (fst m))" "at_pos buf (at + length (put_len (fst m))) (fst m)"
    "at_pos buf ?p (encode_value (snd m))"
    using Cons.prems(1) by (auto simp: at_pos_append encode_str_def add.assoc)
  have key: "and_then (get_usize buf at) (\<lambda>(len, at). and_then (take_bytes buf at len) K)
      = K (fst m, ?p)" for K :: "bytes \<times> nat \<Rightarrow> (bool \<times> nat) result"
    using head(1,2) Cons.prems(3,4) by (auto simp: at_simps encode_str_def add.assoc)
  have later: "\<forall>p\<in>set ms. fst m < fst p" "keys_ascend ms"
    using Cons.prems(2) by (auto simp: keys_ascend_def)
  consider "fst m < k" | "fst m = k" | "k < fst m" by fastforce
  then show ?case
  proof cases
    case 1
    have "at_pos buf (?p + length (encode_value (snd m)))
        (concat (map (\<lambda>p. encode_str (fst p) @ encode_value (snd p)) ms))"
      using Cons.prems(1) by (simp add: at_pos_append add.assoc)
    from Cons.IH [OF this later(2) Cons.prems(3)] Cons.prems(4)
    obtain p where p: "seek_key buf k (length ms) (?p + length (encode_value (snd m)))
        = Ok (map_of ms k \<noteq> None, p)" "\<forall>v. map_of ms k = Some v \<longrightarrow> at_pos buf p (encode_value v)"
      by auto
    have "skip_value buf ?p = Ok (?p + length (encode_value (snd m)))"
      using head(3) Cons.prems(3,4) by (intro skip_value_at) auto
    with 1 p show ?thesis by (cases m) (auto simp: key cmp_def)
  next
    case 2
    with head(3) show ?thesis by (cases m) (auto simp: key)
  next
    case 3
    then have "map_of (m # ms) k = None"
      using later(1) by (auto simp: map_of_eq_None_iff)
    with 3 show ?thesis by (auto simp: key cmp_def)
  qed
qed

lemma encode_value_tag: "hd (encode_value v) = tag_object \<longleftrightarrow> (\<exists>ms. v = VObject ms)"
  by (cases v) (auto simp: tag_defs)

lemma encode_value_not_Nil [simp]: "encode_value v \<noteq> []"
  by (cases v) auto

lemma walk_keys_at:
  assumes "at_pos buf at (encode_value v)" "wf_val v" "objects_sorted v" "length buf < 2 ^ 63"
  shows "(\<exists>p. walk_keys buf at ks = Ok (Some p) \<and> at_pos buf p (encode_value (at_keys v ks))
        \<and> wf_val (at_keys v ks))
     \<or> (walk_keys buf at ks = Ok None \<and> at_keys v ks = VNull)"
  using assms(1-3)
proof (induction ks arbitrary: at v)
  case Nil
  then show ?case by simp
next
  case (Cons k ks)
  have tag: "get_byte buf at = Some (hd (encode_value v))"
    using Cons.prems(1) by (cases "encode_value v") (simp_all add: at_pos_Cons)
  show ?case
  proof (cases "\<exists>ms. v = VObject ms")
    case False
    then have "member v k = None" by (cases v) auto
    with False tag encode_value_tag show ?thesis by simp
  next
    case True
    then obtain ms where v: "v = VObject ms" by blast
    let ?p = "Suc at + length (put_len ms)"
    have n: "get_usize buf (Suc at) = Ok (length ms, ?p)"
      and body: "at_pos buf ?p (concat (map (\<lambda>p. encode_str (fst p) @ encode_value (snd p)) ms))"
      using Cons.prems(1,2) v get_usize_put_len [of buf "Suc at" ms] by (auto simp: at_pos_Cons at_pos_append)
    from seek_key_at [OF body, of k] Cons.prems(2,3) v assms(4)
    obtain p where p: "seek_key buf k (length ms) ?p = Ok (map_of ms k \<noteq> None, p)"
      "\<forall>v. map_of ms k = Some v \<longrightarrow> at_pos buf p (encode_value v)" by auto
    have mem: "member v k = map_of ms k" using Cons.prems(3) v member_map_of by simp
    show ?thesis
    proof (cases "map_of ms k")
      case None
      with tag v n p mem show ?thesis by simp
    next
      case (Some x)
      then have "(k, x) \<in> set ms" by (rule map_of_SomeD)
      with Cons.prems(2,3) v have "wf_val x" "objects_sorted x" by fastforce+
      with Cons.IH [of p x] Some tag v n p mem show ?thesis by simp
    qed
  qed
qed

text \<open>Where the slot held a text, the text read lands in it: the value left is the same.\<close>

lemma decode_value_text:
  "get_byte buf at = Some tag_text
     \<Longrightarrow> decode_value buf at = and_then (decode_str buf (Suc at)) (\<lambda>(s, pos). Ok (VText s, pos))"
  by (subst decode_value_unfold) (simp add: decode_step_def tag_defs)

lemma decode_text_into_str:
  "decode_text_into buf pos s = (t, Ok p) \<Longrightarrow> decode_str buf pos = Ok (t, p)"
  by (auto simp: decode_text_into_def decode_str_def split: result.splits if_splits)

lemma decode_path_into_slot:
  assumes "snd (decode_path_into buf at keys slot) = Ok ()"
  shows "decode_path buf at keys = Ok (fst (decode_path_into buf at keys slot))"
proof (cases "walk_keys buf at (split_on dot keys)")
  case (Ok found)
  show ?thesis
  proof (cases found)
    case None
    with Ok show ?thesis by (simp add: decode_path_def decode_path_into_def)
  next
    case (Some p)
    show ?thesis
    proof (cases "get_byte buf p = Some tag_text \<and> (\<exists>s. slot = VText s)")
      case True
      then obtain s where slot: "slot = VText s" by blast
      obtain t r where t: "decode_text_into buf (Suc p) s = (t, r)" by fastforce
      with assms Ok Some True slot obtain q where "r = Ok q"
        by (auto simp: decode_path_into_def result_simps)
      with t have "decode_str buf (Suc p) = Ok (t, q)" by (simp add: decode_text_into_str)
      with Ok Some True slot t show ?thesis
        by (simp add: decode_path_def decode_path_into_def decode_value_text)
    next
      case False
      then have "decode_path_into buf at keys slot =
          (case decode_value buf p of Ok (v, _) \<Rightarrow> (v, Ok ()) | Err e \<Rightarrow> (slot, Err e) | Panic \<Rightarrow> (slot, Panic))"
        using Ok Some by (auto simp: decode_path_into_def split: val.splits bool.splits)
      with assms Ok Some show ?thesis
        by (auto simp: decode_path_def decode_path_into_def split: result.splits bool.splits)
    qed
  qed
qed (use assms in \<open>simp_all add: decode_path_into_def\<close>)

lemma decode_path_at:
  assumes "at_pos buf at (encode_value v)" "wf_val v" "objects_sorted v" "length buf < 2 ^ 63"
  shows "decode_path buf at keys = Ok (at_path v keys)"
proof -
  let ?ks = "split_on dot keys"
  consider p where "walk_keys buf at ?ks = Ok (Some p)" "at_pos buf p (encode_value (at_keys v ?ks))" "wf_val (at_keys v ?ks)"
    | "walk_keys buf at ?ks = Ok None" "at_keys v ?ks = VNull"
    using walk_keys_at [OF assms, of ?ks] by blast
  then show ?thesis
  proof cases
    case 1
    from decode_encode_value [OF assms(4) 1(3,2)] 1(1) show ?thesis
      by (simp add: decode_path_def decode_path_into_def at_path_def split: bool.splits)
  next
    case 2
    then show ?thesis by (simp add: decode_path_def decode_path_into_def at_path_def)
  qed
qed

section \<open>Properties\<close>

text \<open>
  C30: a skip passes over exactly what a read would have read, whatever the bytes: where a value
  decodes, both skips end where the decoding ends. A field past the payload's end is skipped in
  place.
\<close>

theorem skip_follows_decode:
  assumes "decode_value buf pos = Ok (v, p)"
  shows "skip_value buf pos = Ok p \<and> skip_field buf pos = Ok p \<and> skip_field buf (length buf) = Ok (length buf)"
  using skip_value_decode [OF assms] skip_field_decode [OF assms] skip_field_end [of buf "length buf"] by simp

theorem skip_follows_decode_witness:
  "skip_value [4, 2, 0x68, 0x69, 0] 0 = Ok 4 \<and> skip_field [4, 2, 0x68, 0x69, 0] 0 = Ok 4
   \<and> skip_field [4, 2, 0x68, 0x69, 0] (length [4 :: u8, 2, 0x68, 0x69, 0]) = Ok (length [4 :: u8, 2, 0x68, 0x69, 0])"
proof (rule skip_follows_decode)
  show "decode_value [4, 2, 0x68, 0x69, 0] 0 = Ok (VText [0x68, 0x69], 4)" by code_simp
qed

text \<open>
  C31: a path read off a stored value's bytes, the members before its keys skipped and none
  decoded, is the path into the value.
\<close>

theorem decode_path_reads_path:
  assumes "wf_val v" "objects_sorted v" "length (pre @ encode_value v @ post) < 2 ^ 63"
  shows "decode_path (pre @ encode_value v @ post) (length pre) keys = Ok (at_path v keys)"
  by (rule decode_path_at [OF _ assms]) simp

theorem decode_path_reads_path_witness:
  "decode_path ([5] @ encode_value (VObject [([0x61], VInt 1), ([0x62], VObject [([0x63], VBool True)])]) @ [])
     (length [5 :: u8]) [0x62, 0x2e, 0x63] = Ok (at_path (VObject [([0x61], VInt 1), ([0x62], VObject [([0x63], VBool True)])]) [0x62, 0x2e, 0x63])"
proof (rule decode_path_reads_path)
  show "length ([5] @ encode_value (VObject [([0x61], VInt 1), ([0x62], VObject [([0x63], VBool True)])]) @ []) < 2 ^ 63"
    by code_simp
qed (simp_all add: keys_ascend_def)

end
