(* ===== verification/Fenec_Document.thy ===== *)
theory Fenec_Document
  imports Fenec_Codec_Skip
begin

unbundle bit_operations_syntax

text \<open>
  A document as the store holds it: the values of its fields in schema order, one after
  another, a dropped field's place still there (\<open>Schema\<close> of \<open>fenec-core/src/schema.rs\<close>,
  \<open>Document\<close> of \<open>value.rs\<close>, \<open>Store::encode_doc_into\<close> of \<open>store.rs\<close>). The laws say what a
  schema reads of a payload another wrote: a field added since is null, a field dropped since is
  passed over, and a payload without its dropped places reads the same.
\<close>

section \<open>Schemas and documents\<close>

text \<open>What the document layer reads of a schema: its fields' names and types, and the dropped places.\<close>

record field =
  f_name :: bytes
  f_ty :: data_type

record schema =
  s_fields :: "field list"
  dropped_places :: "nat list"

record document =
  doc_id :: docid
  doc_fields :: "(bytes \<times> val) list"

definition doc_get :: "document \<Rightarrow> bytes \<Rightarrow> val option" where
  "doc_get d name = map_of (doc_fields d) name"

definition doc_at :: "document \<Rightarrow> bytes \<Rightarrow> val option" where
  "doc_at d name =
     (case split_once dot name of
        None \<Rightarrow> doc_get d name
      | Some (f, keys) \<Rightarrow> map_option (\<lambda>v. at_path v keys) (doc_get d f))"

fun set_first :: "bytes \<Rightarrow> val \<Rightarrow> (bytes \<times> val) list \<Rightarrow> (bytes \<times> val) list" where
  "set_first name v [] = [(name, v)]"
| "set_first name v ((k, w) # kvs) = (if k = name then (k, v) # kvs else (k, w) # set_first name v kvs)"

definition doc_set :: "bytes \<Rightarrow> val \<Rightarrow> document \<Rightarrow> document" where
  "doc_set name v d = d\<lparr>doc_fields := set_first name v (doc_fields d)\<rparr>"

fun place :: "nat list \<Rightarrow> nat \<Rightarrow> nat" where
  "place [] at = at"
| "place (d # ds) at = (if at < d then at else place ds (at + 1))"

definition schema_place :: "schema \<Rightarrow> nat \<Rightarrow> nat" where
  "schema_place s pos = place (dropped_places s) pos"

definition width :: "schema \<Rightarrow> nat" where
  "width s = length (s_fields s) + length (dropped_places s)"

section \<open>Writing and reading\<close>

definition or_null :: "val option \<Rightarrow> val" where
  "or_null v = (case v of Some v \<Rightarrow> v | None \<Rightarrow> VNull)"

fun encode_fields :: "schema \<Rightarrow> document \<Rightarrow> nat \<Rightarrow> nat \<Rightarrow> field list \<Rightarrow> bytes" where
  "encode_fields s d i at [] = []"
| "encode_fields s d i at (f # fs) =
     (let want = schema_place s i
      in replicate (want - at) tag_null
           @ encode_value_as (or_null (doc_get d (f_name f))) (Some (f_ty f))
           @ encode_fields s d (i + 1) (max at want + 1) fs)"

definition encode_doc :: "schema \<Rightarrow> document \<Rightarrow> bytes" where
  "encode_doc s d = encode_fields s d 0 0 (s_fields s)"

primrec skip_fields :: "bytes \<Rightarrow> nat \<Rightarrow> usize \<Rightarrow> usize result" where
  "skip_fields buf 0 pos = Ok pos"
| "skip_fields buf (Suc n) pos = and_then (skip_field buf pos) (skip_fields buf n)"

fun read_fields_loop :: "schema \<Rightarrow> bytes \<Rightarrow> nat \<Rightarrow> nat \<Rightarrow> usize \<Rightarrow> field list \<Rightarrow> (bytes \<times> val) list result" where
  "read_fields_loop s buf i at pos [] = Ok []"
| "read_fields_loop s buf i at pos (f # fs) =
     (let want = schema_place s i in
      and_then (skip_fields buf (want - at) pos) (\<lambda>pos.
      and_then (if pos < length buf then decode_value buf pos else Ok (VNull, pos)) (\<lambda>(v, pos).
      and_then (read_fields_loop s buf (i + 1) (max at want + 1) pos fs) (\<lambda>rest.
        Ok ((f_name f, v) # rest)))))"

definition read_doc :: "schema \<Rightarrow> docid \<Rightarrow> bytes \<Rightarrow> document result" where
  "read_doc s doc buf = map_ok (\<lambda>fs. \<lparr>doc_id = doc, doc_fields = fs\<rparr>) (read_fields_loop s buf 0 0 0 (s_fields s))"

text \<open>
  \<open>buf[from..pos]\<close> panics past the end: a value cut short after a bool's tag is skipped to
  one byte beyond it.
\<close>

lemma skip_value_up: "skip_value buf pos = Ok p \<Longrightarrow> pos < p"
  using skip_n_up [of "Suc (length buf)" buf] by (simp add: skip_value_def skips_up_def)

function without_dropped_loop :: "schema \<Rightarrow> bytes \<Rightarrow> usize \<Rightarrow> nat \<Rightarrow> bytes result" where
  "without_dropped_loop s buf pos at =
     (if pos < length buf then
        (case skip_value buf pos of
           Ok p \<Rightarrow>
             (if at \<in> set (dropped_places s) then without_dropped_loop s buf p (at + 1)
              else if length buf < p then Panic
              else map_ok (\<lambda>rest. take (p - pos) (drop pos buf) @ rest) (without_dropped_loop s buf p (at + 1)))
         | Err e \<Rightarrow> Err e
         | Panic \<Rightarrow> Panic)
      else Ok [])"
  by pat_completeness auto
termination
  by (relation "measure (\<lambda>(s, buf, pos, at). length buf - pos)") (auto dest: skip_value_up)

declare without_dropped_loop.simps [simp del]

definition without_dropped :: "schema \<Rightarrow> bytes \<Rightarrow> bytes result" where
  "without_dropped s buf = without_dropped_loop s buf 0 0"

text \<open>
  The schema's part of \<open>alter collection\<close>: a field added goes last, a field dropped leaves its
  place behind, in the order of the places.
\<close>

definition add_field :: "field \<Rightarrow> schema \<Rightarrow> schema" where
  "add_field f s = s\<lparr>s_fields := s_fields s @ [f]\<rparr>"

definition drop_field :: "nat \<Rightarrow> schema \<Rightarrow> schema" where
  "drop_field pos s =
     (let p = schema_place s pos; at = partition_point (\<lambda>d. d < p) (dropped_places s)
      in \<lparr>s_fields = take pos (s_fields s) @ drop (pos + 1) (s_fields s),
          dropped_places = take at (dropped_places s) @ p # drop at (dropped_places s)\<rparr>)"

section \<open>Places\<close>

text \<open>
  The place of a field passes over the dropped places before it, and no others: with the
  places ascending it is the one number outside them with as many of them below it.
\<close>

lemma place_split:
  assumes "sorted_wrt (<) ds"
  shows "\<exists>t \<le> length ds. place ds at = at + t
     \<and> (\<forall>d\<in>set (take t ds). d < place ds at) \<and> (\<forall>d\<in>set (drop t ds). place ds at < d)"
  using assms
proof (induction ds arbitrary: at)
  case Nil
  then show ?case by simp
next
  case (Cons d ds)
  show ?case
  proof (cases "at < d")
    case True
    with Cons.prems show ?thesis by (intro exI [of _ 0]) auto
  next
    case False
    from Cons.prems have "sorted_wrt (<) ds" by simp
    from Cons.IH [OF this, of "at + 1"] obtain t where "t \<le> length ds" "place ds (at + 1) = at + 1 + t"
      "\<forall>d\<in>set (take t ds). d < place ds (at + 1)" "\<forall>d\<in>set (drop t ds). place ds (at + 1) < d"
      by blast
    with False show ?thesis by (intro exI [of _ "Suc t"]) auto
  qed
qed

lemma card_below:
  fixes ds :: "nat list"
  assumes "sorted_wrt (<) ds" "t \<le> length ds" "\<forall>d\<in>set (take t ds). d < p" "\<forall>d\<in>set (drop t ds). p < d"
  shows "card {d \<in> set ds. d < p} = t"
proof -
  have "set ds = set (take t ds) \<union> set (drop t ds)" by (metis append_take_drop_id set_append)
  moreover have "\<not> d < p" if "d \<in> set (drop t ds)" for d using assms(4) that by (meson less_asym)
  ultimately have "{d \<in> set ds. d < p} = set (take t ds)" using assms(3) by blast
  moreover have "distinct (take t ds)" using assms(1) by (simp add: strict_sorted_iff)
  ultimately show ?thesis using assms(2) by (simp add: distinct_card)
qed

lemma place_spec:
  assumes "sorted_wrt (<) ds"
  shows "place ds i \<notin> set ds \<and> place ds i = i + card {d \<in> set ds. d < place ds i}"
proof -
  obtain t where t: "t \<le> length ds" "place ds i = i + t"
    "\<forall>d\<in>set (take t ds). d < place ds i" "\<forall>d\<in>set (drop t ds). place ds i < d"
    using place_split [OF assms] by blast
  have "place ds i \<notin> set (take t ds) \<union> set (drop t ds)" using t(3,4) by blast
  then have "place ds i \<notin> set ds" by (metis append_take_drop_id set_append)
  with card_below [OF assms t(1,3,4)] t(2) show ?thesis by simp
qed

lemma card_split:
  fixes p q :: nat
  assumes "p < q" "finite D"
  shows "card {d \<in> D. d < q} = card {d \<in> D. d < p} + card {d \<in> D. p \<le> d \<and> d < q}"
proof -
  have "{d \<in> D. d < q} = {d \<in> D. d < p} \<union> {d \<in> D. p \<le> d \<and> d < q}" using assms(1) by auto
  moreover have "{d \<in> D. d < p} \<inter> {d \<in> D. p \<le> d \<and> d < q} = {}" by auto
  ultimately show ?thesis using assms(2) by (simp add: card_Un_disjoint)
qed

lemma place_lt:
  fixes p q i j :: nat
  assumes "p < q" "finite D" "p \<notin> D" "p = i + card {d \<in> D. d < p}" "q = j + card {d \<in> D. d < q}"
  shows "i < j"
proof -
  have "card {d \<in> D. p \<le> d \<and> d < q} \<le> card {p<..<q}"
    using assms(3) by (intro card_mono) (auto simp: le_less)
  then have "card {d \<in> D. p \<le> d \<and> d < q} \<le> q - p - 1" by simp
  with card_split [OF assms(1,2)] assms(1,4,5) show ?thesis by linarith
qed

lemma place_unique:
  assumes "sorted_wrt (<) ds" "p \<notin> set ds" "p = i + card {d \<in> set ds. d < p}"
  shows "place ds i = p"
proof -
  note P = place_spec [OF assms(1), of i]
  show ?thesis
    using place_lt [of "place ds i" p "set ds" i i] place_lt [of p "place ds i" "set ds" i i] P assms(2,3)
    by (metis List.finite_set linorder_neqE_nat less_irrefl)
qed

lemma place_mono:
  assumes "sorted_wrt (<) ds" "i < j"
  shows "place ds i < place ds j"
proof -
  note P = place_spec [OF assms(1), of i] place_spec [OF assms(1), of j]
  have "place ds i \<noteq> place ds j" using P assms(2) by (metis add_right_cancel less_irrefl)
  moreover have "\<not> place ds j < place ds i"
    using place_lt [of "place ds j" "place ds i" "set ds" j i] P assms(2) by auto
  ultimately show ?thesis by simp
qed

lemma place_ge: "i \<le> place ds i"
  by (induction ds i rule: place.induct) auto

section \<open>What a payload holds\<close>

text \<open>A payload is the run of these values, to its end.\<close>

fun decodes :: "bytes \<Rightarrow> usize \<Rightarrow> val list \<Rightarrow> bool" where
  "decodes buf pos [] \<longleftrightarrow> pos = length buf"
| "decodes buf pos (v # vs) \<longleftrightarrow>
     (case decode_value buf pos of Ok (w, p) \<Rightarrow> w = v \<and> decodes buf p vs | Err e \<Rightarrow> False | Panic \<Rightarrow> False)"

definition held_at :: "val list \<Rightarrow> nat \<Rightarrow> val" where
  "held_at vs k = (if k < length vs then vs ! k else VNull)"

lemma decodes_Cons:
  "decodes buf pos (v # vs) \<longleftrightarrow> (\<exists>p. decode_value buf pos = Ok (v, p) \<and> decodes buf p vs)"
  by (auto split: result.splits)

lemma decodes_le: "decodes buf pos vs \<Longrightarrow> pos \<le> length buf \<and> (vs \<noteq> [] \<longrightarrow> pos < length buf)"
proof (induction vs arbitrary: pos)
  case Nil
  then show ?case by simp
next
  case (Cons v vs)
  then obtain p where "decode_value buf pos = Ok (v, p)" unfolding decodes_Cons by blast
  with decode_value_progress [OF this] show ?case by simp
qed

lemma skip_fields_decodes:
  "decodes buf pos vs \<Longrightarrow> \<exists>p. skip_fields buf n pos = Ok p \<and> decodes buf p (drop n vs)"
proof (induction n arbitrary: pos vs)
  case 0
  then show ?case by simp
next
  case (Suc n)
  show ?case
  proof (cases vs)
    case Nil
    with Suc.prems have e: "pos = length buf" by simp
    then have "skip_field buf pos = Ok pos" by (simp add: skip_field_end)
    with Suc.IH [of pos "[]"] Nil e show ?thesis by simp
  next
    case (Cons v ws)
    with Suc.prems obtain p where "decode_value buf pos = Ok (v, p)" "decodes buf p ws"
      unfolding Cons decodes_Cons by blast
    with Suc.IH [of p ws] Cons skip_field_decode show ?thesis by simp
  qed
qed

text \<open>One value read at its place, the payload's end read as null; what follows is still there.\<close>

lemma read_one:
  assumes "decodes buf pos vs"
  shows "\<exists>p. (if pos < length buf then decode_value buf pos else Ok (VNull, pos)) = Ok (held_at vs 0, p)
     \<and> decodes buf p (drop 1 vs)"
proof (cases vs)
  case Nil
  with assms show ?thesis by (simp add: held_at_def)
next
  case (Cons v ws)
  with assms decodes_le [OF assms] show ?thesis unfolding Cons decodes_Cons by (auto simp: held_at_def)
qed

lemma held_at_drop [simp]: "held_at (drop n vs) k = held_at vs (n + k)"
  by (auto simp: held_at_def)

lemma read_fields_loop_decodes:
  assumes "sorted_wrt (<) (dropped_places s)" "at \<le> schema_place s i" "decodes buf pos (drop at vs)"
  shows "read_fields_loop s buf i at pos fs
     = Ok (map (\<lambda>(j, f). (f_name f, held_at vs (schema_place s j))) (enumerate i fs))"
  using assms(2,3)
proof (induction fs arbitrary: i at pos)
  case Nil
  then show ?case by simp
next
  case (Cons f fs)
  let ?w = "schema_place s i"
  obtain p where p: "skip_fields buf (?w - at) pos = Ok p" "decodes buf p (drop ?w vs)"
    using skip_fields_decodes [OF Cons.prems(2), of "?w - at"] Cons.prems(1) by auto
  obtain q where q: "(if p < length buf then decode_value buf p else Ok (VNull, p)) = Ok (held_at vs ?w, q)"
    "decodes buf q (drop (?w + 1) vs)"
    using read_one [OF p(2)] by auto
  have "?w + 1 \<le> schema_place s (i + 1)"
    using place_mono [OF assms(1), of i "i + 1"] by (simp add: schema_place_def)
  from Cons.IH [OF this q(2)] p q(1) Cons.prems(1) show ?case by (simp add: max_def Let_def)
qed

lemma read_doc_decodes:
  assumes "sorted_wrt (<) (dropped_places s)" "decodes buf 0 vs"
  shows "read_doc s doc buf = Ok \<lparr>doc_id = doc,
     doc_fields = map (\<lambda>(j, f). (f_name f, held_at vs (schema_place s j))) (enumerate 0 (s_fields s))\<rparr>"
  using read_fields_loop_decodes [OF assms(1), of 0 0 buf 0 vs "s_fields s"] assms(2)
  by (simp add: read_doc_def)

section \<open>What is written\<close>

fun written_vals :: "schema \<Rightarrow> document \<Rightarrow> nat \<Rightarrow> nat \<Rightarrow> field list \<Rightarrow> val list" where
  "written_vals s d i at [] = []"
| "written_vals s d i at (f # fs) =
     (let want = schema_place s i
      in replicate (want - at) VNull
           @ stored_as (or_null (doc_get d (f_name f))) (Some (f_ty f))
           # written_vals s d (i + 1) (max at want + 1) fs)"

definition written :: "schema \<Rightarrow> document \<Rightarrow> val list" where
  "written s d = written_vals s d 0 0 (s_fields s)"

definition wf_doc :: "document \<Rightarrow> bool" where
  "wf_doc d \<longleftrightarrow> (\<forall>kv\<in>set (doc_fields d). wf_val (snd kv))"

lemma wf_doc_get: "wf_doc d \<Longrightarrow> wf_val (or_null (doc_get d k))"
  by (fastforce simp: wf_doc_def or_null_def doc_get_def dest: map_of_SomeD split: option.splits)

lemma decodes_nulls:
  assumes "length buf < 2 ^ 63" "at_pos buf pos (replicate n tag_null)" "decodes buf (pos + n) vs"
  shows "decodes buf pos (replicate n VNull @ vs)"
  using assms(2,3)
proof (induction n arbitrary: pos)
  case 0
  then show ?case by simp
next
  case (Suc n)
  then have "at_pos buf pos (encode_value VNull)" "at_pos buf (Suc pos) (replicate n tag_null)"
    by (auto simp: at_simps dest: at_pos_le)
  with decode_encode_value [OF assms(1), of VNull pos] Suc.IH [of "Suc pos"] Suc.prems(2) show ?case
    by simp
qed

lemma encode_fields_decodes:
  assumes "wf_doc d" "length buf < 2 ^ 63" "buf = pre @ encode_fields s d i at fs"
  shows "decodes buf (length pre) (written_vals s d i at fs)"
  using assms(3)
proof (induction fs arbitrary: pre i at)
  case Nil
  then show ?case by simp
next
  case (Cons f fs)
  let ?w = "schema_place s i" and ?v = "or_null (doc_get d (f_name f))"
  let ?n = "replicate (?w - at) tag_null" and ?e = "encode_value_as ?v (Some (f_ty f))"
  have buf: "buf = (pre @ ?n @ ?e) @ encode_fields s d (i + 1) (max at ?w + 1) fs"
    using Cons.prems by (simp add: Let_def)
  then have n: "at_pos buf (length pre) ?n"
    using at_pos_whole [of pre ?n] by simp
  have "at_pos buf (length (pre @ ?n)) ?e"
    using at_pos_whole [of "pre @ ?n" ?e] buf by simp
  from decode_encode_value_as [OF assms(2) wf_doc_get [OF assms(1)] this] Cons.IH [OF buf]
  have "decodes buf (length pre + (?w - at)) (stored_as ?v (Some (f_ty f)) # written_vals s d (i + 1) (max at ?w + 1) fs)"
    by (simp add: add.assoc)
  with decodes_nulls [OF assms(2) n] show ?case by (simp add: Let_def)
qed

lemma encode_doc_decodes:
  "wf_doc d \<Longrightarrow> length (encode_doc s d) < 2 ^ 63 \<Longrightarrow> decodes (encode_doc s d) 0 (written s d)"
  using encode_fields_decodes [of d "encode_doc s d" "[]" s 0 0 "s_fields s"]
  by (simp add: encode_doc_def written_def)

lemma written_vals_held:
  assumes "sorted_wrt (<) (dropped_places s)" "at \<le> schema_place s i" "j < length fs"
  shows "held_at (written_vals s d i at fs) (schema_place s (i + j) - at)
     = stored_as (or_null (doc_get d (f_name (fs ! j)))) (Some (f_ty (fs ! j)))"
  using assms(2,3)
proof (induction fs arbitrary: i at j)
  case Nil
  then show ?case by simp
next
  case (Cons f fs)
  let ?w = "schema_place s i"
  show ?case
  proof (cases j)
    case 0
    then show ?thesis by (simp add: held_at_def Let_def nth_append)
  next
    case (Suc k)
    have le: "?w + 1 \<le> schema_place s (i + 1)" "?w + 1 \<le> schema_place s (i + j)"
      using place_mono [OF assms(1), of i "i + 1"] place_mono [OF assms(1), of i "i + j"] Suc
      by (auto simp: schema_place_def)
    let ?vs = "written_vals s d (i + 1) (?w + 1) fs"
    have m: "max at ?w = ?w" using Cons.prems(1) by simp
    obtain x where x: "written_vals s d i at (f # fs) = (replicate (?w - at) VNull @ [x]) @ ?vs"
      using m by (simp add: Let_def)
    have *: "held_at (xs @ ys) (length xs + n) = held_at ys n" for xs ys n by (simp add: held_at_def nth_append)
    have "held_at (written_vals s d i at (f # fs)) (schema_place s (i + j) - at)
        = held_at ?vs (schema_place s (i + 1 + k) - (?w + 1))"
    proof -
      have "length (replicate (?w - at) VNull @ [x]) + (schema_place s (i + j) - (?w + 1)) = schema_place s (i + j) - at"
        using le(2) Cons.prems(1) by simp
      with * [of "replicate (?w - at) VNull @ [x]" ?vs "schema_place s (i + j) - (?w + 1)"] x Suc show ?thesis
        by (simp only: add_Suc_right add_Suc add.right_neutral Suc_eq_plus1 add.assoc add.commute [of 1])
    qed
    also have "\<dots> = stored_as (or_null (doc_get d (f_name (fs ! k)))) (Some (f_ty (fs ! k)))"
      using Cons.IH [OF le(1), of k] Cons.prems(2) Suc by simp
    finally show ?thesis using Suc by simp
  qed
qed

lemma written_held:
  assumes "sorted_wrt (<) (dropped_places s)" "j < length (s_fields s)"
  shows "held_at (written s d) (schema_place s j)
     = stored_as (or_null (doc_get d (f_name (s_fields s ! j)))) (Some (f_ty (s_fields s ! j)))"
  using written_vals_held [OF assms(1), of 0 0 j "s_fields s" d] assms(2) by (simp add: written_def)

lemma length_written_vals:
  assumes "sorted_wrt (<) (dropped_places s)" "at \<le> schema_place s i"
  shows "length (written_vals s d i at fs) + at \<le> schema_place s (i + length fs)"
  using assms(2)
proof (induction fs arbitrary: i at)
  case Nil
  then show ?case by simp
next
  case (Cons f fs)
  have le: "schema_place s i + 1 \<le> schema_place s (i + 1)"
    using place_mono [OF assms(1), of i "i + 1"] by (simp add: schema_place_def)
  from Cons.IH [OF le] Cons.prems show ?case by (simp add: Let_def max_def)
qed

section \<open>Dropping a place\<close>

lemma insert_place_sorted:
  fixes p :: nat
  assumes "sorted_wrt (<) ds" "p \<notin> set ds" "n = partition_point (\<lambda>d. d < p) ds"
  shows "sorted_wrt (<) (take n ds @ p # drop n ds) \<and> set (take n ds @ p # drop n ds) = insert p (set ds)"
proof -
  have s: "sorted_wrt (\<lambda>x y. y < p \<longrightarrow> x < p) ds"
    by (rule sorted_wrt_mono_rel [OF _ assms(1)]) simp
  have lt: "\<forall>d\<in>set (take n ds). d < p" and ge: "\<forall>d\<in>set (drop n ds). \<not> d < p"
    using take_partition_point [OF s] drop_partition_point [OF s] by (auto simp: assms(3))
  have "set ds = set (take n ds) \<union> set (drop n ds)" by (metis append_take_drop_id set_append)
  moreover have "\<forall>d\<in>set (drop n ds). p < d" using ge assms(2) by (metis in_set_dropD linorder_neqE_nat)
  moreover have "sorted_wrt (<) (take n ds)" "sorted_wrt (<) (drop n ds)"
    using assms(1) by (auto intro: sorted_wrt_take sorted_wrt_drop)
  ultimately show ?thesis using lt by (fastforce simp: sorted_wrt_append)
qed

lemma place_after_drop:
  assumes "sorted_wrt (<) ds" "sorted_wrt (<) es" "set es = insert (place ds k) (set ds)"
  shows "place es i = (if i < k then place ds i else place ds (i + 1))"
proof (cases "i < k")
  case True
  note P = place_spec [OF assms(1), of i]
  have lt: "place ds i < place ds k" using True assms(1) by (simp add: place_mono)
  then have "{d \<in> set es. d < place ds i} = {d \<in> set ds. d < place ds i}" using assms(3) by auto
  with P lt assms(3) True place_unique [OF assms(2), of "place ds i" i] show ?thesis by simp
next
  case False
  note P = place_spec [OF assms(1), of "i + 1"]
  have lt: "place ds k < place ds (i + 1)" using False assms(1) by (simp add: place_mono)
  then have "{d \<in> set es. d < place ds (i + 1)} = insert (place ds k) {d \<in> set ds. d < place ds (i + 1)}"
    using assms(3) by auto
  moreover have "place ds k \<notin> set ds" using place_spec [OF assms(1)] by blast
  ultimately have "card {d \<in> set es. d < place ds (i + 1)} = Suc (card {d \<in> set ds. d < place ds (i + 1)})" by simp
  moreover have "place ds (i + 1) \<notin> set es" using P lt assms(3) by auto
  ultimately show ?thesis using P False place_unique [OF assms(2), of "place ds (i + 1)" i] by simp
qed

lemma drop_field_place:
  assumes "sorted_wrt (<) (dropped_places s)"
  shows "sorted_wrt (<) (dropped_places (drop_field k s))"
    "schema_place (drop_field k s) i = (if i < k then schema_place s i else schema_place s (i + 1))"
proof -
  let ?p = "schema_place s k" and ?ds = "dropped_places s"
  have "?p \<notin> set ?ds" using place_spec [OF assms] by (simp add: schema_place_def)
  note I = insert_place_sorted [OF assms this refl]
  show s: "sorted_wrt (<) (dropped_places (drop_field k s))" using I by (simp add: drop_field_def Let_def)
  have "set (dropped_places (drop_field k s)) = insert (place ?ds k) (set ?ds)"
    using I by (simp add: drop_field_def Let_def schema_place_def)
  from place_after_drop [OF assms s this]
  show "schema_place (drop_field k s) i = (if i < k then schema_place s i else schema_place s (i + 1))"
    by (simp add: schema_place_def)
qed

section \<open>A payload without its dropped places\<close>

fun kept_vals :: "nat list \<Rightarrow> nat \<Rightarrow> val list \<Rightarrow> val list" where
  "kept_vals ds at [] = []"
| "kept_vals ds at (v # vs) = (if at \<in> set ds then kept_vals ds (at + 1) vs else v # kept_vals ds (at + 1) vs)"

lemma kept_vals_append: "kept_vals ds at (xs @ ys) = kept_vals ds at xs @ kept_vals ds (at + length xs) ys"
  by (induction ds at xs rule: kept_vals.induct) auto

lemma length_kept_vals:
  "length (kept_vals ds at vs) = card {k. at \<le> k \<and> k < at + length vs \<and> k \<notin> set ds}"
proof (induction ds at vs rule: kept_vals.induct)
  case (1 ds at)
  then show ?case by simp
next
  case (2 ds at v vs)
  let ?S = "{k. at + 1 \<le> k \<and> k < at + 1 + length vs \<and> k \<notin> set ds}"
  have "finite ?S" by simp
  moreover have "{k. at \<le> k \<and> k < at + length (v # vs) \<and> k \<notin> set ds} = (if at \<in> set ds then ?S else insert at ?S)"
    by (auto simp: Suc_le_eq le_less)
  ultimately show ?case using 2 by auto
qed

lemma card_outside:
  fixes p :: nat
  assumes "finite D"
  shows "card {k. k < p \<and> k \<notin> D} + card {d \<in> D. d < p} = p"
proof -
  have "card ({k. k < p \<and> k \<notin> D} \<union> {d \<in> D. d < p}) = card {k. k < p \<and> k \<notin> D} + card {d \<in> D. d < p}"
    using assms by (intro card_Un_disjoint) auto
  moreover have "{k. k < p \<and> k \<notin> D} \<union> {d \<in> D. d < p} = {..<p}" by auto
  ultimately show ?thesis by simp
qed

lemma kept_held:
  assumes "sorted_wrt (<) ds"
  shows "held_at (kept_vals ds 0 vs) i = held_at vs (place ds i)"
proof -
  let ?p = "place ds i"
  note P = place_spec [OF assms, of i]
  have i: "card {k. k < ?p \<and> k \<notin> set ds} = i" using card_outside [of "set ds" ?p] P by simp
  show ?thesis
  proof (cases "?p < length vs")
    case True
    have "length (kept_vals ds 0 (take ?p vs)) = i" using i True by (simp add: length_kept_vals min_def)
    moreover have "kept_vals ds 0 vs = kept_vals ds 0 (take ?p vs) @ vs ! ?p # kept_vals ds (?p + 1) (drop (Suc ?p) vs)"
      using kept_vals_append [of ds 0 "take ?p vs" "vs ! ?p # drop (Suc ?p) vs"] P True
        id_take_nth_drop [OF True] by simp
    ultimately show ?thesis using True by (simp add: held_at_def nth_append)
  next
    case False
    have "length (kept_vals ds 0 vs) \<le> card {k. k < ?p \<and> k \<notin> set ds}"
      using False unfolding length_kept_vals by (intro card_mono) auto
    with i False show ?thesis by (simp add: held_at_def)
  qed
qed

text \<open>Bytes that decode to a value wherever they lie.\<close>

definition encodes :: "bytes \<Rightarrow> val \<Rightarrow> bool" where
  "encodes bs v \<longleftrightarrow>
     (\<forall>pre post. length (pre @ bs @ post) < 2 ^ 63
        \<longrightarrow> decode_value (pre @ bs @ post) (length pre) = Ok (v, length pre + length bs))"

lemma encode_value_as_encodes: "wf_val v \<Longrightarrow> encodes (encode_value_as v ty) (stored_as v ty)"
  by (auto simp: encodes_def intro!: decode_encode_value_as)

lemma null_encodes: "encodes [tag_null] VNull"
  using encode_value_as_encodes [of VNull None] by (simp add: encode_value_as_def stored_as_def)

lemma decodes_concat:
  assumes "list_all2 encodes bss vs" "length (pre @ concat bss) < 2 ^ 63"
  shows "decodes (pre @ concat bss) (length pre) vs"
  using assms
proof (induction bss vs arbitrary: pre rule: list_all2_induct)
  case Nil
  then show ?case by simp
next
  case (Cons bs bss v vs)
  have "decode_value (pre @ bs @ concat bss) (length pre) = Ok (v, length pre + length bs)"
    using Cons.hyps(1) Cons.prems by (simp add: encodes_def)
  with Cons.IH [of "pre @ bs"] Cons.prems show ?case by simp
qed

fun kept_runs :: "nat list \<Rightarrow> nat \<Rightarrow> bytes list \<Rightarrow> bytes list" where
  "kept_runs ds at [] = []"
| "kept_runs ds at (b # bs) = (if at \<in> set ds then kept_runs ds (at + 1) bs else b # kept_runs ds (at + 1) bs)"

lemma kept_runs_encodes:
  "list_all2 encodes bss vs \<Longrightarrow> list_all2 encodes (kept_runs ds at bss) (kept_vals ds at vs)"
  by (induction bss vs arbitrary: at rule: list_all2_induct) auto

lemma length_kept_runs: "length (concat (kept_runs ds at bss)) \<le> length (concat bss)"
  by (induction ds at bss rule: kept_runs.induct) auto

lemma without_dropped_loop_runs:
  assumes "list_all2 encodes bss vs" "length (pre @ concat bss) < 2 ^ 63"
  shows "without_dropped_loop s (pre @ concat bss) (length pre) at
     = Ok (concat (kept_runs (dropped_places s) at bss))"
  using assms
proof (induction bss vs arbitrary: pre at rule: list_all2_induct)
  case Nil
  then show ?case by (simp add: without_dropped_loop.simps)
next
  case (Cons bs bss v vs)
  have d: "decode_value (pre @ bs @ concat bss) (length pre) = Ok (v, length pre + length bs)"
    using Cons.hyps(1) Cons.prems by (simp add: encodes_def)
  from decode_value_progress [OF d] have "bs \<noteq> []" by auto
  with skip_value_decode [OF d] Cons.IH [of "pre @ bs" "at + 1"] Cons.prems show ?case
    by (simp add: without_dropped_loop.simps [of s _ "length pre"])
qed

lemma without_dropped_runs:
  assumes "list_all2 encodes bss vs" "length (concat bss) < 2 ^ 63"
  shows "\<exists>out. without_dropped s (concat bss) = Ok out \<and> decodes out 0 (kept_vals (dropped_places s) 0 vs)"
proof -
  let ?ds = "dropped_places s"
  have "decodes (concat (kept_runs ?ds 0 bss)) 0 (kept_vals ?ds 0 vs)"
    using length_kept_runs [of ?ds 0 bss] assms(2)
      decodes_concat [OF kept_runs_encodes [OF assms(1), of ?ds 0], of "[]"] by simp
  then show ?thesis using without_dropped_loop_runs [OF assms(1), of "[]" s 0] assms(2)
    by (simp add: without_dropped_def)
qed

lemma encode_fields_runs:
  assumes "wf_doc d"
  shows "\<exists>bss. encode_fields s d i at fs = concat bss \<and> list_all2 encodes bss (written_vals s d i at fs)"
proof (induction fs arbitrary: i at)
  case Nil
  show ?case by (intro exI [of _ "[]"]) simp
next
  case (Cons f fs)
  let ?w = "schema_place s i" and ?v = "or_null (doc_get d (f_name f))"
  obtain bss where b: "encode_fields s d (i + 1) (max at ?w + 1) fs = concat bss"
    "list_all2 encodes bss (written_vals s d (i + 1) (max at ?w + 1) fs)" using Cons by blast
  have n: "list_all2 encodes (replicate n [tag_null]) (replicate n VNull)" for n
    using null_encodes by (induction n) auto
  have "concat (replicate n [x]) = replicate n x" for n and x :: u8 by (induction n) auto
  with b n encode_value_as_encodes [OF wf_doc_get [OF assms]] show ?case
    by (intro exI [of _ "replicate (?w - at) [tag_null] @ encode_value_as ?v (Some (f_ty f)) # bss"])
      (auto simp: Let_def intro!: list_all2_appendI)
qed

section \<open>Properties\<close>

lemma enumerate_held:
  "map (\<lambda>(j, f). g j f) (enumerate 0 fs) = map (\<lambda>j. g j (fs ! j)) [0 ..< length fs]"
  by (rule nth_equalityI) (simp_all add: nth_enumerate_eq)

text \<open>
  C32: a document encoded by a schema is read back by it: every field the schema has, in its
  order, with the document's value as its type stores it, and null for a field the document lacks.
\<close>

theorem read_doc_encode_doc:
  assumes "sorted_wrt (<) (dropped_places s)" "wf_doc d" "length (encode_doc s d) < 2 ^ 63"
  shows "read_doc s (doc_id d) (encode_doc s d) = Ok \<lparr>doc_id = doc_id d,
     doc_fields = map (\<lambda>f. (f_name f, stored_as (or_null (doc_get d (f_name f))) (Some (f_ty f)))) (s_fields s)\<rparr>"
proof -
  have "map (\<lambda>j. (f_name (s_fields s ! j), held_at (written s d) (schema_place s j))) [0 ..< length (s_fields s)]
      = map (\<lambda>f. (f_name f, stored_as (or_null (doc_get d (f_name f))) (Some (f_ty f)))) (s_fields s)"
    by (rule nth_equalityI) (simp_all add: written_held [OF assms(1)])
  then show ?thesis
    using read_doc_decodes [OF assms(1) encode_doc_decodes [OF assms(2,3)], of "doc_id d"]
    by (simp add: enumerate_held)
qed

definition demo_schema :: schema where
  "demo_schema = \<lparr>s_fields = [\<lparr>f_name = [0x61], f_ty = TInt\<rparr>, \<lparr>f_name = [0x62], f_ty = TText\<rparr>],
     dropped_places = [1]\<rparr>"

definition demo_doc :: document where
  "demo_doc = \<lparr>doc_id = 7, doc_fields = [([0x62], VText [0x68, 0x69]), ([0x61], VInt 300)]\<rparr>"

lemma demo_ok:
  "sorted_wrt (<) (dropped_places demo_schema)" "wf_doc demo_doc" "length (encode_doc demo_schema demo_doc) = 8"
  "encode_doc demo_schema demo_doc = [2, 0xD8, 4, 0, 4, 2, 0x68, 0x69]"
  by (simp add: demo_schema_def) (simp add: wf_doc_def demo_doc_def, code_simp+)

theorem read_doc_encode_doc_witness:
  "read_doc demo_schema 7 [2, 0xD8, 4, 0, 4, 2, 0x68, 0x69] = Ok \<lparr>doc_id = 7,
     doc_fields = [([0x61], VInt 300), ([0x62], VText [0x68, 0x69])]\<rparr>"
proof -
  have "read_doc demo_schema (doc_id demo_doc) (encode_doc demo_schema demo_doc) = Ok \<lparr>doc_id = doc_id demo_doc,
     doc_fields = map (\<lambda>f. (f_name f, stored_as (or_null (doc_get demo_doc (f_name f))) (Some (f_ty f)))) (s_fields demo_schema)\<rparr>"
    by (rule read_doc_encode_doc) (simp_all add: demo_ok)
  then show ?thesis
    by (simp add: demo_ok) (simp add: demo_doc_def demo_schema_def or_null_def doc_get_def stored_as_def)
qed

text \<open>
  A field added to a schema reads as null in every document written before it, and the
  fields before it read as they did: no document is rewritten for it.
\<close>

lemma add_field_reads_null:
  assumes "sorted_wrt (<) (dropped_places s)" "wf_doc d" "length (encode_doc s d) < 2 ^ 63"
  shows "\<exists>fs. read_doc s doc (encode_doc s d) = Ok \<lparr>doc_id = doc, doc_fields = fs\<rparr>
     \<and> read_doc (add_field f s) doc (encode_doc s d) = Ok \<lparr>doc_id = doc, doc_fields = fs @ [(f_name f, VNull)]\<rparr>"
proof -
  let ?s = "add_field f s" and ?n = "length (s_fields s)"
  note D = encode_doc_decodes [OF assms(2,3)]
  have p: "schema_place ?s j = schema_place s j" for j by (simp add: schema_place_def add_field_def)
  have "length (written s d) \<le> schema_place s ?n"
    using length_written_vals [OF assms(1), of 0 0 d "s_fields s"] by (simp add: written_def)
  then have "held_at (written s d) (schema_place s ?n) = VNull" by (simp add: held_at_def)
  moreover have "sorted_wrt (<) (dropped_places ?s)" using assms(1) by (simp add: add_field_def)
  ultimately show ?thesis
    using read_doc_decodes [OF assms(1) D, of doc] read_doc_decodes [OF _ D, of ?s doc] p
    by (simp add: enumerate_append_eq) (simp add: add_field_def enumerate_append_eq)
qed

text \<open>
  C33: a field dropped from a schema is passed over in every payload, whichever schema wrote it:
  the other fields read as they did, at their places, and the places stay in order.
\<close>

theorem drop_field_passes_over:
  assumes "sorted_wrt (<) (dropped_places s)" "decodes buf 0 vs" "k < length (s_fields s)"
  shows "sorted_wrt (<) (dropped_places (drop_field k s))
     \<and> (\<exists>fs. read_doc s doc buf = Ok \<lparr>doc_id = doc, doc_fields = fs\<rparr>
       \<and> read_doc (drop_field k s) doc buf = Ok \<lparr>doc_id = doc, doc_fields = take k fs @ drop (k + 1) fs\<rparr>)"
proof -
  note P = drop_field_place [OF assms(1), of k]
  let ?f = "\<lambda>s j. (f_name (s_fields s ! j), held_at vs (schema_place s j))"
  let ?fs = "map (?f s) [0 ..< length (s_fields s)]"
  have sf: "s_fields (drop_field k s) = take k (s_fields s) @ drop (k + 1) (s_fields s)"
    by (simp add: drop_field_def Let_def)
  have "map (?f (drop_field k s)) [0 ..< length (s_fields (drop_field k s))] = take k ?fs @ drop (k + 1) ?fs"
    using assms(3) by (intro nth_equalityI) (auto simp: sf P(2) nth_append min_def)
  then show ?thesis
    using P(1) read_doc_decodes [OF assms(1,2), of doc] read_doc_decodes [OF P(1) assms(2), of doc]
    by (simp add: enumerate_held)
qed

theorem drop_field_passes_over_witness:
  "sorted_wrt (<) (dropped_places (drop_field 0 demo_schema))
     \<and> (\<exists>fs. read_doc demo_schema 7 (encode_doc demo_schema demo_doc) = Ok \<lparr>doc_id = 7, doc_fields = fs\<rparr>
       \<and> read_doc (drop_field 0 demo_schema) 7 (encode_doc demo_schema demo_doc)
         = Ok \<lparr>doc_id = 7, doc_fields = take 0 fs @ drop (0 + 1) fs\<rparr>)"
proof (rule drop_field_passes_over)
  show "sorted_wrt (<) (dropped_places demo_schema)" by (simp add: demo_ok)
  show "decodes (encode_doc demo_schema demo_doc) 0 (written demo_schema demo_doc)"
    by (rule encode_doc_decodes) (simp_all add: demo_ok)
  show "0 < length (s_fields demo_schema)" by (simp add: demo_schema_def)
qed

text \<open>
  The payload \<open>compact\<close> writes without the dropped places reads, under the schema without
  them, as the old payload did under the old one -- whatever schema had written it.
\<close>

lemma without_dropped_reads_same:
  assumes "sorted_wrt (<) (dropped_places s)" "wf_doc d" "length (encode_doc s0 d) < 2 ^ 63"
  shows "\<exists>out. without_dropped s (encode_doc s0 d) = Ok out
     \<and> read_doc (s\<lparr>dropped_places := []\<rparr>) doc out = read_doc s doc (encode_doc s0 d)"
proof -
  obtain bss where b: "encode_doc s0 d = concat bss" "list_all2 encodes bss (written s0 d)"
    using encode_fields_runs [OF assms(2), of s0 0 0 "s_fields s0"] by (auto simp: encode_doc_def written_def)
  let ?vs = "written s0 d"
  obtain out where out: "without_dropped s (encode_doc s0 d) = Ok out"
    "decodes out 0 (kept_vals (dropped_places s) 0 ?vs)"
    using without_dropped_runs [OF b(2), of s] assms(3) b(1) by auto
  have "place [] j = j" for j by simp
  with read_doc_decodes [OF _ out(2), of "s\<lparr>dropped_places := []\<rparr>" doc]
    read_doc_decodes [OF assms(1) encode_doc_decodes [OF assms(2,3)], of doc]
  show ?thesis using out(1) by (simp add: schema_place_def kept_held [OF assms(1)])
qed

end
