(* ===== verification/Fenec_Id_Map.thy ===== *)
theory Fenec_Id_Map
  imports Fenec_Prelude "HOL-Library.AList" "HOL-Library.Multiset"
begin

text \<open>
  The contract of a map kept by document id, as a locale: what \<open>IdIndex\<close> and \<open>DocMap\<close> of
  \<open>fenec-core/src/store.rs\<close> both promise their clients. The client lemmas, over a sequence
  of puts and removals in any order, are proved once here.
\<close>

section \<open>The contract\<close>

datatype 'v id_op = Put nat 'v | Remove nat

fun apply_op :: "'v id_op \<Rightarrow> (nat \<rightharpoonup> 'v) \<Rightarrow> (nat \<rightharpoonup> 'v)" where
  "apply_op (Put doc v) m = m(doc \<mapsto> v)"
| "apply_op (Remove doc) m = m(doc := None)"

fun op_id :: "'v id_op \<Rightarrow> nat" where
  "op_id (Put doc v) = doc"
| "op_id (Remove doc) = doc"

fun op_vals :: "'v id_op \<Rightarrow> 'v set" where
  "op_vals (Put doc v) = {v}"
| "op_vals (Remove doc) = {}"

locale id_map =
  fixes empty :: "'s"
    and put :: "nat \<Rightarrow> 'v \<Rightarrow> 's \<Rightarrow> 's"
    and remove :: "nat \<Rightarrow> 's \<Rightarrow> 's"
    and get :: "'s \<Rightarrow> nat \<Rightarrow> 'v option"
    and len :: "'s \<Rightarrow> nat"
    and invar :: "'s \<Rightarrow> bool"
    and ok :: "'v \<Rightarrow> bool"
  assumes get_empty: "get empty = Map.empty"
    and get_put: "invar s \<Longrightarrow> 1 \<le> doc \<Longrightarrow> ok v \<Longrightarrow> get (put doc v s) = (get s)(doc \<mapsto> v)"
    and get_remove: "invar s \<Longrightarrow> 1 \<le> doc \<Longrightarrow> get (remove doc s) = (get s)(doc := None)"
    and invar_empty: "invar empty"
    and invar_put: "invar s \<Longrightarrow> 1 \<le> doc \<Longrightarrow> ok v \<Longrightarrow> invar (put doc v s)"
    and invar_remove: "invar s \<Longrightarrow> 1 \<le> doc \<Longrightarrow> invar (remove doc s)"
    and finite_dom: "invar s \<Longrightarrow> finite (dom (get s))"
    and len_card: "invar s \<Longrightarrow> len s = card (dom (get s))"
begin

fun run_op :: "'v id_op \<Rightarrow> 's \<Rightarrow> 's" where
  "run_op (Put doc v) s = put doc v s"
| "run_op (Remove doc) s = remove doc s"

lemma run_op_refines:
  assumes "invar s" "1 \<le> op_id p" "\<forall>v\<in>op_vals p. ok v"
  shows "invar (run_op p s)" "get (run_op p s) = apply_op p (get s)"
  using assms by (cases p; simp add: get_put get_remove invar_put invar_remove)+

lemma run_refines:
  assumes "invar s" "\<forall>p\<in>set ops. 1 \<le> op_id p \<and> (\<forall>v\<in>op_vals p. ok v)"
  shows "invar (fold run_op ops s) \<and> get (fold run_op ops s) = fold apply_op ops (get s)"
  using assms
proof (induction ops arbitrary: s)
  case Nil
  then show ?case by simp
next
  case (Cons p ops)
  then show ?case using run_op_refines [of s p] by simp
qed

lemma len_after_run:
  assumes "\<forall>p\<in>set ops. 1 \<le> op_id p \<and> (\<forall>v\<in>op_vals p. ok v)"
  shows "len (fold run_op ops empty) = card (dom (fold apply_op ops Map.empty))"
  using run_refines [OF invar_empty assms] len_card by (simp add: get_empty)

lemma is_empty_iff: "invar s \<Longrightarrow> len s = 0 \<longleftrightarrow> get s = Map.empty"
  using len_card finite_dom by simp

end

section \<open>Arrays and hash maps beneath one\<close>

text \<open>
  A \<open>HashMap\<close> is an association list whose keys are distinct: the code looks keys up, and
  sorts them wherever it walks them, so no order of the list shows. \<open>slots\<close> is an array
  read by id, the first id 1.
\<close>

definition slots :: "('v \<Rightarrow> bool) \<Rightarrow> 'v list \<Rightarrow> nat \<rightharpoonup> 'v" where
  "slots none xs doc = (if 1 \<le> doc \<and> doc \<le> length xs \<and> \<not> none (xs ! (doc - 1)) then Some (xs ! (doc - 1)) else None)"

text \<open>A slot read first, the map where the slot is empty: what every state in between reads.\<close>

definition either :: "('v \<Rightarrow> bool) \<Rightarrow> 'v list \<Rightarrow> (nat \<times> 'v) list \<Rightarrow> nat \<rightharpoonup> 'v" where
  "either none xs m = map_of m ++ slots none xs"

lemma slots_update:
  "1 \<le> doc \<Longrightarrow> doc \<le> length xs \<Longrightarrow>
     slots none (xs[doc - 1 := v]) = (slots none xs)(doc := if none v then None else Some v)"
proof (rule ext)
  fix j
  assume "1 \<le> doc" "doc \<le> length xs"
  then show "slots none (xs[doc - 1 := v]) j
      = ((slots none xs)(doc := if none v then None else Some v)) j"
    by (cases "j = doc"; cases "j = 0") (auto simp: slots_def nth_list_update)
qed

lemma slots_grow: "none e \<Longrightarrow> slots none (xs @ replicate n e) = slots none xs"
  by (rule ext) (auto simp: slots_def nth_append)

lemma slots_Nil [simp]: "slots none [] = Map.empty"
  by (rule ext) (simp add: slots_def)

lemma slots_out: "length xs < doc \<Longrightarrow> slots none xs doc = None"
  by (simp add: slots_def)

lemma dom_slots: "dom (slots none xs) = Suc ` {i. i < length xs \<and> \<not> none (xs ! i)}"
proof -
  have "doc \<in> dom (slots none xs) \<longleftrightarrow> doc \<in> Suc ` {i. i < length xs \<and> \<not> none (xs ! i)}" for doc
    by (cases doc) (auto simp: slots_def split: if_splits)
  then show ?thesis by blast
qed

lemma card_dom_slots: "card (dom (slots none xs)) = length (filter (\<lambda>v. \<not> none v) xs)"
  by (simp add: dom_slots card_image length_filter_conv_card)

lemma finite_dom_slots [simp]: "finite (dom (slots none xs))"
  by (simp add: dom_slots)

lemma length_filter_update:
  assumes "i < length xs"
  shows "length (filter (\<lambda>v. \<not> none v) (xs[i := v])) + (if none (xs ! i) then 0 else 1)
     = length (filter (\<lambda>v. \<not> none v) xs) + (if none v then 0 else 1)"
  using assms
proof (induction xs arbitrary: i)
  case Nil
  then show ?case by simp
next
  case (Cons x xs)
  show ?case
  proof (cases i)
    case 0
    then show ?thesis by simp
  next
    case (Suc j)
    with Cons.prems have "j < length xs" by simp
    from Cons.IH [OF this] Suc show ?thesis by (simp split: if_splits)
  qed
qed

lemma delete_filter: "AList.delete k s = filter (\<lambda>p. fst p \<noteq> k) s"
  by (auto simp: AList.delete_eq intro!: filter_cong)

lemma delete_set_subset: "set (AList.delete k s) \<subseteq> set s"
  by (auto simp: delete_filter)

lemma length_delete:
  assumes "distinct (map fst s)" "map_of s k \<noteq> None"
  shows "Suc (length (AList.delete k s)) = length s"
  using assms
proof (induction s)
  case Nil
  then show ?case by simp
next
  case (Cons p s)
  show ?case
  proof (cases "fst p = k")
    case True
    with Cons.prems have "k \<notin> fst ` set s" by simp
    then have "AList.delete k s = s" by (force simp: delete_filter filter_id_conv)
    with True show ?thesis by (simp add: delete_filter)
  next
    case False
    with Cons show ?thesis by (cases p) (auto simp: delete_filter)
  qed
qed

end
