(* ===== verification/Fenec_Id_Index.thy ===== *)
theory Fenec_Id_Index
  imports Fenec_Id_Map
begin

unbundle bit_operations_syntax

text \<open>
  \<open>IdIndex\<close> of \<open>fenec-core/src/store.rs\<close>: where each document's record is, a dense array for
  the ids handed out from 1 and a hash map for those supplied far beyond it. Ids are at
  least 1 -- the engine refuses a document any other -- and below \<open>2 ^ 64\<close>.
\<close>

section \<open>Locations\<close>

record loc =
  seg :: u32
  off :: u32
  plen :: u32

definition loc_empty :: loc where
  "loc_empty = \<lparr>seg = 0xFFFFFFFF, off = 0, plen = 0\<rparr>"

definition loc_is_empty :: "loc \<Rightarrow> bool" where
  "loc_is_empty l \<longleftrightarrow> seg l = 0xFFFFFFFF"

lemma loc_is_empty_empty [simp]: "loc_is_empty loc_empty"
  by (simp add: loc_is_empty_def loc_empty_def)

section \<open>The index\<close>

record id_index =
  dense :: "loc list"
  sparse :: "(nat \<times> loc) list"
  sparse_floor :: nat
  count :: nat

definition max_dense_gap :: nat where
  "max_dense_gap = 4096"

definition docid_max :: nat where
  "docid_max = 2 ^ 64 - 1"

definition ix_default :: id_index where
  "ix_default = \<lparr>dense = [], sparse = [], sparse_floor = 0, count = 0\<rparr>"

definition in_dense :: "id_index \<Rightarrow> nat \<Rightarrow> bool" where
  "in_dense ix doc \<longleftrightarrow> 1 \<le> doc \<and> doc \<le> length (dense ix)"

definition ix_get :: "id_index \<Rightarrow> nat \<Rightarrow> loc option" where
  "ix_get ix doc =
     (if in_dense ix doc then
        (let l = dense ix ! (doc - 1) in if loc_is_empty l then None else Some l)
      else map_of (sparse ix) doc)"

definition resize :: "nat \<Rightarrow> 'a \<Rightarrow> 'a list \<Rightarrow> 'a list" where
  "resize n e xs = take n xs @ replicate (n - length xs) e"

text \<open>
  How far the array grows over a run of sparse ids, under the gap rule, and how many of
  the sorted keys it takes with it.
\<close>

fun reach :: "nat \<Rightarrow> nat list \<Rightarrow> nat \<times> nat" where
  "reach upto_id [] = (upto_id, 0)"
| "reach upto_id (k # ks) =
     (if upto_id < k \<and> max_dense_gap < k - upto_id then (upto_id, 0)
      else let (e, taken) = reach (max upto_id k) ks in (e, Suc taken))"

fun move_key :: "nat \<Rightarrow> loc list \<times> (nat \<times> loc) list \<Rightarrow> loc list \<times> (nat \<times> loc) list" where
  "move_key k (d, s) =
     (case map_of s k of
        Some l \<Rightarrow> (d[k - 1 := l], AList.delete k s)
      | None \<Rightarrow> (d, s))"

definition take_over_sparse :: "nat \<Rightarrow> id_index \<Rightarrow> id_index" where
  "take_over_sparse upto_id ix =
     (let keys = sort (map fst (sparse ix));
          (e, taken) = reach upto_id keys;
          d = (if length (dense ix) < e then resize e loc_empty (dense ix) else dense ix);
          (d, s) = fold move_key (take taken keys) (d, sparse ix)
      in ix\<lparr>dense := d, sparse := s,
            sparse_floor := (if taken < length keys then keys ! taken else docid_max)\<rparr>)"

definition set_slot :: "nat \<Rightarrow> loc \<Rightarrow> id_index \<Rightarrow> id_index" where
  "set_slot doc l ix =
     ix\<lparr>count := (if loc_is_empty (dense ix ! (doc - 1)) then count ix + 1 else count ix),
        dense := (dense ix)[doc - 1 := l]\<rparr>"

definition ix_insert :: "nat \<Rightarrow> loc \<Rightarrow> id_index \<Rightarrow> id_index" where
  "ix_insert doc l ix =
     (if in_dense ix doc then set_slot doc l ix
      else if 1 \<le> doc \<and> doc - length (dense ix) \<le> max_dense_gap then
        (let ix = ix\<lparr>dense := resize doc loc_empty (dense ix)\<rparr>;
             ix = (if sparse_floor ix \<le> doc then take_over_sparse doc ix else ix)
         in set_slot doc l ix)
      else
        (let ix = (if sparse ix = [] \<or> doc < sparse_floor ix then ix\<lparr>sparse_floor := doc\<rparr> else ix)
         in ix\<lparr>count := (if map_of (sparse ix) doc = None then count ix + 1 else count ix),
               sparse := AList.update doc l (sparse ix)\<rparr>))"

definition ix_remove :: "nat \<Rightarrow> id_index \<Rightarrow> id_index \<times> loc option" where
  "ix_remove doc ix =
     (if in_dense ix doc then
        (let old = dense ix ! (doc - 1) in
         if loc_is_empty old then (ix, None)
         else (ix\<lparr>dense := (dense ix)[doc - 1 := loc_empty], count := count ix - 1\<rparr>, Some old))
      else
        (let old = map_of (sparse ix) doc in
         (ix\<lparr>sparse := AList.delete doc (sparse ix),
             count := (if old = None then count ix else count ix - 1)\<rparr>, old)))"

definition ix_contains :: "id_index \<Rightarrow> nat \<Rightarrow> bool" where
  "ix_contains ix doc \<longleftrightarrow> ix_get ix doc \<noteq> None"

definition ix_len :: "id_index \<Rightarrow> nat" where
  "ix_len ix = count ix"

definition push_above :: "nat \<Rightarrow> loc \<Rightarrow> id_index \<Rightarrow> id_index" where
  "push_above doc l ix =
     (if doc = length (dense ix) + 1 \<and> sparse ix = []
      then ix\<lparr>dense := dense ix @ [l], count := count ix + 1\<rparr>
      else ix_insert doc l ix)"

definition ix_iter :: "id_index \<Rightarrow> nat list" where
  "ix_iter ix =
     map (\<lambda>(i, l). i + 1) (filter (\<lambda>(i, l). \<not> loc_is_empty l) (enumerate 0 (dense ix)))
       @ sort (map fst (sparse ix))"

definition ix_iter_from :: "nat \<Rightarrow> id_index \<Rightarrow> nat list" where
  "ix_iter_from from ix =
     (let extra = sort (filter (\<lambda>k. from \<le> k) (map fst (sparse ix)));
          skip = min (max from 1 - 1) (length (dense ix))
      in map (\<lambda>(i, l). skip + i + 1)
           (filter (\<lambda>(i, l). \<not> loc_is_empty l) (enumerate 0 (drop skip (dense ix)))) @ extra)"

text \<open>
  \<open>relocate\<close> calls a closure that keeps state of its own (the place its next frame goes), so the
  state is threaded through: the array first, by position, then the sparse ids in order.
\<close>

fun relocate_dense :: "('s \<Rightarrow> nat \<Rightarrow> loc \<Rightarrow> 's \<times> loc) \<Rightarrow> nat \<Rightarrow> 's \<Rightarrow> loc list \<Rightarrow> 's \<times> loc list" where
  "relocate_dense f i st [] = (st, [])"
| "relocate_dense f i st (l # ls) =
     (let (st, l) = (if loc_is_empty l then (st, l) else f st (i + 1) l);
          (st, ls) = relocate_dense f (i + 1) st ls
      in (st, l # ls))"

fun relocate_sparse :: "('s \<Rightarrow> nat \<Rightarrow> loc \<Rightarrow> 's \<times> loc) \<Rightarrow> nat list \<Rightarrow> 's \<Rightarrow> (nat \<times> loc) list \<Rightarrow> 's \<times> (nat \<times> loc) list" where
  "relocate_sparse f [] st s = (st, s)"
| "relocate_sparse f (k # ks) st s =
     (case map_of s k of
        None \<Rightarrow> relocate_sparse f ks st s
      | Some l \<Rightarrow> let (st, l) = f st k l in relocate_sparse f ks st (AList.update k l s))"

definition ix_relocate :: "('s \<Rightarrow> nat \<Rightarrow> loc \<Rightarrow> 's \<times> loc) \<Rightarrow> 's \<Rightarrow> id_index \<Rightarrow> 's \<times> id_index" where
  "ix_relocate f st ix =
     (let (st, d) = relocate_dense f 0 st (dense ix);
          (st, s) = relocate_sparse f (sort (map fst (sparse ix))) st (sparse ix)
      in (st, ix\<lparr>dense := d, sparse := s\<rparr>))"

section \<open>The invariant\<close>

text \<open>
  Every sparse id is above the dense range, and none below \<open>sparse_floor\<close>; the count is the
  documents held.
\<close>

definition ix_inv :: "id_index \<Rightarrow> bool" where
  "ix_inv ix \<longleftrightarrow>
     distinct (map fst (sparse ix))
     \<and> (\<forall>(k, l)\<in>set (sparse ix). length (dense ix) < k \<and> sparse_floor ix \<le> k \<and> \<not> loc_is_empty l)
     \<and> count ix = length (filter (\<lambda>l. \<not> loc_is_empty l) (dense ix)) + length (sparse ix)"

abbreviation ix_either :: "loc list \<Rightarrow> (nat \<times> loc) list \<Rightarrow> nat \<rightharpoonup> loc" where
  "ix_either \<equiv> either loc_is_empty"

lemma ix_get_eq:
  assumes "\<forall>(k, l)\<in>set (sparse ix). length (dense ix) < k"
  shows "ix_get ix = ix_either (dense ix) (sparse ix)"
proof (rule ext)
  fix doc
  show "ix_get ix doc = ix_either (dense ix) (sparse ix) doc"
  proof (cases "in_dense ix doc")
    case True
    with assms have "map_of (sparse ix) doc = None"
      by (force simp: map_of_eq_None_iff in_dense_def)
    with True show ?thesis
      by (auto simp: ix_get_def either_def slots_def in_dense_def map_add_def Let_def)
  next
    case False
    then show ?thesis by (auto simp: ix_get_def either_def slots_def in_dense_def map_add_def)
  qed
qed

lemma ix_get_inv: "ix_inv ix \<Longrightarrow> ix_get ix = ix_either (dense ix) (sparse ix)"
  by (rule ix_get_eq) (auto simp: ix_inv_def)

lemma reach_spec:
  assumes "sorted ks" "reach upto_id ks = (e, t)"
  shows "t \<le> length ks \<and> upto_id \<le> e \<and> (\<forall>k\<in>set (take t ks). k \<le> e) \<and> (\<forall>k\<in>set (drop t ks). e < k)"
  using assms
proof (induction ks arbitrary: upto_id t)
  case Nil
  then show ?case by simp
next
  case (Cons k ks)
  show ?case
  proof (cases "upto_id < k \<and> max_dense_gap < k - upto_id")
    case True
    with Cons.prems show ?thesis by auto
  next
    case False
    then obtain t' where "reach (max upto_id k) ks = (e, t')" "t = Suc t'"
      using Cons.prems(2) by (auto split: prod.splits)
    with Cons.IH [of "max upto_id k" t'] Cons.prems(1) show ?thesis by auto
  qed
qed

text \<open>Moving a key from the map into its empty slot changes nothing that is read.\<close>

lemma move_keys_either:
  assumes "distinct (map fst s)" "distinct ks"
    and "\<forall>k\<in>set ks. 1 \<le> k \<and> k \<le> length d \<and> slots loc_is_empty d k = None"
    and "set ks \<subseteq> fst ` set s" "\<forall>(k, l)\<in>set s. \<not> loc_is_empty l"
    and "fold move_key ks (d, s) = (d', s')"
  shows "ix_either d' s' = ix_either d s \<and> length d' = length d \<and> s' = filter (\<lambda>p. fst p \<notin> set ks) s
     \<and> length (filter (\<lambda>l. \<not> loc_is_empty l) d') + length s'
         = length (filter (\<lambda>l. \<not> loc_is_empty l) d) + length s"
  using assms
proof (induction ks arbitrary: d s)
  case Nil
  then show ?case by simp
next
  case (Cons k ks)
  then obtain l where l: "map_of s k = Some l"
    by (metis (no_types, lifting) list.set_intros(1) map_of_eq_None_iff not_None_eq subsetD)
  then have kl: "(k, l) \<in> set s" by (rule map_of_SomeD)
  with Cons.prems(5) have ne: "\<not> loc_is_empty l" by auto
  let ?d = "d[k - 1 := l]" and ?s = "AList.delete k s"
  have s: "?s = filter (\<lambda>p. fst p \<noteq> k) s" by (rule delete_filter)
  have step: "fold move_key ks (?d, ?s) = (d', s')" using Cons.prems(6) l by simp
  have k: "1 \<le> k" "k \<le> length d" "slots loc_is_empty d k = None" using Cons.prems(3) by auto
  have sl: "slots loc_is_empty ?d = (slots loc_is_empty d)(k \<mapsto> l)"
    using slots_update [OF k(1,2)] ne by simp
  have "slots loc_is_empty ?d j = None" if "j \<in> set ks" for j
    using that Cons.prems(2,3) sl by (metis distinct.simps(2) fun_upd_other list.set_intros(2))
  moreover have "set ks \<subseteq> fst ` set ?s"
    using Cons.prems(2,4) by (force simp: s)
  ultimately have IH: "ix_either d' s' = ix_either ?d ?s \<and> length d' = length ?d
      \<and> s' = filter (\<lambda>p. fst p \<notin> set ks) ?s
      \<and> length (filter (\<lambda>l. \<not> loc_is_empty l) d') + length s'
         = length (filter (\<lambda>l. \<not> loc_is_empty l) ?d) + length ?s"
    using Cons.prems(1-5) step by (intro Cons.IH) (auto simp: s distinct_map_filter)
  have look: "ix_either ?d ?s = ix_either d s"
    using sl l k(3) by (auto simp: either_def delete_conv fun_eq_iff map_add_def split: option.splits)
  have "loc_is_empty (d ! (k - 1))" using k by (auto simp: slots_def split: if_splits)
  then have grow: "length (filter (\<lambda>l. \<not> loc_is_empty l) ?d) = Suc (length (filter (\<lambda>l. \<not> loc_is_empty l) d))"
    using length_filter_update [of "k - 1" d loc_is_empty l] k ne by auto
  have shrink: "Suc (length ?s) = length s" using Cons.prems(1) l by (simp add: length_delete)
  from IH look grow shrink show ?case by (auto simp: s intro: filter_cong)
qed

lemma resize_grow: "length xs \<le> n \<Longrightarrow> resize n e xs = xs @ replicate (n - length xs) e"
  by (simp add: resize_def)

lemma live_resize:
  "length d \<le> n \<Longrightarrow>
     length (filter (\<lambda>l. \<not> loc_is_empty l) (resize n loc_empty d)) = length (filter (\<lambda>l. \<not> loc_is_empty l) d)
     \<and> slots loc_is_empty (resize n loc_empty d) = slots loc_is_empty d \<and> length (resize n loc_empty d) = n"
  by (simp add: resize_grow slots_grow)

text \<open>The keys taken are the first of the sorted ones; those left are above the array.\<close>

lemma keys_left:
  assumes "reach u (sort (map fst s)) = (e, t)" "p \<in> set s" "fst p \<notin> set (take t (sort (map fst s)))"
  shows "e < fst p \<and> t < length (sort (map fst s)) \<and> sort (map fst s) ! t \<le> fst p"
proof -
  let ?k = "sort (map fst s)"
  have "fst p \<in> set (take t ?k) \<union> set (drop t ?k)"
    using assms(2) by (metis append_take_drop_id image_eqI list.set_map set_append set_sort)
  with assms(3) have d: "fst p \<in> set (drop t ?k)" by blast
  then have t: "t < length ?k" by (metis drop_eq_Nil empty_iff list.set(1) not_le_imp_less)
  then have "drop t ?k = ?k ! t # drop (Suc t) ?k" by (simp add: Cons_nth_drop_Suc)
  moreover have "sorted (drop t ?k)" by (simp add: sorted_wrt_drop)
  ultimately have "?k ! t \<le> fst p" using d by auto
  with d t reach_spec [OF sorted_sort assms(1)] show ?thesis by blast
qed

lemma take_over_sparse_spec:
  assumes "distinct (map fst (sparse ix))" "length (dense ix) = u"
    and s: "\<forall>(k, l)\<in>set (sparse ix). 1 \<le> k \<and> slots loc_is_empty (dense ix) k = None \<and> \<not> loc_is_empty l"
    and c: "count ix = length (filter (\<lambda>l. \<not> loc_is_empty l) (dense ix)) + length (sparse ix)"
  shows "ix_inv (take_over_sparse u ix) \<and> u \<le> length (dense (take_over_sparse u ix))
     \<and> ix_get (take_over_sparse u ix) = ix_either (dense ix) (sparse ix)"
proof -
  let ?k = "sort (map fst (sparse ix))" and ?live = "\<lambda>d. length (filter (\<lambda>l. \<not> loc_is_empty l) d)"
  obtain e t where et: "reach u ?k = (e, t)" by force
  note r = reach_spec [OF sorted_sort et]
  define d where "d = (if length (dense ix) < e then resize e loc_empty (dense ix) else dense ix)"
  have d: "length d = e" "slots loc_is_empty d = slots loc_is_empty (dense ix)" "?live d = ?live (dense ix)"
    using r assms(2) live_resize [of "dense ix" e] by (auto simp: d_def)
  obtain d' s' where f: "fold move_key (take t ?k) (d, sparse ix) = (d', s')" by force
  have sub: "set (take t ?k) \<subseteq> fst ` set (sparse ix)" using set_take_subset [of t ?k] by simp
  have M: "ix_either d' s' = ix_either d (sparse ix) \<and> length d' = length d
      \<and> s' = filter (\<lambda>p. fst p \<notin> set (take t ?k)) (sparse ix)
      \<and> ?live d' + length s' = ?live d + length (sparse ix)"
  proof (rule move_keys_either [OF assms(1) _ _ sub _ f])
    show "distinct (take t ?k)" using assms(1) by simp
    show "\<forall>k\<in>set (take t ?k). 1 \<le> k \<and> k \<le> length d \<and> slots loc_is_empty d k = None"
      using r sub s d by (fastforce dest!: subsetD)
    show "\<forall>(k, l)\<in>set (sparse ix). \<not> loc_is_empty l" using s by auto
  qed
  let ?fl = "if t < length ?k then ?k ! t else docid_max"
  have ix': "take_over_sparse u ix = ix\<lparr>dense := d', sparse := s', sparse_floor := ?fl\<rparr>"
    using f by (simp add: take_over_sparse_def et Let_def flip: d_def)
  have inv: "ix_inv (ix\<lparr>dense := d', sparse := s', sparse_floor := ?fl\<rparr>)"
    using M d c s assms(1) keys_left [OF et]
    by (fastforce simp: ix_inv_def distinct_map_filter)
  have "ix_either d (sparse ix) = ix_either (dense ix) (sparse ix)" by (simp add: either_def d)
  with M have "ix_either d' s' = ix_either (dense ix) (sparse ix)" "length d' = e" using d by auto
  then show ?thesis using r inv unfolding ix' ix_get_inv [OF inv] by simp
qed

section \<open>The operations keep the invariant and do what a map does\<close>

lemma set_slot_spec:
  assumes "ix_inv ix" "in_dense ix doc" "\<not> loc_is_empty l"
  shows "ix_inv (set_slot doc l ix) \<and> ix_get (set_slot doc l ix) = (ix_get ix)(doc \<mapsto> l)"
proof -
  from assms(2) have i: "1 \<le> doc" "doc \<le> length (dense ix)" "doc - 1 < length (dense ix)"
    by (auto simp: in_dense_def)
  have inv: "ix_inv (set_slot doc l ix)"
    using assms length_filter_update [OF i(3), of loc_is_empty l]
    by (auto simp: ix_inv_def set_slot_def split: if_splits)
  have "ix_either ((dense ix)[doc - 1 := l]) (sparse ix) = (ix_either (dense ix) (sparse ix))(doc \<mapsto> l)"
    using slots_update [OF i(1,2), of loc_is_empty l] assms(3) by (simp add: either_def)
  with inv assms(1) show ?thesis by (simp add: ix_get_inv) (simp add: set_slot_def)
qed

lemma ix_insert_sparse:
  assumes "ix_inv ix" "\<not> in_dense ix doc" "1 \<le> doc" "\<not> loc_is_empty l"
    "max_dense_gap < doc - length (dense ix)"
  shows "ix_inv (ix_insert doc l ix) \<and> ix_get (ix_insert doc l ix) = (ix_get ix)(doc \<mapsto> l)"
proof -
  let ?fl = "if sparse ix = [] \<or> doc < sparse_floor ix then doc else sparse_floor ix"
  let ?ix = "ix\<lparr>sparse_floor := ?fl, count := (if map_of (sparse ix) doc = None then count ix + 1 else count ix),
      sparse := AList.update doc l (sparse ix)\<rparr>"
  have e: "ix_insert doc l ix = ?ix" using assms by (simp add: ix_insert_def Let_def)
  have len: "length (AList.update doc l s) = (if map_of s doc = None then Suc (length s) else length s)" for s
    by (induction s) auto
  have el: "(k, v) \<in> set (AList.update doc l s) \<Longrightarrow> (k, v) = (doc, l) \<or> (k, v) \<in> set s" for k v s
    by (induction s) (auto split: if_splits)
  have i: "ix_inv ?ix"
    using assms by (auto simp: ix_inv_def distinct_update len in_dense_def dest!: el)
  have "doc \<notin> dom (slots loc_is_empty (dense ix))"
    using assms(2) by (auto simp: slots_def in_dense_def split: if_splits)
  then have "ix_either (dense ix) (AList.update doc l (sparse ix)) = (ix_either (dense ix) (sparse ix))(doc \<mapsto> l)"
    by (auto simp: either_def update_conv' fun_eq_iff map_add_def split: option.splits)
  then show ?thesis unfolding e ix_get_inv [OF i] ix_get_inv [OF assms(1)] using i by simp
qed

lemma ix_insert_grow:
  assumes "ix_inv ix" "\<not> in_dense ix doc" "1 \<le> doc" "\<not> loc_is_empty l"
    "doc - length (dense ix) \<le> max_dense_gap"
  shows "ix_inv (ix_insert doc l ix) \<and> ix_get (ix_insert doc l ix) = (ix_get ix)(doc \<mapsto> l)"
proof -
  let ?r = "ix\<lparr>dense := resize doc loc_empty (dense ix)\<rparr>"
  let ?t = "if sparse_floor ix \<le> doc then take_over_sparse doc ?r else ?r"
  from assms(2,3) have n: "length (dense ix) \<le> doc" by (auto simp: in_dense_def)
  note R = live_resize [OF n]
  have e: "ix_insert doc l ix = set_slot doc l ?t"
    using assms by (simp add: ix_insert_def Let_def)
  have eq: "ix_either (dense ?r) (sparse ?r) = ix_get ix"
    using R by (simp add: either_def ix_get_inv [OF assms(1)])
  have "ix_inv ?t \<and> in_dense ?t doc \<and> ix_get ?t = ix_get ix"
  proof (cases "sparse_floor ix \<le> doc")
    case True
    have "ix_inv (take_over_sparse doc ?r) \<and> doc \<le> length (dense (take_over_sparse doc ?r))
        \<and> ix_get (take_over_sparse doc ?r) = ix_either (dense ?r) (sparse ?r)"
      using assms(1) R
      by (intro take_over_sparse_spec) (fastforce simp: ix_inv_def slots_out)+
    with True assms(3) eq show ?thesis by (simp add: in_dense_def)
  next
    case False
    with assms(1,3) R have "ix_inv ?r" by (fastforce simp: ix_inv_def)
    with False R assms(3) eq show ?thesis by (simp add: in_dense_def ix_get_inv)
  qed
  then show ?thesis using set_slot_spec [of ?t doc l] assms(4) unfolding e by metis
qed

lemma ix_insert_spec:
  assumes "ix_inv ix" "1 \<le> doc" "\<not> loc_is_empty l"
  shows "ix_inv (ix_insert doc l ix) \<and> ix_get (ix_insert doc l ix) = (ix_get ix)(doc \<mapsto> l)"
proof (cases "in_dense ix doc")
  case True
  then show ?thesis using set_slot_spec assms by (simp add: ix_insert_def)
next
  case False
  then show ?thesis using ix_insert_grow ix_insert_sparse assms by (metis not_le_imp_less)
qed

lemma ix_remove_spec:
  assumes "ix_inv ix" "1 \<le> doc" "ix_remove doc ix = (ix', old)"
  shows "ix_inv ix' \<and> ix_get ix' = (ix_get ix)(doc := None) \<and> old = ix_get ix doc"
proof (cases "in_dense ix doc")
  case True
  then have i: "1 \<le> doc" "doc \<le> length (dense ix)" "doc - 1 < length (dense ix)"
    by (auto simp: in_dense_def)
  show ?thesis
  proof (cases "loc_is_empty (dense ix ! (doc - 1))")
    case e: True
    with True have "ix_get ix doc = None" by (simp add: ix_get_def)
    with True e assms show ?thesis by (auto simp: ix_remove_def)
  next
    case False
    let ?ix = "ix\<lparr>dense := (dense ix)[doc - 1 := loc_empty], count := count ix - 1\<rparr>"
    have e: "ix' = ?ix" "old = Some (dense ix ! (doc - 1))"
      using True False assms(3) by (auto simp: ix_remove_def Let_def)
    have inv: "ix_inv ?ix"
      using assms(1) False length_filter_update [OF i(3), of loc_is_empty loc_empty]
      by (auto simp: ix_inv_def)
    have "map_of (sparse ix) doc = None"
      using assms(1) i by (force simp: map_of_eq_None_iff ix_inv_def)
    then have "ix_either ((dense ix)[doc - 1 := loc_empty]) (sparse ix) = (ix_either (dense ix) (sparse ix))(doc := None)"
      using slots_update [OF i(1,2), of loc_is_empty loc_empty]
      by (auto simp: either_def map_add_def fun_eq_iff)
    moreover have "old = ix_get ix doc" using True False e by (simp add: ix_get_def Let_def)
    ultimately show ?thesis using inv unfolding e(1) ix_get_inv [OF inv] by (simp add: ix_get_inv assms(1))
  qed
next
  case False
  let ?ix = "ix\<lparr>sparse := AList.delete doc (sparse ix),
      count := (if map_of (sparse ix) doc = None then count ix else count ix - 1)\<rparr>"
  have e: "ix' = ?ix" "old = map_of (sparse ix) doc"
    using False assms(3) by (auto simp: ix_remove_def Let_def)
  have gone: "map_of (sparse ix) doc = None \<Longrightarrow> AList.delete doc (sparse ix) = sparse ix"
    by (force simp: delete_filter filter_id_conv map_of_eq_None_iff)
  have dist: "distinct (map fst (sparse ix))" using assms(1) by (simp add: ix_inv_def)
  have inv: "ix_inv ?ix"
  proof (cases "map_of (sparse ix) doc = None")
    case True
    with assms(1) gone show ?thesis by (simp add: ix_inv_def)
  next
    case some: False
    from length_delete [OF dist some] assms(1) show ?thesis
      by (auto simp: some ix_inv_def distinct_delete dest: set_mp [OF delete_set_subset])
  qed
  have "slots loc_is_empty (dense ix) doc = None"
    using False by (auto simp: slots_def in_dense_def)
  then have "ix_either (dense ix) (AList.delete doc (sparse ix)) = (ix_either (dense ix) (sparse ix))(doc := None)"
    by (auto simp: either_def map_add_def delete_conv fun_eq_iff split: option.splits)
  then show ?thesis using inv False unfolding e ix_get_inv [OF inv]
    by (simp add: ix_get_inv assms(1)) (simp add: ix_get_inv [OF assms(1), symmetric] ix_get_def)
qed

lemma dom_ix_get:
  assumes "ix_inv ix"
  shows "dom (ix_get ix) = dom (slots loc_is_empty (dense ix)) \<union> fst ` set (sparse ix)"
    "dom (slots loc_is_empty (dense ix)) \<inter> fst ` set (sparse ix) = {}"
    "\<forall>k\<in>dom (slots loc_is_empty (dense ix)). k \<le> length (dense ix)"
    "\<forall>k\<in>fst ` set (sparse ix). length (dense ix) < k"
  using assms by (auto simp: ix_get_inv either_def dom_map_of_conv_image_fst ix_inv_def dom_slots)

interpretation ix: id_map ix_default ix_insert "\<lambda>doc ix. fst (ix_remove doc ix)" ix_get ix_len ix_inv
  "\<lambda>l. \<not> loc_is_empty l"
proof unfold_locales
  show "ix_get ix_default = Map.empty"
    by (rule ext) (auto simp: ix_get_def ix_default_def in_dense_def)
  show "ix_inv ix_default" by (simp add: ix_inv_def ix_default_def)
  fix s :: id_index and doc :: nat and v :: loc
  assume s: "ix_inv s"
  note D = dom_ix_get [OF s]
  show "finite (dom (ix_get s))" by (simp add: D)
  have "card (fst ` set (sparse s)) = length (sparse s)"
    using s distinct_card [of "map fst (sparse s)"] by (simp add: ix_inv_def)
  then show "ix_len s = card (dom (ix_get s))"
    using s by (simp add: D card_Un_disjoint card_dom_slots ix_len_def ix_inv_def)
  assume doc: "1 \<le> doc"
  show "ix_get (fst (ix_remove doc s)) = (ix_get s)(doc := None)" "ix_inv (fst (ix_remove doc s))"
    using ix_remove_spec [OF s doc] by (metis prod.collapse)+
  assume "\<not> loc_is_empty v"
  then show "ix_get (ix_insert doc v s) = (ix_get s)(doc \<mapsto> v)" "ix_inv (ix_insert doc v s)"
    using ix_insert_spec [OF s doc] by simp_all
qed

section \<open>Iteration\<close>

lemma enumerate_live:
  "map (\<lambda>(i, l). n + i + 1) (filter (\<lambda>(i, l). \<not> loc_is_empty l) (enumerate m ls))
     = filter (\<lambda>i. \<not> loc_is_empty (ls ! (i - (n + m) - 1))) [n + m + 1 ..< n + m + length ls + 1]"
proof (induction ls arbitrary: m)
  case Nil
  then show ?case by simp
next
  case (Cons l ls)
  have "filter (\<lambda>i. \<not> loc_is_empty (ls ! (i - (n + Suc m) - 1))) [n + Suc m + 1 ..< n + Suc m + length ls + 1]
      = filter (\<lambda>i. \<not> loc_is_empty ((l # ls) ! (i - (n + m) - 1))) [n + Suc m + 1 ..< n + Suc m + length ls + 1]"
    by (intro filter_cong) (auto simp: nth_Cons' Suc_diff_Suc diff_diff_add)
  moreover have "[n + m + 1 ..< n + m + length (l # ls) + 1] = (n + m + 1) # [n + Suc m + 1 ..< n + Suc m + length ls + 1]"
    by (simp add: upt_rec)
  ultimately show ?case using Cons.IH [of "Suc m"] by simp
qed

lemma ix_iter_live:
  "ix_iter ix = filter (\<lambda>i. slots loc_is_empty (dense ix) i \<noteq> None) [1 ..< length (dense ix) + 1] @ sort (map fst (sparse ix))"
proof -
  have "filter (\<lambda>i. \<not> loc_is_empty (dense ix ! (i - 1))) [1 ..< length (dense ix) + 1]
      = filter (\<lambda>i. slots loc_is_empty (dense ix) i \<noteq> None) [1 ..< length (dense ix) + 1]"
    by (intro filter_cong) (auto simp: slots_def)
  then show ?thesis using enumerate_live [of 0 0 "dense ix"] by (simp add: ix_iter_def)
qed

lemma ix_iter_sorted:
  assumes "ix_inv ix"
  shows "sorted_wrt (<) (ix_iter ix) \<and> set (ix_iter ix) = dom (ix_get ix)"
proof
  note D = dom_ix_get [OF assms]
  have "distinct (sort (map fst (sparse ix)))" using assms by (simp add: ix_inv_def)
  then have "sorted_wrt (<) (sort (map fst (sparse ix)))" by (simp add: strict_sorted_iff)
  then show "sorted_wrt (<) (ix_iter ix)"
    using D(4) by (fastforce simp: ix_iter_live sorted_wrt_append intro: sorted_wrt_filter)
  have "dom (slots loc_is_empty (dense ix)) = set (filter (\<lambda>i. slots loc_is_empty (dense ix) i \<noteq> None) [1 ..< length (dense ix) + 1])"
    by (auto simp: slots_def split: if_splits)
  then show "set (ix_iter ix) = dom (ix_get ix)" by (simp add: ix_iter_live D(1))
qed

lemma ix_iter_from_filter:
  assumes "ix_inv ix"
  shows "ix_iter_from from ix = filter (\<lambda>i. from \<le> i) (ix_iter ix)"
proof -
  let ?n = "length (dense ix)" and ?k = "min (max from 1 - 1) (length (dense ix))"
  let ?P = "\<lambda>i. slots loc_is_empty (dense ix) i \<noteq> None"
  have "filter (\<lambda>i. from \<le> i) [1 ..< ?n + 1] = [?k + 1 ..< ?n + 1]"
  proof -
    have "[1 ..< ?n + 1] = [1 ..< ?k + 1] @ [?k + 1 ..< ?n + 1]"
      using upt_add_eq_append [of 1 "?k + 1" "?n - ?k"] by simp
    moreover have "filter (\<lambda>i. from \<le> i) [1 ..< ?k + 1] = []" by (auto simp: filter_empty_conv)
    moreover have "filter (\<lambda>i. from \<le> i) [?k + 1 ..< ?n + 1] = [?k + 1 ..< ?n + 1]"
      by (auto simp: filter_id_conv)
    ultimately show ?thesis by (metis append_Nil filter_append)
  qed
  then have "filter (\<lambda>i. from \<le> i) (filter ?P [1 ..< ?n + 1]) = filter ?P [?k + 1 ..< ?n + 1]"
    by (metis (no_types, lifting) filter_filter filter_cong conj_commute)
  moreover have "map (\<lambda>(i, l). ?k + i + 1) (filter (\<lambda>(i, l). \<not> loc_is_empty l) (enumerate 0 (drop ?k (dense ix))))
      = filter ?P [?k + 1 ..< ?n + 1]"
  proof -
    have "[?k + 0 + 1 ..< ?k + 0 + length (drop ?k (dense ix)) + 1] = [?k + 1 ..< ?n + 1]" by simp
    then show ?thesis
      unfolding enumerate_live by (intro filter_cong) (auto simp: slots_def)
  qed
  ultimately show ?thesis
    by (simp add: ix_iter_from_def ix_iter_live Let_def filter_sort)
qed

lemma push_above_spec:
  assumes "ix_inv ix" "\<forall>k\<in>dom (ix_get ix). k < doc" "1 \<le> doc" "\<not> loc_is_empty l"
  shows "ix_inv (push_above doc l ix) \<and> ix_get (push_above doc l ix) = (ix_get ix)(doc \<mapsto> l)"
proof (cases "doc = length (dense ix) + 1 \<and> sparse ix = []")
  case True
  let ?ix = "ix\<lparr>dense := dense ix @ [l], count := count ix + 1\<rparr>"
  have e: "push_above doc l ix = ?ix" using True by (simp add: push_above_def)
  have inv: "ix_inv ?ix" using True assms(1,4) by (simp add: ix_inv_def)
  have "ix_either (dense ix @ [l]) (sparse ix) = (ix_either (dense ix) (sparse ix))(doc \<mapsto> l)"
    using True assms(4) by (auto simp: either_def slots_def nth_append fun_eq_iff map_add_def)
  with inv show ?thesis unfolding e ix_get_inv [OF inv] ix_get_inv [OF assms(1)] by simp
next
  case False
  then show ?thesis using ix_insert_spec assms by (simp only: push_above_def if_False)
qed

section \<open>Relocation\<close>

text \<open>The closure over the documents in id order, its state carried from each to the next.\<close>

fun run_each :: "('s \<Rightarrow> nat \<Rightarrow> loc \<Rightarrow> 's \<times> loc) \<Rightarrow> 's \<Rightarrow> (nat \<times> loc) list \<Rightarrow> 's \<times> (nat \<times> loc) list" where
  "run_each f st [] = (st, [])"
| "run_each f st ((k, l) # kls) =
     (let (st, l) = f st k l; (st, kls) = run_each f st kls in (st, (k, l) # kls))"

lemma run_each_append:
  "run_each f st (xs @ ys) =
     (let (st, xs) = run_each f st xs; (st, ys) = run_each f st ys in (st, xs @ ys))"
  by (induction f st xs rule: run_each.induct) (auto split: prod.splits)

lemma run_each_keys: "map fst (snd (run_each f st kls)) = map fst kls"
  by (induction f st kls rule: run_each.induct) (auto split: prod.splits)

definition live_locs :: "id_index \<Rightarrow> (nat \<times> loc) list" where
  "live_locs ix = map (\<lambda>k. (k, the (ix_get ix k))) (ix_iter ix)"

abbreviation dense_locs :: "nat \<Rightarrow> loc list \<Rightarrow> (nat \<times> loc) list" where
  "dense_locs i ls \<equiv> map (\<lambda>(j, l). (Suc j, l)) (filter (\<lambda>(j, l). \<not> loc_is_empty l) (enumerate i ls))"

abbreviation sparse_locs :: "(nat \<times> loc) list \<Rightarrow> (nat \<times> loc) list" where
  "sparse_locs s \<equiv> map (\<lambda>k. (k, the (map_of s k))) (sort (map fst s))"

lemma live_locs_parts:
  assumes "ix_inv ix"
  shows "live_locs ix = dense_locs 0 (dense ix) @ sparse_locs (sparse ix)"
proof -
  have d: "the (ix_get ix (j + 1)) = l" if "(j, l) \<in> set (enumerate 0 (dense ix))" "\<not> loc_is_empty l" for j l
    using that by (auto simp: in_set_enumerate_eq ix_get_def in_dense_def)
  have s: "ix_get ix k = map_of (sparse ix) k" if "k \<in> set (map fst (sparse ix))" for k
    using that assms by (force simp: ix_get_def in_dense_def ix_inv_def)
  have "map (\<lambda>k. (k, the (ix_get ix k)))
      (map (\<lambda>(i, l). i + 1) (filter (\<lambda>(i, l). \<not> loc_is_empty l) (enumerate 0 (dense ix)))) = dense_locs 0 (dense ix)"
    by (auto simp: d [simplified] intro!: map_cong)
  moreover have "map (\<lambda>k. (k, the (ix_get ix k))) (sort (map fst (sparse ix))) = sparse_locs (sparse ix)"
    using s by simp
  ultimately show ?thesis by (simp add: live_locs_def ix_iter_def)
qed

lemma map_of_live_locs: "ix_inv ix \<Longrightarrow> map_of (live_locs ix) = ix_get ix"
proof (rule ext)
  fix k
  assume "ix_inv ix"
  then have "set (ix_iter ix) = dom (ix_get ix)" using ix_iter_sorted by blast
  then show "map_of (live_locs ix) k = ix_get ix k"
    by (cases "k \<in> set (ix_iter ix)") (auto simp: live_locs_def map_of_map_restrict restrict_map_def domIff)
qed

lemma relocate_dense_spec:
  assumes "relocate_dense f i st ls = (st', ls')"
  shows "\<exists>out. run_each f st (dense_locs i ls) = (st', out)
     \<and> ((\<forall>p\<in>set out. \<not> loc_is_empty (snd p)) \<longrightarrow>
          out = dense_locs i ls' \<and> map loc_is_empty ls' = map loc_is_empty ls)"
  using assms
proof (induction ls arbitrary: i st st' ls')
  case Nil
  then show ?case by simp
next
  case (Cons l ls)
  obtain st1 l1 where h: "(if loc_is_empty l then (st, l) else f st (i + 1) l) = (st1, l1)" by force
  obtain st2 ls2 where t: "relocate_dense f (i + 1) st1 ls = (st2, ls2)" by force
  have e: "st' = st2" "ls' = l1 # ls2" using Cons.prems h t by (auto simp: Let_def)
  from Cons.IH [OF t] obtain out where out: "run_each f st1 (dense_locs (i + 1) ls) = (st2, out)"
    "\<forall>p\<in>set out. \<not> loc_is_empty (snd p) \<Longrightarrow>
       out = dense_locs (i + 1) ls2 \<and> map loc_is_empty ls2 = map loc_is_empty ls"
    by blast
  show ?case
  proof (cases "loc_is_empty l")
    case True
    with out h e show ?thesis by (intro exI [of _ out]) simp
  next
    case False
    with out h e show ?thesis by (intro exI [of _ "(Suc i, l1) # out"]) auto
  qed
qed

lemma map_fst_update: "k \<in> fst ` set s \<Longrightarrow> map fst (AList.update k v s) = map fst s"
  by (induction s) auto

lemma relocate_sparse_spec:
  assumes "relocate_sparse f ks st s = (st', s')" "distinct ks" "set ks \<subseteq> fst ` set s"
  shows "\<exists>out. run_each f st (map (\<lambda>k. (k, the (map_of s k))) ks) = (st', out)
     \<and> map fst s' = map fst s \<and> map_of s' = map_of s ++ map_of out"
  using assms
proof (induction ks arbitrary: st s)
  case Nil
  then show ?case by simp
next
  case (Cons k ks)
  then obtain l where l: "map_of s k = Some l"
    by (metis (no_types, lifting) list.set_intros(1) map_of_eq_None_iff not_None_eq subsetD)
  obtain st1 l1 where h: "f st k l = (st1, l1)" by force
  let ?s = "AList.update k l1 s"
  from l have k: "k \<in> fst ` set s" by (metis map_of_eq_None_iff option.distinct(1))
  have "relocate_sparse f ks st1 ?s = (st', s')" using Cons.prems(1) l h by simp
  moreover have "distinct ks" "set ks \<subseteq> fst ` set ?s"
    using Cons.prems(2,3) map_fst_update [OF k] by (auto simp: dom_update)
  ultimately obtain out where IH: "run_each f st1 (map (\<lambda>k. (k, the (map_of ?s k))) ks) = (st', out)"
    "map fst s' = map fst ?s" "map_of s' = map_of ?s ++ map_of out"
    using Cons.IH by blast
  have same: "map (\<lambda>k. (k, the (map_of ?s k))) ks = map (\<lambda>k. (k, the (map_of s k))) ks"
    using Cons.prems(2) by (auto simp: update_conv')
  have "map fst out = ks" using run_each_keys [of f st1 "map (\<lambda>k. (k, the (map_of ?s k))) ks"] IH(1)
    by (simp add: comp_def)
  then have "map_of out k = None" using Cons.prems(2)
    by (metis distinct.simps(2) list.set_map map_of_eq_None_iff)
  then have "map_of ?s ++ map_of out = map_of s ++ map_of ((k, l1) # out)"
    by (auto simp: update_conv' fun_eq_iff map_add_def split: option.splits)
  with IH same l h map_fst_update [OF k] show ?case by (simp add: map_add_def)
qed

lemma ix_relocate_spec:
  assumes "ix_inv ix" "ix_relocate f st ix = (st', ix')"
    and ne: "\<forall>p\<in>set (snd (run_each f st (live_locs ix))). \<not> loc_is_empty (snd p)"
  shows "ix_inv ix' \<and> run_each f st (live_locs ix) = (st', live_locs ix')"
proof -
  let ?ks = "sort (map fst (sparse ix))"
  obtain st1 d where d: "relocate_dense f 0 st (dense ix) = (st1, d)" by force
  obtain s where s: "relocate_sparse f ?ks st1 (sparse ix) = (st', s)"
    and ix': "ix' = ix\<lparr>dense := d, sparse := s\<rparr>"
    using assms(2) d by (auto simp: ix_relocate_def split: prod.splits)
  obtain o1 where o1: "run_each f st (dense_locs 0 (dense ix)) = (st1, o1)"
    "(\<forall>p\<in>set o1. \<not> loc_is_empty (snd p)) \<Longrightarrow> o1 = dense_locs 0 d \<and> map loc_is_empty d = map loc_is_empty (dense ix)"
    using relocate_dense_spec [OF d] by blast
  have "distinct ?ks" using assms(1) by (simp add: ix_inv_def)
  then obtain o2 where o2: "run_each f st1 (sparse_locs (sparse ix)) = (st', o2)"
    "map fst s = map fst (sparse ix)" "map_of s = map_of (sparse ix) ++ map_of o2"
    using relocate_sparse_spec [OF s] by auto
  have run: "run_each f st (live_locs ix) = (st', o1 @ o2)"
    unfolding live_locs_parts [OF assms(1)] run_each_append o1(1) using o2(1) by simp
  with ne have e: "\<forall>p\<in>set o1. \<not> loc_is_empty (snd p)" "\<forall>p\<in>set o2. \<not> loc_is_empty (snd p)" by auto
  note d' = o1(2) [OF e(1)]
  have ks: "map fst o2 = ?ks" using run_each_keys [of f st1 "sparse_locs (sparse ix)"] o2(1)
    by (simp add: comp_def)
  then have m: "map_of s = map_of o2"
    using o2(3) by (auto simp: fun_eq_iff map_add_def map_of_eq_None_iff split: option.splits)
      (metis list.set_map map_of_eq_None_iff option.distinct(1) set_sort)
  have dist: "distinct (map fst o2)" using ks assms(1) by (simp add: ix_inv_def)
  have o2': "o2 = sparse_locs s"
  proof -
    have "map (\<lambda>k. (k, the (map_of o2 k))) (map fst o2) = o2"
      using dist by (auto intro!: map_idI simp: comp_def)
    then show ?thesis using ks m o2(2) by simp
  qed
  have ne2: "\<not> loc_is_empty l" if "(k, l) \<in> set s" for k l
  proof -
    have "distinct (map fst s)" using assms(1) o2(2) by (simp add: ix_inv_def)
    with that have "map_of o2 k = Some l" using m by (metis map_of_is_SomeI)
    then show ?thesis using e(2) map_of_SomeD by fastforce
  qed
  have "length (filter (\<lambda>l. \<not> loc_is_empty l) xs) = length (filter Not (map loc_is_empty xs))" for xs
    by (simp add: filter_map comp_def)
  then have "length (filter (\<lambda>l. \<not> loc_is_empty l) d) = length (filter (\<lambda>l. \<not> loc_is_empty l) (dense ix))"
    using d' by metis
  moreover have "length d = length (dense ix)" "length s = length (sparse ix)"
    using d' o2(2) by (metis length_map)+
  moreover have "k \<in> fst ` set (sparse ix)" if "(k, l) \<in> set s" for k l
    using that o2(2) by (metis fst_conv image_eqI list.set_map)
  ultimately have inv: "ix_inv ix'"
    using assms(1) ne2 o2(2) by (fastforce simp: ix' ix_inv_def)
  with run d' o2' show ?thesis by (simp add: live_locs_parts [OF inv]) (simp add: ix')
qed

section \<open>Properties\<close>

definition ix_run :: "loc id_op list \<Rightarrow> id_index" where
  "ix_run ops = fold (\<lambda>p. case p of Put doc l \<Rightarrow> ix_insert doc l | Remove doc \<Rightarrow> (\<lambda>ix. fst (ix_remove doc ix))) ops ix_default"

lemma ix_run_fold: "ix_run ops = fold ix.run_op ops ix_default"
  unfolding ix_run_def by (intro fold_cong) (auto simp: fun_eq_iff split: id_op.splits)

text \<open>
  C37: the id index is a map. Any sequence of insertions and removals, in any order and of ids
  anywhere, leaves it holding what a map would, with the invariant that every sparse id is above
  the dense range kept, and the count its size.
\<close>

theorem id_index_refines_map:
  assumes "\<forall>p\<in>set ops. 1 \<le> op_id p \<and> (\<forall>l\<in>op_vals p. \<not> loc_is_empty l)"
  shows "ix_inv (ix_run ops) \<and> ix_get (ix_run ops) = fold apply_op ops Map.empty
     \<and> ix_len (ix_run ops) = card (dom (fold apply_op ops Map.empty))"
  using ix.run_refines [OF ix.invar_empty assms] ix.len_after_run [OF assms]
  by (simp add: ix_run_fold ix.get_empty)

definition demo_loc :: loc where
  "demo_loc = \<lparr>seg = 0, off = 3, plen = 4\<rparr>"

lemma demo_loc_ok [simp]: "\<not> loc_is_empty demo_loc"
  by (simp add: demo_loc_def loc_is_empty_def)

theorem id_index_refines_map_witness:
  "ix_inv (ix_run [Put 5000 demo_loc, Put 1 demo_loc, Put 3 demo_loc, Remove 1])
   \<and> ix_get (ix_run [Put 5000 demo_loc, Put 1 demo_loc, Put 3 demo_loc, Remove 1])
       = fold apply_op [Put 5000 demo_loc, Put 1 demo_loc, Put 3 demo_loc, Remove 1] Map.empty
   \<and> ix_len (ix_run [Put 5000 demo_loc, Put 1 demo_loc, Put 3 demo_loc, Remove 1])
       = card (dom (fold apply_op [Put 5000 demo_loc, Put 1 demo_loc, Put 3 demo_loc, Remove 1] Map.empty))"
  by (rule id_index_refines_map) simp

text \<open>
  A removal hands back the location the id had, and takes only that id out; an insertion
  changes only its id, though it may move any number of others into the dense array.
\<close>

theorem id_index_single_step:
  assumes "ix_inv ix" "1 \<le> doc" "\<not> loc_is_empty l"
  shows "ix_get (ix_insert doc l ix) = (ix_get ix)(doc \<mapsto> l) \<and> ix_inv (ix_insert doc l ix)
     \<and> snd (ix_remove doc ix) = ix_get ix doc \<and> ix_get (fst (ix_remove doc ix)) = (ix_get ix)(doc := None)
     \<and> ix_inv (fst (ix_remove doc ix))"
  using ix_insert_spec [OF assms] ix_remove_spec [OF assms(1,2)] by (metis prod.collapse)

theorem id_index_single_step_witness:
  "ix_get (ix_insert 4 demo_loc ix_default) = (ix_get ix_default)(4 \<mapsto> demo_loc) \<and> ix_inv (ix_insert 4 demo_loc ix_default)
     \<and> snd (ix_remove 4 ix_default) = ix_get ix_default 4 \<and> ix_get (fst (ix_remove 4 ix_default)) = (ix_get ix_default)(4 := None)
     \<and> ix_inv (fst (ix_remove 4 ix_default))"
  by (rule id_index_single_step [OF ix.invar_empty]) simp_all

text \<open>
  The walk over the ids is ascending and complete, dense part first, and the walk from an id
  on is the same walk with the ids below it left out.
\<close>

lemma id_index_iterates_in_order:
  assumes "ix_inv ix"
  shows "sorted_wrt (<) (ix_iter ix) \<and> set (ix_iter ix) = dom (ix_get ix)
     \<and> ix_iter_from from ix = filter (\<lambda>i. from \<le> i) (ix_iter ix)"
  using ix_iter_sorted [OF assms] ix_iter_from_filter [OF assms] by simp

text \<open>
  A relocation visits the documents in id order, its closure's state carried from each to the
  next, and each ends where the closure put it.
\<close>

lemma relocate_visits_in_order:
  assumes "ix_inv ix" "ix_relocate f st ix = (st', ix')"
    and "\<forall>p\<in>set (snd (run_each f st (live_locs ix))). \<not> loc_is_empty (snd p)"
  shows "ix_inv ix' \<and> run_each f st (live_locs ix) = (st', live_locs ix') \<and> ix_get ix' = map_of (live_locs ix')
     \<and> map fst (live_locs ix') = ix_iter ix"
proof -
  note R = ix_relocate_spec [OF assms]
  have "map fst (live_locs ix') = map fst (live_locs ix)" using R run_each_keys [of f st "live_locs ix"] by simp
  with R map_of_live_locs [of ix'] show ?thesis by (simp add: live_locs_def comp_def)
qed

end
