(* ===== verification/Fenec_Doc_Map.thy ===== *)
theory Fenec_Doc_Map
  imports Fenec_Id_Map Fenec_Id_Index
begin

text \<open>
  \<open>DocMap\<close> of \<open>fenec-core/src/store.rs\<close>: a number above zero for each document id, 0 for
  none, dense where the ids are and sparse where they are not. Unlike the id index it leaves a
  sparse number where it is when the array grows over it, and moves it when it is written again.
  Its interpretation of the map contract is the second one.
\<close>

record doc_map =
  numbers :: "u32 list"
  beyond :: "(nat \<times> u32) list"
  held :: nat

definition dm_default :: doc_map where
  "dm_default = \<lparr>numbers = [], beyond = [], held = 0\<rparr>"

definition dm_in_dense :: "doc_map \<Rightarrow> nat \<Rightarrow> bool" where
  "dm_in_dense m doc \<longleftrightarrow> 1 \<le> doc \<and> doc \<le> length (numbers m)"

definition unwrap_zero :: "u32 option \<Rightarrow> u32" where
  "unwrap_zero n = (case n of Some n \<Rightarrow> n | None \<Rightarrow> 0)"

definition dm_get :: "doc_map \<Rightarrow> nat \<Rightarrow> u32" where
  "dm_get m doc =
     (if dm_in_dense m doc \<and> (numbers m ! (doc - 1) \<noteq> 0 \<or> beyond m = [])
      then numbers m ! (doc - 1)
      else unwrap_zero (map_of (beyond m) doc))"

definition take_sparse :: "nat \<Rightarrow> doc_map \<Rightarrow> u32 \<times> doc_map" where
  "take_sparse doc m =
     (if beyond m = [] then (0, m)
      else (unwrap_zero (map_of (beyond m) doc), m\<lparr>beyond := AList.delete doc (beyond m)\<rparr>))"

definition replace_slot :: "nat \<Rightarrow> u32 \<Rightarrow> doc_map \<Rightarrow> u32 \<times> doc_map" where
  "replace_slot doc n m =
     (let old = numbers m ! (doc - 1); m = m\<lparr>numbers := (numbers m)[doc - 1 := n]\<rparr>
      in if old = 0 then take_sparse doc m else (old, m))"

definition dm_room :: "nat \<Rightarrow> doc_map \<Rightarrow> doc_map" where
  "dm_room doc m =
     (if \<not> dm_in_dense m doc \<and> 1 \<le> doc \<and> doc - length (numbers m) \<le> max_dense_gap
      then m\<lparr>numbers := resize doc 0 (numbers m)\<rparr> else m)"

definition dm_insert :: "nat \<Rightarrow> u32 \<Rightarrow> doc_map \<Rightarrow> u32 option \<times> doc_map" where
  "dm_insert doc n m =
     (let m = dm_room doc m;
          (old, m) = (if dm_in_dense m doc then replace_slot doc n m
                      else (unwrap_zero (map_of (beyond m) doc),
                            m\<lparr>beyond := AList.update doc n (beyond m)\<rparr>))
      in if old \<noteq> 0 then (Some old, m) else (None, m\<lparr>held := held m + 1\<rparr>))"

definition dm_remove :: "nat \<Rightarrow> doc_map \<Rightarrow> u32 option \<times> doc_map" where
  "dm_remove doc m =
     (let (old, m) = (if dm_in_dense m doc then replace_slot doc 0 m else take_sparse doc m)
      in if old = 0 then (None, m) else (Some old, m\<lparr>held := held m - 1\<rparr>))"

definition dm_len :: "doc_map \<Rightarrow> nat" where
  "dm_len m = held m"

definition dm_clear :: "doc_map \<Rightarrow> doc_map" where
  "dm_clear m = dm_default"

section \<open>The invariant\<close>

text \<open>No id has a number in both places, so the count is that of the two together.\<close>

abbreviation dm_slots :: "u32 list \<Rightarrow> nat \<rightharpoonup> u32" where
  "dm_slots \<equiv> slots (\<lambda>n. n = 0)"

definition dm_inv :: "doc_map \<Rightarrow> bool" where
  "dm_inv m \<longleftrightarrow>
     distinct (map fst (beyond m))
     \<and> (\<forall>(k, n)\<in>set (beyond m). n \<noteq> 0 \<and> dm_slots (numbers m) k = None)
     \<and> held m = length (filter (\<lambda>n. n \<noteq> 0) (numbers m)) + length (beyond m)"

definition dm_lookup :: "doc_map \<Rightarrow> nat \<rightharpoonup> u32" where
  "dm_lookup m doc = (if dm_get m doc = 0 then None else Some (dm_get m doc))"

lemma dm_lookup_either:
  assumes "dm_inv m"
  shows "dm_lookup m = either (\<lambda>n. n = 0) (numbers m) (beyond m)"
proof (rule ext)
  fix doc
  have nz: "map_of (beyond m) doc = Some n \<Longrightarrow> n \<noteq> 0" for n
    using assms map_of_SomeD by (fastforce simp: dm_inv_def)
  show "dm_lookup m doc = either (\<lambda>n. n = 0) (numbers m) (beyond m) doc"
  proof (cases "dm_in_dense m doc \<and> numbers m ! (doc - 1) \<noteq> 0")
    case True
    then have s: "dm_slots (numbers m) doc = Some (numbers m ! (doc - 1))"
      by (simp add: slots_def dm_in_dense_def)
    with True show ?thesis by (simp add: dm_lookup_def dm_get_def either_def map_add_def)
  next
    case False
    then have s: "dm_slots (numbers m) doc = None" by (auto simp: slots_def dm_in_dense_def)
    have "dm_get m doc = unwrap_zero (map_of (beyond m) doc)"
      using False by (auto simp: dm_get_def unwrap_zero_def)
    with s nz show ?thesis
      by (cases "map_of (beyond m) doc") (simp_all add: dm_lookup_def unwrap_zero_def either_def map_add_def)
  qed
qed

text \<open>What a slot and the map hold for one id, once its slot is written and its entry taken.\<close>

lemma take_sparse_spec:
  assumes "distinct (map fst (beyond m))" "\<forall>(k, n)\<in>set (beyond m). n \<noteq> 0" "take_sparse doc m = (old, m')"
  shows "old = unwrap_zero (map_of (beyond m) doc) \<and> numbers m' = numbers m \<and> held m' = held m
     \<and> beyond m' = AList.delete doc (beyond m)
     \<and> length (beyond m') + (if old = 0 then 0 else 1) = length (beyond m)"
proof -
  have e: "old = unwrap_zero (map_of (beyond m) doc)" "beyond m' = AList.delete doc (beyond m)"
    "numbers m' = numbers m" "held m' = held m"
    using assms(3) by (auto simp: take_sparse_def unwrap_zero_def split: if_splits)
  have "length (AList.delete doc (beyond m)) + (if unwrap_zero (map_of (beyond m) doc) = 0 then 0 else 1)
      = length (beyond m)"
  proof (cases "map_of (beyond m) doc")
    case None
    then have "doc \<notin> fst ` set (beyond m)" by (simp add: map_of_eq_None_iff)
    with None show ?thesis by (simp add: unwrap_zero_def)
  next
    case (Some n)
    moreover have "n \<noteq> 0" using Some assms(2) map_of_SomeD by fastforce
    ultimately show ?thesis using length_delete [OF assms(1), of doc] by (simp add: unwrap_zero_def)
  qed
  with e show ?thesis by simp
qed

lemma dm_inv_rest:
  assumes "dm_inv m"
  shows "distinct (map fst (beyond m))" "\<forall>(k, n)\<in>set (beyond m). n \<noteq> 0"
    "k \<in> fst ` set (beyond m) \<Longrightarrow> dm_slots (numbers m) k = None"
  using assms by (auto simp: dm_inv_def)

text \<open>Growing the array moves nothing.\<close>

lemma dm_grow:
  assumes "dm_inv m" "length (numbers m) \<le> n"
  shows "dm_inv (m\<lparr>numbers := resize n 0 (numbers m)\<rparr>)
     \<and> dm_lookup (m\<lparr>numbers := resize n 0 (numbers m)\<rparr>) = dm_lookup m"
proof
  show i: "dm_inv (m\<lparr>numbers := resize n 0 (numbers m)\<rparr>)"
    using assms by (simp add: dm_inv_def resize_grow slots_grow)
  show "dm_lookup (m\<lparr>numbers := resize n 0 (numbers m)\<rparr>) = dm_lookup m"
    using assms unfolding dm_lookup_either [OF i] dm_lookup_either [OF assms(1)]
    by (simp add: either_def resize_grow slots_grow)
qed

lemma replace_slot_spec:
  assumes "dm_inv m" "dm_in_dense m doc" "replace_slot doc n m = (old, m')"
  shows "dm_inv (m'\<lparr>held := held m + (if n = 0 then 0 else 1) - (if old = 0 then 0 else 1)\<rparr>)
     \<and> dm_lookup (m'\<lparr>held := h\<rparr>) = (dm_lookup m)(doc := if n = 0 then None else Some n)
     \<and> (dm_lookup m doc = (if old = 0 then None else Some old)) \<and> held m' = held m"
proof -
  have lk: "dm_lookup (m'\<lparr>held := h\<rparr>) = dm_lookup m'" for m' h
    by (rule ext, cases m') (simp only: dm_lookup_def dm_get_def dm_in_dense_def doc_map.simps)
  from assms(2) have i: "1 \<le> doc" "doc \<le> length (numbers m)" "doc - 1 < length (numbers m)"
    by (auto simp: dm_in_dense_def)
  let ?old = "numbers m ! (doc - 1)" and ?ns = "(numbers m)[doc - 1 := n]"
  note L = length_filter_update [OF i(3), of "\<lambda>n. n = 0" n]
  note S = slots_update [OF i(1,2), of "\<lambda>n. n = 0" n]
  note R = dm_inv_rest [OF assms(1)]
  have slot: "dm_slots (numbers m) doc = (if ?old = 0 then None else Some ?old)"
    using i by (simp add: slots_def)
  obtain s where s: "beyond m' = s" "numbers m' = ?ns" "held m' = held m" "s = AList.delete doc (beyond m)"
    "length s + (if old = 0 then 0 else 1) = length (beyond m) + (if ?old = 0 then 0 else 1)"
    "dm_lookup m doc = (if old = 0 then None else Some old)"
  proof (cases "?old = 0")
    case True
    with assms(3) have "take_sparse doc (m\<lparr>numbers := ?ns\<rparr>) = (old, m')" by (simp add: replace_slot_def Let_def)
    from take_sparse_spec [OF _ _ this] R(1,2)
    have t: "old = unwrap_zero (map_of (beyond m) doc)" "numbers m' = ?ns" "held m' = held m"
      "beyond m' = AList.delete doc (beyond m)" "length (beyond m') + (if old = 0 then 0 else 1) = length (beyond m)"
      by auto
    moreover have "dm_lookup m doc = (if old = 0 then None else Some old)"
      using True t(1) by (auto simp: dm_lookup_def dm_get_def unwrap_zero_def)
    ultimately show ?thesis using that [of "beyond m'"] True by simp
  next
    case False
    then have "doc \<notin> fst ` set (beyond m)" using slot R(3) [of doc] by auto
    then have "AList.delete doc (beyond m) = beyond m" by simp
    moreover have "old = ?old" "m' = m\<lparr>numbers := ?ns\<rparr>" using False assms(3) by (auto simp: replace_slot_def Let_def)
    moreover have "dm_lookup m doc = Some ?old" using False assms(2) by (simp add: dm_lookup_def dm_get_def)
    ultimately show ?thesis using that [of "beyond m"] False by simp
  qed
  have inv: "dm_inv (m'\<lparr>held := held m + (if n = 0 then 0 else 1) - (if old = 0 then 0 else 1)\<rparr>)"
    (is "dm_inv ?m")
    unfolding dm_inv_def
  proof (intro conjI)
    show "distinct (map fst (beyond ?m))" using R(1) s by (simp add: distinct_delete)
    show "\<forall>(k, x)\<in>set (beyond ?m). x \<noteq> 0 \<and> dm_slots (numbers ?m) k = None"
      using R(2,3) s S by (force simp: delete_filter)
    show "held ?m = length (filter (\<lambda>n. n \<noteq> 0) (numbers ?m)) + length (beyond ?m)"
      using assms(1) s(1-5) L by (auto simp: dm_inv_def split: if_splits)
  qed
  have "dm_lookup m' = (dm_lookup m)(doc := if n = 0 then None else Some n)"
  proof -
    have "dm_lookup m' = dm_lookup ?m" by (simp add: lk)
    also have "\<dots> = either (\<lambda>n. n = 0) ?ns (AList.delete doc (beyond m))"
      using dm_lookup_either [OF inv] s by simp
    also have "\<dots> = (dm_lookup m)(doc := if n = 0 then None else Some n)"
      unfolding dm_lookup_either [OF assms(1)] either_def S
      by (auto simp: delete_conv fun_eq_iff map_add_def split: option.splits)
    finally show ?thesis .
  qed
  with inv s show ?thesis by (simp add: lk)
qed

lemma dm_insert_spec:
  assumes "dm_inv m" "1 \<le> doc" "n \<noteq> 0" "dm_insert doc n m = (old, m')"
  shows "dm_inv m' \<and> dm_lookup m' = (dm_lookup m)(doc \<mapsto> n) \<and> old = dm_lookup m doc"
proof -
  define g where "g = dm_room doc m"
  have g: "dm_inv g" "dm_lookup g = dm_lookup m" "held g = held m"
    using assms(1,2) dm_grow [of m doc] by (auto simp: g_def dm_room_def dm_in_dense_def)
  show ?thesis
  proof (cases "dm_in_dense g doc")
    case True
    obtain r p where rp: "replace_slot doc n g = (r, p)" by force
    have e: "m' = (if r \<noteq> 0 then p else p\<lparr>held := held p + 1\<rparr>)" "old = (if r \<noteq> 0 then Some r else None)"
      using assms(4) True rp by (auto simp: dm_insert_def Let_def simp flip: g_def split: if_splits)
    note S = replace_slot_spec [OF g(1) True rp]
    have same: "p\<lparr>held := held g\<rparr> = p" using S [of 0] by (metis doc_map.surjective doc_map.update_convs(3))
    have "dm_inv (p\<lparr>held := held g\<rparr>)" if "r \<noteq> 0" using S [of 0] that assms(3) by simp
    moreover have "dm_lookup (p\<lparr>held := held g\<rparr>) = (dm_lookup g)(doc \<mapsto> n)"
      using S [of "held g"] assms(3) by simp
    ultimately have "r \<noteq> 0 \<Longrightarrow> dm_inv p" "dm_lookup p = (dm_lookup g)(doc \<mapsto> n)" unfolding same by blast+
    with S [of "held g + 1"] assms(3) g e show ?thesis by (cases "r = 0") auto
  next
    case False
    let ?b = "AList.update doc n (beyond g)"
    have len: "length (AList.update doc n s) = (if map_of s doc = None then Suc (length s) else length s)" for s
      by (induction s) auto
    have el: "(k, v) \<in> set (AList.update doc n s) \<Longrightarrow> (k, v) = (doc, n) \<or> (k, v) \<in> set s" for k v s
      by (induction s) (auto split: if_splits)
    have so: "dm_slots (numbers g) doc = None" using False by (auto simp: slots_def dm_in_dense_def)
    have nz: "map_of (beyond g) doc = Some x \<Longrightarrow> x \<noteq> 0" for x
      using dm_inv_rest(2) [OF g(1)] map_of_SomeD by fastforce
    have lg: "dm_lookup g doc = map_of (beyond g) doc"
      using so by (simp add: dm_lookup_either [OF g(1)] either_def map_add_def)
    have e: "m' = g\<lparr>beyond := ?b, held := held g + (if map_of (beyond g) doc = None then 1 else 0)\<rparr>"
      "old = map_of (beyond g) doc"
      using assms(4) False nz
      by (auto simp: dm_insert_def unwrap_zero_def Let_def simp flip: g_def split: if_splits option.splits)
    have inv: "dm_inv m'"
      using g(1) assms(3) so by (auto simp: e dm_inv_def distinct_update len dest!: el)
    have "dm_lookup m' = (dm_lookup g)(doc \<mapsto> n)"
      unfolding dm_lookup_either [OF inv] dm_lookup_either [OF g(1)] either_def using so
      by (auto simp: e update_conv' fun_eq_iff map_add_def split: option.splits)
    with inv e lg g show ?thesis by simp
  qed
qed

lemma dm_remove_spec:
  assumes "dm_inv m" "dm_remove doc m = (old, m')"
  shows "dm_inv m' \<and> dm_lookup m' = (dm_lookup m)(doc := None) \<and> old = dm_lookup m doc"
proof (cases "dm_in_dense m doc")
  case True
  obtain r p where rp: "replace_slot doc 0 m = (r, p)" by force
  have e: "m' = (if r = 0 then p else p\<lparr>held := held p - 1\<rparr>)" "old = (if r = 0 then None else Some r)"
    using assms(2) True rp by (auto simp: dm_remove_def split: if_splits)
  note S = replace_slot_spec [OF assms(1) True rp]
  have same: "p\<lparr>held := held m\<rparr> = p" using S [of 0] by (metis doc_map.surjective doc_map.update_convs(3))
  have "dm_inv (p\<lparr>held := held m\<rparr>)" if "r = 0" using S [of 0] that by simp
  moreover have "dm_lookup (p\<lparr>held := held m\<rparr>) = (dm_lookup m)(doc := None)"
    using S [of "held m"] by simp
  ultimately have "r = 0 \<Longrightarrow> dm_inv p" "dm_lookup p = (dm_lookup m)(doc := None)" unfolding same by blast+
  with S [of "held m - 1"] e show ?thesis by (cases "r = 0") auto
next
  case False
  note R = dm_inv_rest [OF assms(1)]
  obtain r p where rp: "take_sparse doc m = (r, p)" by force
  from take_sparse_spec [OF R(1,2) rp] have t: "r = unwrap_zero (map_of (beyond m) doc)" "numbers p = numbers m"
    "held p = held m" "beyond p = AList.delete doc (beyond m)"
    "length (beyond p) + (if r = 0 then 0 else 1) = length (beyond m)" by auto
  have so: "dm_slots (numbers m) doc = None" using False by (auto simp: slots_def dm_in_dense_def)
  have nz: "map_of (beyond m) doc = Some x \<Longrightarrow> x \<noteq> 0" for x
    using R(2) map_of_SomeD by fastforce
  have lm: "dm_lookup m doc = map_of (beyond m) doc"
    using so by (simp add: dm_lookup_either [OF assms(1)] either_def map_add_def)
  have e: "m' = (if r = 0 then p else p\<lparr>held := held p - 1\<rparr>)" "old = map_of (beyond m) doc"
    using assms(2) False rp t(1) nz by (auto simp: dm_remove_def unwrap_zero_def split: if_splits option.splits)
  then have m': "numbers m' = numbers m" "beyond m' = AList.delete doc (beyond m)"
    "held m' + (if r = 0 then 0 else 1) = held m" "length (beyond m') + (if r = 0 then 0 else 1) = length (beyond m)"
    using t assms(1) by (auto simp: dm_inv_def split: if_splits)
  have inv: "dm_inv m'"
    using assms(1) m' by (auto simp: dm_inv_def distinct_delete dest: set_mp [OF delete_set_subset] split: if_splits)
  have "dm_lookup m' = (dm_lookup m)(doc := None)"
    unfolding dm_lookup_either [OF inv] dm_lookup_either [OF assms(1)] either_def using so m'
    by (auto simp: delete_conv fun_eq_iff map_add_def split: option.splits)
  with inv e lm show ?thesis by simp
qed

interpretation dm: id_map dm_default "\<lambda>doc n m. snd (dm_insert doc n m)" "\<lambda>doc m. snd (dm_remove doc m)"
  dm_lookup dm_len dm_inv "\<lambda>n. n \<noteq> 0"
proof unfold_locales
  show i: "dm_inv dm_default" by (simp add: dm_inv_def dm_default_def)
  show "dm_lookup dm_default = Map.empty"
    unfolding dm_lookup_either [OF i] by (simp add: either_def dm_default_def)
  fix s :: doc_map and doc :: nat and n :: u32
  assume s: "dm_inv s"
  have D: "dom (dm_lookup s) = dom (dm_slots (numbers s)) \<union> fst ` set (beyond s)"
    "dom (dm_slots (numbers s)) \<inter> fst ` set (beyond s) = {}"
    using s by (auto simp: dm_lookup_either either_def dom_map_of_conv_image_fst dm_inv_def)
  show "finite (dom (dm_lookup s))" by (simp add: D)
  have "card (fst ` set (beyond s)) = length (beyond s)"
    using dm_inv_rest(1) [OF s] distinct_card [of "map fst (beyond s)"] by simp
  then show "dm_len s = card (dom (dm_lookup s))"
    using s by (simp add: D card_Un_disjoint card_dom_slots dm_len_def dm_inv_def)
  assume doc: "1 \<le> doc"
  show "dm_lookup (snd (dm_remove doc s)) = (dm_lookup s)(doc := None)" "dm_inv (snd (dm_remove doc s))"
    using dm_remove_spec [OF s] by (metis prod.collapse)+
  assume "n \<noteq> 0"
  then show "dm_lookup (snd (dm_insert doc n s)) = (dm_lookup s)(doc \<mapsto> n)" "dm_inv (snd (dm_insert doc n s))"
    using dm_insert_spec [OF s doc] by (metis prod.collapse)+
qed

section \<open>Properties\<close>

definition dm_run :: "u32 id_op list \<Rightarrow> doc_map" where
  "dm_run ops = fold (\<lambda>p. case p of Put doc n \<Rightarrow> (\<lambda>m. snd (dm_insert doc n m)) | Remove doc \<Rightarrow> (\<lambda>m. snd (dm_remove doc m))) ops dm_default"

lemma dm_run_fold: "dm_run ops = fold dm.run_op ops dm_default"
  unfolding dm_run_def by (intro fold_cong) (auto simp: fun_eq_iff split: id_op.splits)

text \<open>
  The document map is a map of numbers above zero: over any sequence of insertions and
  removals it holds what a map would, a sparse number the array grew over included, and counts
  each id once.
\<close>

lemma doc_map_refines_map:
  assumes "\<forall>p\<in>set ops. 1 \<le> op_id p \<and> (\<forall>n\<in>op_vals p. n \<noteq> 0)"
  shows "dm_get (dm_run ops) doc = unwrap_zero (fold apply_op ops Map.empty doc)
     \<and> dm_len (dm_run ops) = card (dom (fold apply_op ops Map.empty))"
proof -
  have "dm_lookup (dm_run ops) = fold apply_op ops Map.empty"
    using dm.run_refines [OF dm.invar_empty assms] by (simp add: dm_run_fold dm.get_empty)
  moreover have "dm_get m doc = unwrap_zero (dm_lookup m doc)" for m by (simp add: dm_lookup_def unwrap_zero_def)
  ultimately show ?thesis using dm.len_after_run [OF assms] by (simp add: dm_run_fold)
qed

end
