(* ===== verification/Fenec_Store.thy ===== *)
theory Fenec_Store
  imports Fenec_Document Fenec_Doc_Map
begin

unbundle bit_operations_syntax

text \<open>
  The append-only segment store (\<open>fenec-core/src/store.rs\<close>): segments that only grow, the
  mapped file some records stay in, and the id index pointing at payloads in either. This theory
  holds its state and its operations; \<open>Fenec_Store_Laws\<close> what they do.

  A \<open>u64\<close> place in the file and a \<open>usize\<close> count are naturals; what the bytes of a file say is
  added with the wrap-around of the code. Capacities are not part of the state.
\<close>

section \<open>State\<close>

definition op_put :: u8 where "op_put = 1"
definition op_del :: u8 where "op_del = 2"

definition segment_max :: nat where
  "segment_max = 8 * 1024 * 1024"

record segment =
  seg_data :: bytes
  sealed :: bool

definition seg_default :: segment where
  "seg_default = \<lparr>seg_data = [], sealed = False\<rparr>"

record store =
  segments :: "segment list"
  base :: "(bytes \<times> (nat \<times> nat) list) option"
  index :: id_index
  next_id :: nat
  dead_bytes :: nat
  total_bytes :: nat
  dropped :: "nat list"

definition store_new :: store where
  "store_new = \<lparr>segments = [seg_default], base = None, index = ix_default, next_id = 1,
     dead_bytes = 0, total_bytes = 0, dropped = []\<rparr>"

section \<open>Places in the mapped file\<close>

definition mapped_bit :: u32 where
  "mapped_bit = 0x80000000"

definition mapped_loc :: "nat \<Rightarrow> u32 \<Rightarrow> loc" where
  "mapped_loc at n =
     \<lparr>seg = mapped_bit OR ucast (drop_bit 32 (word_of_nat at :: u64)),
      off = ucast (word_of_nat at :: u64), plen = n\<rparr>"

definition is_mapped_loc :: "loc \<Rightarrow> bool" where
  "is_mapped_loc l \<longleftrightarrow> seg l AND mapped_bit \<noteq> 0"

definition mapped_at :: "loc \<Rightarrow> nat" where
  "mapped_at l = unat (push_bit 32 (ucast (seg l AND NOT mapped_bit) :: u64) OR ucast (off l))"

definition image_place :: "loc \<Rightarrow> (nat \<times> nat) list \<Rightarrow> nat list \<Rightarrow> nat" where
  "image_place l stretches segs =
     (if is_mapped_loc l then
        (let from = mapped_at l;
             k = partition_point (\<lambda>s. fst s \<le> from) stretches - 1
         in snd (stretches ! k) + (from - fst (stretches ! k)))
      else segs ! unat (seg l) + unat (off l))"

section \<open>Reading\<close>

definition e_outside_file :: error where "e_outside_file = Corrupt ''offset outside the mapped file''"
definition e_no_segment :: error where "e_no_segment = Corrupt ''no such segment''"
definition e_outside_segment :: error where "e_outside_segment = Corrupt ''offset outside the segment''"
definition e_record_outside :: error where "e_record_outside = Corrupt ''data record outside the mapped file''"

definition segment_payload :: "segment list \<Rightarrow> loc \<Rightarrow> bytes result" where
  "segment_payload gs l =
     (if unat (seg l) < length gs then
        ok_or e_outside_segment
          (get_range (seg_data (gs ! unat (seg l))) (unat (off l)) (unat (off l) + unat (plen l)))
      else Err e_no_segment)"

definition payload :: "store \<Rightarrow> loc \<Rightarrow> bytes result" where
  "payload s l =
     (case (is_mapped_loc l, base s) of
        (True, Some (file, _)) \<Rightarrow>
          ok_or e_outside_file (get_range file (mapped_at l) (mapped_at l + unat (plen l)))
      | _ \<Rightarrow> segment_payload (segments s) l)"

definition raw :: "store \<Rightarrow> nat \<Rightarrow> bytes option result" where
  "raw s doc = (case ix_get (index s) doc of Some l \<Rightarrow> map_ok Some (payload s l) | None \<Rightarrow> Ok None)"

section \<open>Writing\<close>

definition usize_sub :: "usize \<Rightarrow> usize \<Rightarrow> usize" where
  "usize_sub a b = (a + 2 ^ 64 - b) mod 2 ^ 64"

definition set_dropped :: "nat list \<Rightarrow> store \<Rightarrow> store" where
  "set_dropped ds s = s\<lparr>dropped := ds\<rparr>"

definition allocate_id :: "store \<Rightarrow> nat \<times> store" where
  "allocate_id s = (next_id s, s\<lparr>next_id := (next_id s + 1) mod 2 ^ 64\<rparr>)"

definition raise_next_id :: "nat \<Rightarrow> store \<Rightarrow> store" where
  "raise_next_id v s = s\<lparr>next_id := max (next_id s) v\<rparr>"

definition frame :: "u8 \<Rightarrow> nat \<Rightarrow> bytes \<Rightarrow> bytes" where
  "frame op doc p = op # put_uvarint (word_of_nat doc) @ put_len p @ p"

definition active :: "store \<Rightarrow> store" where
  "active s =
     (if segments s \<noteq> [] \<and> segment_max \<le> length (seg_data (last (segments s)))
      then s\<lparr>segments := butlast (segments s) @ [(last (segments s))\<lparr>sealed := True\<rparr>, seg_default]\<rparr>
      else s)"

definition extend_last :: "bytes \<Rightarrow> store \<Rightarrow> store" where
  "extend_last bs s =
     s\<lparr>segments := butlast (segments s)
        @ [(last (segments s))\<lparr>seg_data := seg_data (last (segments s)) @ bs\<rparr>]\<rparr>"

text \<open>
  The bookkeeping of a frame, once its bytes are where they stay: the record it supersedes
  counted dead, the index pointed at it. \<open>flen\<close> is the frame's length, \<open>l\<close> its payload's place.
\<close>

definition note_old :: "nat \<Rightarrow> store \<Rightarrow> store" where
  "note_old doc s =
     (case ix_get (index s) doc of
        Some old \<Rightarrow> s\<lparr>dead_bytes := dead_bytes s + unat (plen old)\<rparr>
      | None \<Rightarrow> s)"

definition land :: "u8 \<Rightarrow> nat \<Rightarrow> nat \<Rightarrow> loc \<Rightarrow> store \<Rightarrow> store" where
  "land op doc flen l s =
     (let s = s\<lparr>total_bytes := total_bytes s + flen\<rparr> in
      if op = op_put then
        s\<lparr>index := ix_insert doc l (index s),
          next_id := (if next_id s \<le> doc then (doc + 1) mod 2 ^ 64 else next_id s)\<rparr>
      else if op = op_del then
        s\<lparr>index := fst (ix_remove doc (index s)), dead_bytes := dead_bytes s + flen\<rparr>
      else s)"

definition land_frame :: "u8 \<Rightarrow> nat \<Rightarrow> bytes \<Rightarrow> nat \<Rightarrow> store \<Rightarrow> store" where
  "land_frame op doc fr n s =
     (let s = active (note_old doc s);
          at = usize_add (length (seg_data (last (segments s)))) (usize_sub (length fr) n);
          l = \<lparr>seg = word_of_nat (length (segments s) - 1), off = word_of_nat at, plen = word_of_nat n\<rparr>
      in land op doc (length fr) l (extend_last fr s))"

definition append :: "u8 \<Rightarrow> nat \<Rightarrow> bytes \<Rightarrow> store \<Rightarrow> store \<times> bytes" where
  "append op doc p s = (land_frame op doc (frame op doc p) (length p) s, frame op doc p)"

definition append_onto :: "u8 \<Rightarrow> nat \<Rightarrow> bytes \<Rightarrow> bytes \<Rightarrow> store \<Rightarrow> store \<times> bytes" where
  "append_onto op doc p out s =
     (let from = length out; out = out @ op # put_uvarint (word_of_nat doc) @ put_len p @ p
      in (land_frame op doc (drop from out) (length p) s, out))"

section \<open>Marks\<close>

record mark =
  m_segments :: nat
  m_len :: nat
  m_sealed :: bool
  m_stretches :: nat
  m_next_id :: nat
  m_dead :: nat
  m_total :: nat

definition take_mark :: "store \<Rightarrow> mark" where
  "take_mark s =
     \<lparr>m_segments = length (segments s),
      m_len = (if segments s = [] then 0 else length (seg_data (last (segments s)))),
      m_sealed = (segments s \<noteq> [] \<and> sealed (last (segments s))),
      m_stretches = (case base s of None \<Rightarrow> 0 | Some (_, st) \<Rightarrow> length st),
      m_next_id = next_id s, m_dead = dead_bytes s, m_total = total_bytes s\<rparr>"

definition spilled :: "nat \<Rightarrow> mark \<Rightarrow> mark" where
  "spilled stretches m = m\<lparr>m_segments := 1, m_len := 0, m_sealed := False, m_stretches := stretches\<rparr>"

definition store_loc :: "store \<Rightarrow> nat \<Rightarrow> loc option" where
  "store_loc s doc = ix_get (index s) doc"

definition point :: "nat \<Rightarrow> loc option \<Rightarrow> store \<Rightarrow> store" where
  "point doc l s =
     s\<lparr>index := (case l of Some l \<Rightarrow> ix_insert doc l (index s) | None \<Rightarrow> fst (ix_remove doc (index s)))\<rparr>"

definition cut_last :: "nat \<Rightarrow> bool \<Rightarrow> segment list \<Rightarrow> segment list" where
  "cut_last n b sgs =
     (if sgs = [] then []
      else butlast sgs @ [\<lparr>seg_data = take n (seg_data (last sgs)), sealed = b\<rparr>])"

definition rewind :: "mark \<Rightarrow> store \<Rightarrow> store" where
  "rewind m s =
     s\<lparr>base := map_option (\<lambda>(file, st). (file, take (m_stretches m) st)) (base s),
       segments := cut_last (m_len m) (m_sealed m) (take (max (m_segments m) 1) (segments s)),
       next_id := m_next_id m, dead_bytes := m_dead m, total_bytes := m_total m\<rparr>"

section \<open>Replay\<close>

text \<open>The head of a frame: its op, its id, its payload's length, and where the payload starts.\<close>

definition frame_head :: "bytes \<Rightarrow> usize \<Rightarrow> (u8 \<times> nat \<times> usize \<times> usize) result" where
  "frame_head bs pos =
     and_then (get_uvarint bs (pos + 1)) (\<lambda>(doc, p).
     and_then (get_usize bs p) (\<lambda>(n, p). Ok (bs ! pos, unat doc, n, p)))"

text \<open>
  A length near \<open>2 ^ 64\<close> wraps the frame's end around to before its payload: the slice panics
  where that is before the frame, and the loop may go back on itself where it is not, so whether
  it returns is part of what it means. It hands back the store as it left it, the ids noted and
  the count.
\<close>

partial_function (option) replay_loop :: "bytes \<Rightarrow> store \<Rightarrow> usize \<Rightarrow> nat list \<Rightarrow> nat \<Rightarrow> (store \<times> nat list \<times> nat result) option" where
  "replay_loop bs s pos noted cnt =
     (if pos < length bs then
        (case frame_head bs pos of
           Err e \<Rightarrow> Some (s, noted, Err e)
         | Panic \<Rightarrow> Some (s, noted, Panic)
         | Ok h \<Rightarrow>
             (let (op, doc, n, p) = h; e = usize_add p n in
              if length bs < e then Some (s, noted, Ok cnt)
              else if e < pos then Some (s, noted, Panic)
              else replay_loop bs (land_frame op doc (take (e - pos) (drop pos bs)) n s) e (noted @ [doc]) (cnt + 1)))
      else Some (s, noted, Ok cnt))"

definition replay_noting :: "bytes \<Rightarrow> store \<Rightarrow> (store \<times> nat list \<times> nat result) option" where
  "replay_noting bs s = replay_loop bs s 0 [] 0"

definition replay :: "bytes \<Rightarrow> store \<Rightarrow> (store \<times> nat result) option" where
  "replay bs s = map_option (\<lambda>(s, _, r). (s, r)) (replay_noting bs s)"

partial_function (option) replay_mapped_loop :: "bytes \<Rightarrow> nat \<Rightarrow> store \<Rightarrow> usize \<Rightarrow> nat list \<Rightarrow> nat \<Rightarrow> (store \<times> usize \<times> nat list \<times> nat result) option" where
  "replay_mapped_loop bs at s pos noted cnt =
     (if pos < length bs then
        (case frame_head bs pos of
           Err e \<Rightarrow> Some (s, pos, noted, Err e)
         | Panic \<Rightarrow> Some (s, pos, noted, Panic)
         | Ok h \<Rightarrow>
             (let (op, doc, n, p) = h; e = usize_add p n in
              if length bs < e then Some (s, pos, noted, Ok cnt)
              else replay_mapped_loop bs at
                (land op doc (usize_sub e pos) (mapped_loc (at + p) (word_of_nat n)) (note_old doc s))
                e (noted @ [doc]) (cnt + 1)))
      else Some (s, pos, noted, Ok cnt))"

definition replay_mapped :: "bytes \<Rightarrow> nat \<Rightarrow> nat \<Rightarrow> store \<Rightarrow> (store \<times> nat list \<times> nat result) option" where
  "replay_mapped file at len s =
     (case get_range file at (usize_add at len) of
        None \<Rightarrow> Some (s, [], Err e_record_outside)
      | Some bs \<Rightarrow>
          (case replay_mapped_loop bs at s 0 [] 0 of
             None \<Rightarrow> None
           | Some (s, pos, noted, Ok cnt) \<Rightarrow>
               (let (b, st) = (case base s of None \<Rightarrow> (file, []) | Some bst \<Rightarrow> bst)
                in Some (s\<lparr>base := Some (b, st @ [(at, pos)])\<rparr>, noted, Ok cnt))
           | Some (s, _, noted, r) \<Rightarrow> Some (s, noted, r)))"

section \<open>Images\<close>

definition heap_bytes :: "store \<Rightarrow> nat" where
  "heap_bytes s = sum_list (map (\<lambda>g. length (seg_data g)) (segments s))"

text \<open>A stretch is sliced out of the file whatever it says, so one past its end panics.\<close>

fun stretch_bytes :: "bytes \<Rightarrow> (nat \<times> nat) list \<Rightarrow> bytes result" where
  "stretch_bytes file [] = Ok []"
| "stretch_bytes file ((at, len) # st) =
     (case get_range file at (usize_add at len) of
        None \<Rightarrow> Panic
      | Some bs \<Rightarrow> map_ok (\<lambda>rest. bs @ rest) (stretch_bytes file st))"

definition image :: "store \<Rightarrow> bytes result" where
  "image s =
     map_ok (\<lambda>mapped. mapped @ concat (map seg_data (segments s)))
       (case base s of None \<Rightarrow> Ok [] | Some (file, st) \<Rightarrow> stretch_bytes file st)"

definition image_len :: "store \<Rightarrow> nat" where
  "image_len s = total_bytes s"

fun starts_from :: "nat \<Rightarrow> (nat \<times> nat) list \<Rightarrow> (nat \<times> nat) list \<times> nat" where
  "starts_from to_at [] = ([], to_at)"
| "starts_from to_at ((from, len) # st) =
     (let (rest, e) = starts_from (to_at + len) st in ((from, to_at) # rest, e))"

fun seg_starts :: "nat \<Rightarrow> segment list \<Rightarrow> nat list \<times> nat" where
  "seg_starts to_at [] = ([], to_at)"
| "seg_starts to_at (g # gs) =
     (let (rest, e) = seg_starts (to_at + length (seg_data g)) gs in (to_at # rest, e))"

definition image_starts :: "store \<Rightarrow> (nat \<times> nat) list \<times> nat list \<times> nat" where
  "image_starts s =
     (let (st, to_at) = starts_from 0 (case base s of None \<Rightarrow> [] | Some (_, st) \<Rightarrow> st);
          (sg, len) = seg_starts to_at (segments s)
      in (st, sg, len))"

definition relocate_image :: "bytes \<Rightarrow> nat \<Rightarrow> store \<Rightarrow> store" where
  "relocate_image file at s =
     (let (st, sg, len) = image_starts s;
          (_, ix) = ix_relocate (\<lambda>u doc l. (u, mapped_loc (at + image_place l st sg) (plen l))) () (index s)
      in s\<lparr>index := ix, base := Some (file, [(at, len)]), segments := [seg_default]\<rparr>)"

text \<open>The head of a put, and the live documents framed afresh in id order.\<close>

definition put_head :: "nat \<Rightarrow> nat \<Rightarrow> bytes" where
  "put_head doc n = op_put # put_uvarint (word_of_nat doc) @ put_uvarint (word_of_nat n)"

definition live_len :: "store \<Rightarrow> nat" where
  "live_len s =
     sum_list (map (\<lambda>doc. case ix_get (index s) doc of
         None \<Rightarrow> 0
       | Some l \<Rightarrow> length (put_head doc (unat (plen l))) + unat (plen l)) (ix_iter (index s)))"

fun write_live_loop :: "store \<Rightarrow> bytes \<Rightarrow> nat list \<Rightarrow> bytes \<times> unit result" where
  "write_live_loop s out [] = (out, Ok ())"
| "write_live_loop s out (doc # docs) =
     (case ix_get (index s) doc of
        None \<Rightarrow> write_live_loop s out docs
      | Some l \<Rightarrow>
          (case payload s l of
             Ok p \<Rightarrow> write_live_loop s (out @ put_head doc (length p) @ p) docs
           | Err e \<Rightarrow> (out, Err e)
           | Panic \<Rightarrow> (out, Panic)))"

definition write_live :: "store \<Rightarrow> bytes \<Rightarrow> bytes \<times> unit result" where
  "write_live s out = write_live_loop s out (ix_iter (index s))"

definition relocate_live :: "bytes \<Rightarrow> nat \<Rightarrow> store \<Rightarrow> store" where
  "relocate_live file at s =
     (let (to_at, ix) = ix_relocate (\<lambda>to_at doc l.
            (let p = to_at + length (put_head doc (unat (plen l)))
             in (p + unat (plen l), mapped_loc p (plen l)))) at (index s)
      in s\<lparr>index := ix, total_bytes := to_at - at, dead_bytes := 0,
           base := Some (file, [(at, to_at - at)]), segments := [seg_default]\<rparr>)"

fun compact_loop :: "store \<Rightarrow> nat list \<Rightarrow> store \<Rightarrow> store result" where
  "compact_loop s [] fresh = Ok fresh"
| "compact_loop s (doc # docs) fresh =
     (case ix_get (index s) doc of
        None \<Rightarrow> Panic
      | Some l \<Rightarrow> and_then (payload s l) (\<lambda>p. compact_loop s docs (fst (append op_put doc p fresh))))"

definition compacted :: "store \<Rightarrow> store result" where
  "compacted s =
     compact_loop s (ix_iter (index s)) (store_new\<lparr>next_id := next_id s, dropped := dropped s\<rparr>)"

definition compact :: "store \<Rightarrow> store \<times> unit result" where
  "compact s =
     (case compacted s of
        Ok fresh \<Rightarrow> (fresh, Ok ())
      | Err e \<Rightarrow> (s, Err e)
      | Panic \<Rightarrow> (s, Panic))"

definition let_go :: "store \<Rightarrow> store" where
  "let_go s = s\<lparr>base := None, segments := [seg_default], total_bytes := 0, dead_bytes := 0\<rparr>"

definition pinned :: "store \<Rightarrow> store" where
  "pinned s = s\<lparr>base := map_option (\<lambda>(b, _). (b, [])) (base s)\<rparr>"

end
