(* ===== verification/Fenec_Store_Laws.thy ===== *)
theory Fenec_Store_Laws
  imports Fenec_Store
begin

unbundle bit_operations_syntax

text \<open>
  What the store's operations do: the store refines a map from ids to payloads, its bytes are the
  log of the frames written, a replay of the log is the same map, and a compaction drops only what
  is dead.
\<close>

section \<open>Places in the mapped file\<close>

lemma bit_mapped_bit: "bit mapped_bit n \<longleftrightarrow> n = 31"
proof -
  have "mapped_bit = push_bit 31 1" by (simp add: mapped_bit_def)
  then have "bit mapped_bit n \<longleftrightarrow> bit (push_bit 31 1 :: u32) n" by simp
  then show ?thesis by (simp only: bit_push_bit_iff) (auto simp: bit_1_iff possible_bit_def)
qed

lemma mapped_loc_is_mapped [simp]: "is_mapped_loc (mapped_loc at n)"
proof -
  have "bit (seg (mapped_loc at n) AND mapped_bit) 31"
    by (simp only: mapped_loc_def loc.simps bit_and_iff bit_or_iff bit_mapped_bit) simp
  then show ?thesis unfolding is_mapped_loc_def by (metis bit_0_eq bot_apply bot_bool_def)
qed

lemma mapped_at_mapped_loc:
  assumes "at < 2 ^ 63"
  shows "mapped_at (mapped_loc at n) = at"
proof -
  let ?w = "word_of_nat at :: u64"
  have hi: "\<not> bit ?w 63" using assms by (simp only: bit_of_nat_iff) (simp add: bit_iff_odd)
  have "push_bit 32 (ucast (seg (mapped_loc at n) AND NOT mapped_bit) :: u64) OR ucast (off (mapped_loc at n)) = ?w"
    (is "?l = _")
  proof (rule bit_word_eqI)
    fix i
    assume i: "i < LENGTH(64)"
    have "i - 32 = 31 \<Longrightarrow> 32 \<le> i \<Longrightarrow> i = 63" by simp
    with hi i show "bit ?l i = bit ?w i"
      by (auto simp only: mapped_loc_def loc.simps bit_or_iff bit_and_iff bit_push_bit_iff bit_unsigned_iff
          bit_not_iff bit_mapped_bit bit_drop_bit_eq comp_def)
        (auto simp: possible_bit_def)
  qed
  then show ?thesis using assms by (simp add: mapped_at_def unat_of_nat)
qed

lemma plen_mapped_loc [simp]: "plen (mapped_loc at n) = n"
  by (simp add: mapped_loc_def)

lemma mapped_loc_not_empty:
  assumes "at < 2 ^ 63 - 2 ^ 32"
  shows "\<not> loc_is_empty (mapped_loc at n)"
proof
  assume "loc_is_empty (mapped_loc at n)"
  then have e: "mapped_bit OR ucast (drop_bit 32 (word_of_nat at :: u64)) = (0xFFFFFFFF :: u32)"
    by (simp add: loc_is_empty_def mapped_loc_def)
  have all: "bit (0xFFFFFFFF :: u32) i" if "i < 32" for i
  proof -
    have "(0xFFFFFFFF :: u32) = mask 32" by (simp add: mask_eq_exp_minus_1)
    then show ?thesis using that by (simp only: bit_mask_iff) (simp add: possible_bit_def)
  qed
  have "bit (at div 2 ^ 32) i" if "i < 31" for i
  proof -
    have "bit (mapped_bit OR ucast (drop_bit 32 (word_of_nat at :: u64)) :: u32) i" using e all that by simp
    then have "bit (word_of_nat at :: u64) (32 + i)"
      using that by (simp only: bit_or_iff bit_mapped_bit bit_unsigned_iff bit_drop_bit_eq comp_def) simp
    then have "bit at (32 + i)" by (simp only: bit_of_nat_iff)
    then show ?thesis by (simp add: bit_iff_odd div_mult2_eq power_add)
  qed
  then have "take_bit 31 (at div 2 ^ 32) = mask 31"
    by (intro bit_eqI) (auto simp: bit_take_bit_iff bit_mask_iff)
  moreover have "at div 2 ^ 32 < 2 ^ 31 - 1" using assms by (simp add: less_mult_imp_div_less)
  ultimately show False by (simp add: take_bit_nat_eq_self mask_eq_exp_minus_1)
qed

lemma small_seg_not_mapped:
  assumes "k < 2 ^ 31"
  shows "(word_of_nat k :: u32) AND mapped_bit = 0"
proof (rule bit_word_eqI)
  fix i
  assume "i < LENGTH(32)"
  have "\<not> bit (word_of_nat k :: u32) 31" using assms by (simp only: bit_of_nat_iff) (simp add: bit_iff_odd)
  then show "bit ((word_of_nat k :: u32) AND mapped_bit) i = bit (0 :: u32) i"
    by (auto simp only: bit_and_iff bit_mapped_bit bit_0_eq)
qed

section \<open>The map a store is, and its invariant\<close>

definition store_map :: "store \<Rightarrow> nat \<rightharpoonup> bytes" where
  "store_map s doc = (case ix_get (index s) doc of None \<Rightarrow> None | Some l \<Rightarrow> ok_opt (payload s l))"

definition segs_full :: "segment list \<Rightarrow> bool" where
  "segs_full gs \<longleftrightarrow> gs \<noteq> [] \<and> (\<forall>g\<in>set (butlast gs). segment_max \<le> length (seg_data g))"

text \<open>
  Every id the index holds is read: its place is inside a segment or the file. Every id is below
  the counter, so the counter hands out a new one.
\<close>

definition store_inv :: "store \<Rightarrow> bool" where
  "store_inv s \<longleftrightarrow>
     ix_inv (index s) \<and> segs_full (segments s) \<and> next_id s < 2 ^ 64
     \<and> (\<forall>doc l. ix_get (index s) doc = Some l \<longrightarrow> 1 \<le> doc \<and> doc < next_id s \<and> is_ok (payload s l))"

lemma payload_seg: "\<not> is_mapped_loc l \<or> base s = None \<Longrightarrow> payload s l = segment_payload (segments s) l"
  by (auto simp: payload_def split: bool.splits option.splits)

lemma payload_file:
  "is_mapped_loc l \<Longrightarrow> base s = Some (file, st)
     \<Longrightarrow> payload s l = ok_or e_outside_file (get_range file (mapped_at l) (mapped_at l + unat (plen l)))"
  by (simp add: payload_def)

lemma payload_cases:
  obtains (in_segment) "\<not> is_mapped_loc l \<or> base s = None"
    | (in_file) bs st where "is_mapped_loc l" "base s = Some (bs, st)"
  by (cases "base s") auto

lemma segment_payload_Ok_iff:
  "segment_payload gs l = Ok p \<longleftrightarrow> unat (seg l) < length gs
     \<and> get_range (seg_data (gs ! unat (seg l))) (unat (off l)) (unat (off l) + unat (plen l)) = Some p"
  by (auto simp: segment_payload_def result_simps)

lemma payload_length: "payload s l = Ok p \<Longrightarrow> length p = unat (plen l)"
  by (cases l s rule: payload_cases)
    (auto simp: payload_seg payload_file segment_payload_Ok_iff result_simps dest: get_range_length)

lemma payload_not_panic [simp]: "payload s l \<noteq> Panic"
  by (cases l s rule: payload_cases) (auto simp: payload_seg payload_file segment_payload_def)

lemma payload_cong: "segments s' = segments s \<Longrightarrow> base s' = base s \<Longrightarrow> payload s' l = payload s l"
  by (simp only: payload_def)

lemma store_map_Some_iff:
  "store_map s doc = Some p \<longleftrightarrow> (\<exists>l. ix_get (index s) doc = Some l \<and> payload s l = Ok p)"
  by (auto simp: store_map_def result_simps split: option.splits)

lemma store_map_dom: "store_inv s \<Longrightarrow> dom (store_map s) = dom (ix_get (index s))"
  by (fastforce simp: store_inv_def is_ok_iff store_map_Some_iff dom_def)

text \<open>A store that has only had bytes appended to it reads what it read.\<close>

definition grown :: "store \<Rightarrow> store \<Rightarrow> bool" where
  "grown s s' \<longleftrightarrow> base s' = base s \<and> length (segments s) \<le> length (segments s')
     \<and> (\<forall>i<length (segments s). prefix (seg_data (segments s ! i)) (seg_data (segments s' ! i)))"

lemma get_range_prefix: "prefix xs ys \<Longrightarrow> get_range xs a b = Some zs \<Longrightarrow> get_range ys a b = Some zs"
  by (auto simp: get_range_Some_iff prefix_def)

lemma payload_grown:
  assumes "grown s s'" "payload s l = Ok p"
  shows "payload s' l = Ok p"
proof (cases l s rule: payload_cases)
  case in_segment
  with assms have "unat (seg l) < length (segments s)"
    "get_range (seg_data (segments s ! unat (seg l))) (unat (off l)) (unat (off l) + unat (plen l)) = Some p"
    by (auto simp: payload_seg segment_payload_Ok_iff)
  moreover from this(1) assms(1) have "unat (seg l) < length (segments s')"
    "prefix (seg_data (segments s ! unat (seg l))) (seg_data (segments s' ! unat (seg l)))"
    by (auto simp: grown_def)
  ultimately have "segment_payload (segments s') l = Ok p"
    by (auto simp: segment_payload_Ok_iff intro: get_range_prefix)
  with in_segment assms(1) show ?thesis by (auto simp: payload_seg grown_def)
next
  case in_file
  with assms show ?thesis by (auto simp: payload_file grown_def)
qed

lemma store_map_grown:
  assumes "store_inv s" "grown s s'" "index s' = index s"
  shows "store_map s' = store_map s"
proof (rule ext)
  fix doc
  show "store_map s' doc = store_map s doc"
    using assms payload_grown [OF assms(2)]
    by (cases "ix_get (index s) doc") (fastforce simp: store_map_def store_inv_def is_ok_iff)+
qed

lemma grown_refl [simp]: "grown s s"
  by (simp add: grown_def)

lemma grown_trans: "grown s t \<Longrightarrow> grown t u \<Longrightarrow> grown s u"
  by (auto simp: grown_def) (meson order_less_le_trans prefix_order.trans)

lemma active_grown:
  "segments s \<noteq> [] \<Longrightarrow> grown s (active s)"
  by (auto simp: active_def grown_def nth_append nth_butlast last_conv_nth)
    (metis One_nat_def Suc_pred length_greater_0_conv less_Suc_eq prefix_order.refl)

lemma extend_last_grown:
  "segments s \<noteq> [] \<Longrightarrow> grown s (extend_last bs s)"
  by (auto simp: extend_last_def grown_def nth_append nth_butlast last_conv_nth)
    (metis One_nat_def Suc_pred length_greater_0_conv less_Suc_eq prefixI)

section \<open>Landing a frame\<close>

lemma active_spec:
  assumes "segs_full (segments s)"
  shows "segs_full (segments (active s))"
    "concat (map seg_data (segments (active s))) = concat (map seg_data (segments s))"
    "length (seg_data (last (segments (active s)))) < segment_max"
    "length (segments (active s)) \<le> length (segments s) + 1"
    "index (active s) = index s" "next_id (active s) = next_id s" "base (active s) = base s"
    "dead_bytes (active s) = dead_bytes s" "total_bytes (active s) = total_bytes s" "dropped (active s) = dropped s"
proof -
  from assms have ne: "segments s \<noteq> []" by (simp add: segs_full_def)
  obtain gs g where gs: "segments s = gs @ [g]" using ne by (metis rev_exhaust)
  show "segs_full (segments (active s))" "concat (map seg_data (segments (active s))) = concat (map seg_data (segments s))"
    "length (seg_data (last (segments (active s)))) < segment_max"
    "length (segments (active s)) \<le> length (segments s) + 1"
    using assms by (auto simp: active_def gs segs_full_def seg_default_def segment_max_def butlast_append)
qed (simp_all add: active_def)

lemma extend_last_spec:
  assumes "segs_full (segments s)"
  shows "segs_full (segments (extend_last bs s))"
    "concat (map seg_data (segments (extend_last bs s))) = concat (map seg_data (segments s)) @ bs"
    "length (segments (extend_last bs s)) = length (segments s)"
    "seg_data (segments (extend_last bs s) ! (length (segments s) - 1)) = seg_data (last (segments s)) @ bs"
proof -
  from assms have ne: "segments s \<noteq> []" by (simp add: segs_full_def)
  obtain gs g where gs: "segments s = gs @ [g]" using ne by (metis rev_exhaust)
  show "segs_full (segments (extend_last bs s))"
    "concat (map seg_data (segments (extend_last bs s))) = concat (map seg_data (segments s)) @ bs"
    "length (segments (extend_last bs s)) = length (segments s)"
    "seg_data (segments (extend_last bs s) ! (length (segments s) - 1)) = seg_data (last (segments s)) @ bs"
    using assms by (auto simp: extend_last_def gs segs_full_def)
qed

lemma sum_list_ge: "\<forall>x\<in>set xs. k \<le> f x \<Longrightarrow> length xs * k \<le> sum_list (map f xs)" for f :: "'a \<Rightarrow> nat"
  by (induction xs) auto

lemma segments_few:
  assumes "segs_full (segments s)" "heap_bytes s < 2 ^ 53"
  shows "length (segments s) \<le> 2 ^ 30"
proof -
  obtain gs g where gs: "segments s = gs @ [g]" using assms(1) by (metis rev_exhaust segs_full_def)
  have "heap_bytes s = sum_list (map (\<lambda>g. length (seg_data g)) (butlast (segments s))) + length (seg_data g)"
    by (simp add: heap_bytes_def gs)
  moreover have "length (butlast (segments s)) * segment_max \<le> sum_list (map (\<lambda>g. length (seg_data g)) (butlast (segments s)))"
    using assms(1) by (intro sum_list_ge) (auto simp: segs_full_def)
  ultimately show ?thesis using assms(2) by (simp add: segment_max_def gs)
qed

text \<open>What a frame does to the map.\<close>

type_synonym log_frame = "u8 \<times> nat \<times> bytes"

fun apply_frame :: "log_frame \<Rightarrow> (nat \<rightharpoonup> bytes) \<Rightarrow> (nat \<rightharpoonup> bytes)" where
  "apply_frame (op, doc, p) m =
     (if op = op_put then m(doc \<mapsto> p) else if op = op_del then m(doc := None) else m)"

fun frame_of :: "log_frame \<Rightarrow> bytes" where
  "frame_of (op, doc, p) = frame op doc p"

text \<open>Ids leave room for the counter; a payload's length fits its location.\<close>

fun frame_ok :: "log_frame \<Rightarrow> bool" where
  "frame_ok (op, doc, p) \<longleftrightarrow> 1 \<le> doc \<and> doc < 2 ^ 64 - 1 \<and> length p < 2 ^ 32"

lemma land_spec:
  assumes "store_inv s" "1 \<le> doc" "doc < 2 ^ 64 - 1" "payload s l = Ok p" "\<not> loc_is_empty l"
  shows "store_inv (land op doc n l s) \<and> store_map (land op doc n l s) = apply_frame (op, doc, p) (store_map s)
     \<and> (\<forall>d. d \<noteq> doc \<longrightarrow> ix_get (index (land op doc n l s)) d = ix_get (index s) d)"
proof -
  let ?s = "land op doc n l s"
  have same: "payload ?s = payload s" by (rule ext) (rule payload_cong, simp_all add: land_def Let_def)
  have I: "ix_inv (ix_insert doc l (index s)) \<and> ix_get (ix_insert doc l (index s)) = (ix_get (index s))(doc \<mapsto> l)"
    using assms ix_insert_spec by (simp add: store_inv_def)
  have R: "ix_inv (fst (ix_remove doc (index s))) \<and> ix_get (fst (ix_remove doc (index s))) = (ix_get (index s))(doc := None)"
    using assms ix.get_remove ix.invar_remove by (simp add: store_inv_def)
  have sm: "store_map ?s = (\<lambda>d. case ix_get (index ?s) d of None \<Rightarrow> None | Some l \<Rightarrow> ok_opt (payload s l))"
    by (rule ext) (simp only: store_map_def same)
  consider "op = op_put" | "op = op_del" | "op \<noteq> op_put" "op \<noteq> op_del" by blast
  then show ?thesis
  proof cases
    case 1
    then have e: "index ?s = ix_insert doc l (index s)" "segments ?s = segments s"
      "next_id ?s = (if next_id s \<le> doc then doc + 1 else next_id s)"
      using assms(3) by (simp_all add: land_def Let_def)
    have "store_inv ?s" using assms I
      by (fastforce simp: store_inv_def e same split: if_splits intro: less_trans_Suc less_SucI less_le_trans)
    moreover have "store_map ?s = (store_map s)(doc \<mapsto> p)"
      unfolding sm using I assms(4) by (auto simp: e store_map_def fun_eq_iff)
    moreover have "\<forall>d. d \<noteq> doc \<longrightarrow> ix_get (index ?s) d = ix_get (index s) d" using I by (simp add: e)
    ultimately show ?thesis using 1 by simp
  next
    case 2
    then have e: "index ?s = fst (ix_remove doc (index s))" "segments ?s = segments s" "next_id ?s = next_id s"
      by (simp_all add: land_def Let_def op_put_def op_del_def)
    have "store_inv ?s" using assms R by (auto simp: store_inv_def e same split: if_splits)
    moreover have "store_map ?s = (store_map s)(doc := None)"
      unfolding sm using R by (auto simp: e store_map_def fun_eq_iff)
    moreover have "\<forall>d. d \<noteq> doc \<longrightarrow> ix_get (index ?s) d = ix_get (index s) d" using R by (simp add: e)
    ultimately show ?thesis using 2 by (simp add: op_put_def op_del_def)
  next
    case 3
    then have e: "index ?s = index s" "segments ?s = segments s" "next_id ?s = next_id s"
      by (simp_all add: land_def Let_def)
    have "store_inv ?s" using assms by (auto simp: store_inv_def e same)
    moreover have "store_map ?s = store_map s" unfolding sm by (simp add: e store_map_def fun_eq_iff)
    ultimately show ?thesis using 3 by (simp add: e)
  qed
qed

lemma land_get:
  assumes "ix_inv (index s)" "1 \<le> doc" "\<not> loc_is_empty l"
  shows "ix_get (index (land op doc n l s)) doc =
     (if op = op_put then Some l else if op = op_del then None else ix_get (index s) doc)"
  using assms ix_insert_spec [of "index s" doc l] ix.get_remove [of "index s" doc]
  by (simp add: land_def Let_def)

lemma land_bytes [simp]:
  "segments (land op doc n l s) = segments s" "base (land op doc n l s) = base s"
  "total_bytes (land op doc n l s) = total_bytes s + n" "dropped (land op doc n l s) = dropped s"
  by (simp_all add: land_def Let_def)

lemma note_old_same [simp]:
  "segments (note_old doc s) = segments s" "base (note_old doc s) = base s" "index (note_old doc s) = index s"
  "next_id (note_old doc s) = next_id s" "total_bytes (note_old doc s) = total_bytes s" "dropped (note_old doc s) = dropped s"
  by (simp_all add: note_old_def split: option.splits)

lemma store_inv_grown:
  assumes "store_inv s" "grown s s'" "index s' = index s" "next_id s' = next_id s" "segs_full (segments s')"
  shows "store_inv s'"
  using assms payload_grown [OF assms(2)] by (fastforce simp: store_inv_def is_ok_iff)

lemma land_frame_spec:
  assumes "store_inv s" "heap_bytes s < 2 ^ 53" "fr = hdr @ p" "length hdr \<le> 64" "frame_ok (op, doc, p)"
  defines "s' \<equiv> land_frame op doc fr (length p) s"
  shows "store_inv s'" "store_map s' = apply_frame (op, doc, p) (store_map s)"
    "concat (map seg_data (segments s')) = concat (map seg_data (segments s)) @ fr"
    "base s' = base s" "total_bytes s' = total_bytes s + length fr" "dropped s' = dropped s"
    "d \<noteq> doc \<Longrightarrow> ix_get (index s') d = ix_get (index s) d"
    "ix_get (index s') doc = Some k \<Longrightarrow> ix_get (index s) doc = Some k \<or> (\<not> is_mapped_loc k \<and> length hdr \<le> unat (off k))"
proof -
  let ?n = "note_old doc s"
  define a where "a = active ?n"
  define e where "e = extend_last fr a"
  let ?d = "seg_data (last (segments a))" and ?k = "length (segments a) - 1"
  define l where "l = \<lparr>seg = word_of_nat ?k, off = word_of_nat (length ?d + length hdr), plen = word_of_nat (length p)\<rparr>"
  from assms(5) have p: "1 \<le> doc" "doc < 2 ^ 64 - 1" "length p < 2 ^ 32" by auto
  have fn: "segs_full (segments ?n)" using assms(1) by (simp add: store_inv_def)
  note A = active_spec [OF fn, folded a_def]
  note E = extend_last_spec [OF A(1), of fr, folded e_def]
  have ne: "segments ?n \<noteq> []" "segments a \<noteq> []" using fn A(1) by (simp_all add: segs_full_def)
  have "grown s ?n" by (simp add: grown_def)
  moreover have "grown ?n a" using active_grown [OF ne(1)] by (simp add: a_def)
  moreover have "grown a e" using extend_last_grown [OF ne(2)] by (simp add: e_def)
  ultimately have g: "grown s e" using grown_trans by blast
  have ie: "index e = index s" "next_id e = next_id s" using A by (simp_all add: e_def extend_last_def)
  have inv: "store_inv e" using store_inv_grown [OF assms(1) g ie E(1)] .
  have sub: "usize_sub (length fr) (length p) = length hdr"
    using assms(3,4) by (simp add: usize_sub_def)
  have add: "usize_add (length ?d) (length hdr) = length ?d + length hdr"
    using A(3) assms(4) by (simp add: usize_add_def segment_max_def)
  have s': "s' = land op doc (length fr) l e"
    by (simp add: s'_def land_frame_def Let_def sub add l_def flip: a_def e_def)
  have k: "?k < 2 ^ 31" using segments_few [of s] assms(1,2) A(4) by (simp add: store_inv_def)
  then have us: "unat (seg l) = ?k" by (simp add: l_def unat_of_nat)
  have uo: "unat (off l) = length ?d + length hdr" "unat (plen l) = length p"
    using unat_of_nat_u32 [of "length ?d + length hdr"] A(3) assms(4) p(3)
    by (simp_all add: l_def unat_of_nat_u32 segment_max_def)
  have nm: "\<not> is_mapped_loc l" using small_seg_not_mapped [OF k] by (simp add: is_mapped_loc_def l_def)
  have "get_range (?d @ fr) (length ?d + length hdr) (length ?d + length hdr + length p) = Some p"
    by (simp add: get_range_def assms(3))
  then have "segment_payload (segments e) l = Ok p"
    using E(3,4) ne(2) by (simp add: segment_payload_Ok_iff us uo)
  then have pl: "payload e l = Ok p" using nm by (simp add: payload_seg)
  have nl: "\<not> loc_is_empty l"
  proof
    assume "loc_is_empty l"
    then have "unat (seg l) = unat (0xFFFFFFFF :: u32)" by (simp add: loc_is_empty_def)
    then show False using us k by simp
  qed
  have "ix_inv (index e)" using inv by (simp add: store_inv_def)
  from land_get [OF this p(1) nl, of op "length fr"] nm uo(1) ie(1)
  show "ix_get (index s') doc = Some k \<Longrightarrow> ix_get (index s) doc = Some k \<or> (\<not> is_mapped_loc k \<and> length hdr \<le> unat (off k))"
    by (auto simp: s' split: if_splits)
  from land_spec [OF inv p(1,2) pl nl, of op "length fr"] store_map_grown [OF assms(1) g ie(1)]
  show "store_inv s'" "store_map s' = apply_frame (op, doc, p) (store_map s)"
    "d \<noteq> doc \<Longrightarrow> ix_get (index s') d = ix_get (index s) d" by (simp_all add: s' ie)
  show "concat (map seg_data (segments s')) = concat (map seg_data (segments s)) @ fr"
    using E(2) A(2) by (simp add: s')
  show "base s' = base s" "total_bytes s' = total_bytes s + length fr" "dropped s' = dropped s"
    using A by (simp_all add: s' e_def extend_last_def)
qed

section \<open>The log\<close>

abbreviation log_bytes :: "log_frame list \<Rightarrow> bytes" where
  "log_bytes fs \<equiv> concat (map frame_of fs)"

text \<open>The store has had these frames written to it: its bytes are theirs, its map what they do.\<close>

definition logs :: "store \<Rightarrow> log_frame list \<Rightarrow> bool" where
  "logs s fs \<longleftrightarrow>
     store_inv s \<and> image s = Ok (log_bytes fs) \<and> total_bytes s = length (log_bytes fs)
     \<and> store_map s = fold apply_frame fs Map.empty \<and> (\<forall>f\<in>set fs. frame_ok f)"

abbreviation head_of :: "log_frame \<Rightarrow> bytes" where
  "head_of f \<equiv> fst f # put_uvarint (word_of_nat (fst (snd f))) @ put_len (snd (snd f))"

lemma frame_of_head: "frame_of f = head_of f @ snd (snd f)"
  by (cases f) (simp add: frame_def)

lemma length_head: "length (head_of f) \<le> 64" "3 \<le> length (head_of f)"
  using length_put_uvarint [of "word_of_nat (fst (snd f))"] length_put_uvarint [of "word_of_nat (length (snd (snd f)))"]
  by (simp_all add: put_len_def)

lemma image_None: "base s = None \<Longrightarrow> image s = Ok (concat (map seg_data (segments s)))"
  by (simp add: image_def)

lemma heap_bytes_concat: "heap_bytes s = length (concat (map seg_data (segments s)))"
  by (simp add: heap_bytes_def length_concat comp_def)

lemma heap_le_image: "image s = Ok bs \<Longrightarrow> heap_bytes s \<le> length bs"
  by (auto simp: image_def heap_bytes_concat result_simps)

lemma image_grow:
  "image s = Ok bs \<Longrightarrow> base s' = base s
     \<Longrightarrow> concat (map seg_data (segments s')) = concat (map seg_data (segments s)) @ fr \<Longrightarrow> image s' = Ok (bs @ fr)"
  by (auto simp: image_def result_simps)

lemma land_frame_logs:
  assumes "logs s fs" "length (log_bytes fs) < 2 ^ 53" "frame_ok f"
  shows "logs (land_frame (fst f) (fst (snd f)) (frame_of f) (length (snd (snd f))) s) (fs @ [f])"
proof -
  obtain op doc p where f: "f = (op, doc, p)" by (cases f)
  have "heap_bytes s < 2 ^ 53" using assms(1,2) heap_le_image [of s "log_bytes fs"] by (simp add: logs_def)
  note L = land_frame_spec [of s "frame_of f" "head_of f" p op doc, OF _ this]
  have inv: "store_inv s" using assms(1) by (simp add: logs_def)
  note L' = L [OF inv _ _ assms(3) [unfolded f]]
  have hd: "frame_of f = head_of f @ p" using frame_of_head [of f] by (simp add: f)
  from L' [OF hd length_head(1)] image_grow [of s "log_bytes fs"] assms(1,3)
  show ?thesis by (simp add: logs_def f)
qed

lemma append_logs:
  assumes "logs s fs" "length (log_bytes fs) < 2 ^ 53" "frame_ok (op, doc, p)"
  shows "logs (fst (append op doc p s)) (fs @ [(op, doc, p)])"
  using land_frame_logs [OF assms] by (simp add: append_def)

lemma append_onto_append: "append_onto op doc p out s = (fst (append op doc p s), out @ snd (append op doc p s))"
  by (simp add: append_onto_def append_def frame_def Let_def)

lemma frame_head_at:
  assumes "at_pos bs pos (head_of f)" "fst (snd f) < 2 ^ 64" "length (snd (snd f)) < 2 ^ 63"
  shows "frame_head bs pos = Ok (fst f, fst (snd f), length (snd (snd f)), pos + length (head_of f))"
proof -
  from assms(1) have a: "get_byte bs pos = Some (fst f)"
    and b: "at_pos bs (pos + 1) (put_uvarint (word_of_nat (fst (snd f))))"
    and c: "at_pos bs (pos + 1 + length (put_uvarint (word_of_nat (fst (snd f))))) (put_len (snd (snd f)))"
    by (simp_all add: at_simps)
  from a get_put_uvarint [OF b] get_usize_put_len [OF c assms(3)] assms(2) show ?thesis
    by (simp add: frame_head_def get_byte_Some_iff word_cast_simps)
qed

text \<open>One turn of the replay at a whole frame.\<close>

lemma replay_loop_frame:
  assumes "at_pos bs pos (frame_of f)" "frame_ok f" "length bs < 2 ^ 63"
  shows "replay_loop bs s pos noted cnt =
     replay_loop bs (land_frame (fst f) (fst (snd f)) (frame_of f) (length (snd (snd f))) s)
       (pos + length (frame_of f)) (noted @ [fst (snd f)]) (cnt + 1)"
proof -
  obtain op doc p where f: "f = (op, doc, p)" by (cases f)
  have fr: "frame_of f = head_of f @ p" using frame_of_head [of f] by (simp add: f)
  define q where "q = pos + length (head_of f)"
  have h: "frame_head bs pos = Ok (op, doc, length p, q)"
  proof -
    have "at_pos bs pos (head_of f)" using assms(1) unfolding fr at_pos_append by blast
    from frame_head_at [OF this] assms(2) show ?thesis by (simp add: f q_def)
  qed
  have len: "pos + length (head_of f) + length p \<le> length bs"
    using at_pos_le [OF assms(1)] unfolding fr by simp
  then have e: "usize_add q (length p) = pos + length (frame_of f)"
    using assms(3) unfolding fr q_def by (simp add: usize_add_def)
  have "take (length (frame_of f)) (drop pos bs) = frame_of f" using assms(1) by (simp add: at_pos_def)
  moreover have "pos < length bs" using len length_head(2) [of f] by linarith
  moreover have "\<not> length bs < pos + length (frame_of f)" using at_pos_le [OF assms(1)] by simp
  ultimately show ?thesis
    by (subst replay_loop.simps) (simp add: h e Let_def, simp add: f)
qed

lemma replay_loop_frames:
  assumes "logs s fs" "length (log_bytes (fs @ gs)) < 2 ^ 53" "\<forall>f\<in>set gs. frame_ok f"
    and "bs = pre @ log_bytes gs @ post" "length bs < 2 ^ 63"
  shows "\<exists>s'. logs s' (fs @ gs)
     \<and> replay_loop bs s (length pre) noted cnt
       = replay_loop bs s' (length pre + length (log_bytes gs)) (noted @ map (\<lambda>f. fst (snd f)) gs) (cnt + length gs)"
  using assms(1-4)
proof (induction gs arbitrary: s fs pre noted cnt)
  case Nil
  then show ?case by auto
next
  case (Cons f gs)
  let ?s = "land_frame (fst f) (fst (snd f)) (frame_of f) (length (snd (snd f))) s"
  have "logs ?s (fs @ [f])" using Cons.prems by (intro land_frame_logs) auto
  moreover have "bs = (pre @ frame_of f) @ log_bytes gs @ post" using Cons.prems(4) by simp
  ultimately obtain s' where s': "logs s' ((fs @ [f]) @ gs)"
    "replay_loop bs ?s (length (pre @ frame_of f)) (noted @ [fst (snd f)]) (cnt + 1)
       = replay_loop bs s' (length (pre @ frame_of f) + length (log_bytes gs))
           ((noted @ [fst (snd f)]) @ map (\<lambda>f. fst (snd f)) gs) (cnt + 1 + length gs)"
    using Cons.IH [of ?s "fs @ [f]" "pre @ frame_of f" "noted @ [fst (snd f)]" "cnt + 1"] Cons.prems(2,3) by auto
  have "at_pos bs (length pre) (frame_of f)" using Cons.prems(4) at_pos_whole [of pre "frame_of f"] by simp
  from replay_loop_frame [OF this _ assms(5)] s' Cons.prems(3) show ?case
    by (intro exI [of _ s']) (simp add: add.assoc)
qed

lemma replay_frames:
  assumes "logs s fs" "length (log_bytes (fs @ gs)) < 2 ^ 53" "\<forall>f\<in>set gs. frame_ok f"
  shows "\<exists>s'. replay_noting (log_bytes gs) s = Some (s', map (\<lambda>f. fst (snd f)) gs, Ok (length gs)) \<and> logs s' (fs @ gs)"
proof -
  have "length (log_bytes gs) < 2 ^ 63" using assms(2) by simp
  then obtain s' where "logs s' (fs @ gs)"
    "replay_loop (log_bytes gs) s 0 [] 0 = replay_loop (log_bytes gs) s' (length (log_bytes gs)) (map (\<lambda>f. fst (snd f)) gs) (length gs)"
    using replay_loop_frames [OF assms, of "log_bytes gs" "[]" "[]" "[]" 0] by auto
  moreover have "replay_loop bs t (length bs) noted cnt = Some (t, noted, Ok cnt)" for bs t noted cnt
    by (subst replay_loop.simps) simp
  ultimately show ?thesis by (auto simp: replay_noting_def)
qed

end
