(* ===== verification/Fenec_Store_Compact.thy ===== *)
theory Fenec_Store_Compact
  imports Fenec_Store_Laws
begin

unbundle bit_operations_syntax

text \<open>
  Compaction, the live image and roll-back (\<open>compacted\<close>, \<open>write_live\<close>, \<open>live_len\<close>, \<open>mark\<close>,
  \<open>point\<close> and \<open>rewind\<close> of \<open>fenec-core/src/store.rs\<close>): what each leaves of the map and of the bytes.
\<close>

section \<open>A fresh store\<close>

lemma ix_get_default [simp]: "ix_get ix_default = Map.empty"
  by (rule ix.get_empty)

lemma fresh_logs: "n < 2 ^ 64 \<Longrightarrow> logs (store_new\<lparr>next_id := n, dropped := ds\<rparr>) []"
  by (auto simp: logs_def store_inv_def store_new_def segs_full_def image_def ix.invar_empty seg_default_def
      store_map_def fun_eq_iff)

lemma store_new_logs: "logs store_new []"
  by (auto simp: logs_def store_inv_def store_new_def segs_full_def image_def ix.invar_empty seg_default_def
      store_map_def fun_eq_iff)

section \<open>Compaction\<close>

definition live_puts :: "store \<Rightarrow> nat list \<Rightarrow> log_frame list" where
  "live_puts s docs = map (\<lambda>doc. (op_put, doc, the (store_map s doc))) docs"

lemma put_head_frame: "put_head doc (length p) @ p = frame_of (op_put, doc, p)"
  by (simp add: put_head_def frame_def put_len_def)

lemma live_frame_ok:
  assumes "store_inv s" "ix_get (index s) doc = Some l"
  obtains p where "payload s l = Ok p" "store_map s doc = Some p" "frame_ok (op_put, doc, p)" "doc < next_id s"
    "length p = unat (plen l)"
proof -
  from assms obtain p where p: "payload s l = Ok p" "1 \<le> doc" "doc < next_id s" "next_id s < 2 ^ 64"
    by (auto simp: store_inv_def is_ok_iff)
  have "length p < 2 ^ 32" using payload_length [OF p(1)] by simp
  moreover have "store_map s doc = Some p" using assms(2) p(1) by (auto simp: store_map_Some_iff)
  ultimately show thesis using that [of p] p payload_length [OF p(1)] by auto
qed

lemma append_put_fresh:
  assumes "store_inv t" "ix_get (index t) doc = None" "doc < next_id t"
  shows "dead_bytes (fst (append op_put doc p t)) = dead_bytes t"
    "next_id (fst (append op_put doc p t)) = next_id t" "dropped (fst (append op_put doc p t)) = dropped t"
proof -
  have "segs_full (segments t)" using assms(1) by (simp add: store_inv_def)
  note A = active_spec [OF this]
  show "dead_bytes (fst (append op_put doc p t)) = dead_bytes t"
    "next_id (fst (append op_put doc p t)) = next_id t" "dropped (fst (append op_put doc p t)) = dropped t"
    using assms(2,3) A by (simp_all add: append_def land_frame_def land_def Let_def note_old_def extend_last_def)
qed

lemma compact_loop_spec:
  assumes "store_inv s" "set docs \<subseteq> dom (ix_get (index s))" "distinct docs"
    and "logs t fs" "length (log_bytes (fs @ live_puts s docs)) < 2 ^ 53"
    and "\<forall>doc\<in>set docs. store_map t doc = None" "next_id t = next_id s"
  shows "\<exists>t'. compact_loop s docs t = Ok t' \<and> logs t' (fs @ live_puts s docs)
     \<and> dead_bytes t' = dead_bytes t \<and> next_id t' = next_id t \<and> dropped t' = dropped t"
  using assms(2-7)
proof (induction docs arbitrary: t fs)
  case Nil
  then show ?case by (simp add: live_puts_def)
next
  case (Cons doc docs)
  then obtain l where l: "ix_get (index s) doc = Some l" by auto
  obtain p where p: "payload s l = Ok p" "store_map s doc = Some p" "frame_ok (op_put, doc, p)" "doc < next_id s"
    by (rule live_frame_ok [OF assms(1) l])
  let ?t = "fst (append op_put doc p t)"
  have puts: "live_puts s (doc # docs) = (op_put, doc, p) # live_puts s docs" using p(2) by (simp add: live_puts_def)
  have inv: "store_inv t" using Cons.prems(3) by (simp add: logs_def)
  have none: "ix_get (index t) doc = None"
    using Cons.prems(5) store_map_dom [OF inv] by (metis domIff list.set_intros(1))
  note F = append_put_fresh [OF inv none, of p]
  have lt: "logs ?t (fs @ [(op_put, doc, p)])"
    using Cons.prems(3,4) p(3) by (intro append_logs) (auto simp: puts)
  have "store_map ?t = (store_map t)(doc \<mapsto> p)" using lt Cons.prems(3) by (simp add: logs_def)
  then have "\<forall>d\<in>set docs. store_map ?t d = None" using Cons.prems(2,5) by auto
  from Cons.IH [OF _ _ lt _ this] Cons.prems(1,2,4,6) F p(4)
  show ?case by (auto simp: l p(1) puts)
qed

lemma fold_puts:
  "distinct docs \<Longrightarrow> fold apply_frame (map (\<lambda>doc. (op_put, doc, g doc)) docs) m
     = (\<lambda>d. if d \<in> set docs then Some (g d) else m d)"
  by (induction docs arbitrary: m) (auto simp: fun_eq_iff)

lemma live_map:
  assumes "store_inv s"
  shows "fold apply_frame (live_puts s (ix_iter (index s))) Map.empty = store_map s"
proof -
  have I: "sorted_wrt (<) (ix_iter (index s))" "set (ix_iter (index s)) = dom (store_map s)"
    using ix_iter_sorted [of "index s"] assms store_map_dom [OF assms] by (auto simp: store_inv_def)
  then have "distinct (ix_iter (index s))" by (simp add: strict_sorted_iff)
  then show ?thesis unfolding live_puts_def fold_puts [OF \<open>distinct _\<close>] I(2)
    by (auto simp: fun_eq_iff domIff)
qed

lemma live_loop:
  assumes "store_inv s" "set docs \<subseteq> dom (ix_get (index s))"
  shows "write_live_loop s out docs = (out @ log_bytes (live_puts s docs), Ok ())
     \<and> sum_list (map (\<lambda>doc. case ix_get (index s) doc of None \<Rightarrow> 0
         | Some l \<Rightarrow> length (put_head doc (unat (plen l))) + unat (plen l)) docs) = length (log_bytes (live_puts s docs))"
  using assms(2)
proof (induction docs arbitrary: out)
  case Nil
  then show ?case by (simp add: live_puts_def)
next
  case (Cons doc docs)
  then obtain l where l: "ix_get (index s) doc = Some l" by auto
  obtain p where p: "payload s l = Ok p" "store_map s doc = Some p" "length p = unat (plen l)"
    by (rule live_frame_ok [OF assms(1) l])
  have puts: "live_puts s (doc # docs) = (op_put, doc, p) # live_puts s docs" using p(2) by (simp add: live_puts_def)
  show ?case using Cons.IH Cons.prems put_head_frame [of doc p]
    by (simp add: l p puts flip: p(3)) (metis append_assoc length_append)
qed

lemma live_image:
  assumes "store_inv s"
  shows "write_live s out = (out @ log_bytes (live_puts s (ix_iter (index s))), Ok ())"
    "live_len s = length (log_bytes (live_puts s (ix_iter (index s))))"
  using live_loop [OF assms, of "ix_iter (index s)"] ix_iter_sorted [of "index s"] assms
  by (auto simp: write_live_def live_len_def store_inv_def)

lemma compacted_logs:
  assumes "store_inv s" "live_len s < 2 ^ 53"
  shows "\<exists>t. compacted s = Ok t \<and> logs t (live_puts s (ix_iter (index s)))
     \<and> dead_bytes t = 0 \<and> next_id t = next_id s \<and> dropped t = dropped s"
proof -
  let ?t = "store_new\<lparr>next_id := next_id s, dropped := dropped s\<rparr>"
  have I: "sorted_wrt (<) (ix_iter (index s))" "set (ix_iter (index s)) = dom (ix_get (index s))"
    using ix_iter_sorted [of "index s"] assms(1) by (auto simp: store_inv_def)
  have f: "logs ?t []" using assms(1) by (intro fresh_logs) (simp add: store_inv_def)
  then have "store_map ?t doc = None" for doc by (simp add: logs_def)
  with compact_loop_spec [OF assms(1) _ _ f, of "ix_iter (index s)"] I assms live_image(2) [OF assms(1)]
  show ?thesis by (auto simp: compacted_def strict_sorted_iff store_new_def)
qed

end
