(* ===== verification/Fenec_Store_Recovery.thy ===== *)
theory Fenec_Store_Recovery
  imports Fenec_Store_Compact
begin

unbundle bit_operations_syntax

text \<open>
  What the store makes of bytes that are not a whole log -- a last frame cut short, a length that
  wraps around -- and roll-back: a block of writes put back by \<open>point\<close> and \<open>rewind\<close>
  (\<open>fenec-core/src/store.rs\<close>).
\<close>

section \<open>A log cut short\<close>

text \<open>Cut inside the payload, the head is whole: the replay stops before the frame.\<close>

lemma replay_loop_torn_payload:
  assumes "length (head_of f) \<le> k" "k < length (frame_of f)" "frame_ok f" "length pre + length (frame_of f) < 2 ^ 63"
  shows "replay_loop (pre @ take k (frame_of f)) s (length pre) noted cnt = Some (s, noted, Ok cnt)"
proof -
  let ?bs = "pre @ take k (frame_of f)"
  obtain op doc p where f: "f = (op, doc, p)" by (cases f)
  have fr: "frame_of f = head_of f @ p" using frame_of_head [of f] by (simp add: f)
  have "take k (frame_of f) = head_of f @ take (k - length (head_of f)) p"
    using assms(1) unfolding fr take_append by (simp only: take_all_iff [THEN iffD2])
  then have "at_pos ?bs (length pre) (head_of f)" using at_pos_whole [of pre "head_of f"] by simp
  from frame_head_at [OF this] assms(3)
  have h: "frame_head ?bs (length pre) = Ok (op, doc, length p, length pre + length (head_of f))" by (simp add: f)
  define q where "q = length pre + length (head_of f)"
  have "length (frame_of f) = length (head_of f) + length p" unfolding fr by simp
  then have e: "usize_add q (length p) = length pre + length (frame_of f)"
    using assms(4) by (simp only: usize_add_def q_def) simp
  have "length ?bs < length pre + length (frame_of f)" using assms(2) by simp
  moreover have "0 < k" using assms(1) length_head(2) [of f] by linarith
  moreover have "0 < length (frame_of f)" using assms(2) by linarith
  ultimately show ?thesis using h [folded q_def] assms(2) by (subst replay_loop.simps) (simp add: e Let_def)
qed

text \<open>Cut inside the head, a varint ends early: the replay is an error, the frames before it landed.\<close>

lemma replay_loop_torn_head:
  assumes "0 < k" "k < length (head_of f)"
  shows "replay_loop (pre @ take k (frame_of f)) s (length pre) noted cnt = Some (s, noted, Err e_varint_early)"
proof -
  obtain op doc p where f: "f = (op, doc, p)" by (cases f)
  let ?u = "put_uvarint (word_of_nat doc)" and ?v = "put_uvarint (word_of_nat (length p))"
  have hd: "head_of f = op # ?u @ ?v" by (simp add: f put_len_def)
  obtain j where j: "k = Suc j" using assms(1) by (cases k) auto
  have jl: "j < length ?u + length ?v" using assms(2) unfolding hd j by simp
  have bs: "pre @ take k (frame_of f) = (pre @ [op]) @ take j (?u @ ?v)"
    using jl unfolding frame_of_head hd j by simp
  have "frame_head (pre @ take k (frame_of f)) (length pre) = Err e_varint_early"
  proof (cases "j < length ?u")
    case True
    have "get_uvarint ((pre @ [op]) @ take j ?u) (length (pre @ [op])) = Err e_varint_early"
      by (rule get_uvarint_torn [OF True])
    with True show ?thesis unfolding bs by (simp add: frame_head_def)
  next
    case False
    then obtain i where i: "j = length ?u + i" by (metis le_Suc_ex not_le)
    let ?pre = "pre @ [op] @ ?u"
    have b: "(pre @ [op]) @ take j (?u @ ?v) = ?pre @ take i ?v" using i by simp
    have "at_pos (?pre @ take i ?v) (length pre + 1) ?u"
      using at_pos_whole [of "pre @ [op]" ?u "take i ?v"] by simp
    from get_put_uvarint [OF this]
    have u: "get_uvarint (?pre @ take i ?v) (length pre + 1) = Ok (word_of_nat doc, length ?pre)" by simp
    have "get_uvarint (?pre @ take i ?v) (length ?pre) = Err e_varint_early"
      by (rule get_uvarint_torn) (use jl i in simp)
    with u show ?thesis unfolding bs b by (simp add: frame_head_def get_usize_def)
  qed
  moreover have "length pre < length (pre @ take k (frame_of f))"
    using assms length_head(2) [of f] by (simp add: frame_of_head)
  ultimately show ?thesis by (subst replay_loop.simps) simp
qed

section \<open>Lengths that wrap\<close>

text \<open>
  A head of twelve bytes whose length is \<open>2 ^ 64 - 12\<close>: its frame ends where it starts, so the
  replay reads it again and again.
\<close>

definition looping_bytes :: bytes where
  "looping_bytes = [1, 1, 0xF4, 0xFF, 0xFF, 0xFF, 0xFF, 0xFF, 0xFF, 0xFF, 0xFF, 1]"

lemma looping_head: "frame_head looping_bytes 0 = Ok (1, 1, 2 ^ 64 - 12, 12)"
proof -
  let ?n = "2 ^ 64 - 12 :: nat"
  have w: "(word_of_nat ?n :: u64) = 0xFFFFFFFFFFFFFFF4" by simp
  have "looping_bytes = [1] @ put_uvarint 1 @ put_uvarint 0xFFFFFFFFFFFFFFF4 \<and> length (put_uvarint 1) = 1
      \<and> length (put_uvarint 0xFFFFFFFFFFFFFFF4) = 10"
    by code_simp
  then have b: "at_pos looping_bytes 1 (put_uvarint 1)" "at_pos looping_bytes 2 (put_uvarint (word_of_nat ?n))"
    "length (put_uvarint 1) = 1" "length (put_uvarint (word_of_nat ?n)) = 10"
    unfolding w using at_pos_whole [of "[1 :: u8]" "put_uvarint 1" "put_uvarint 0xFFFFFFFFFFFFFFF4"]
      at_pos_whole [of "[1 :: u8] @ put_uvarint 1" "put_uvarint 0xFFFFFFFFFFFFFFF4" "[]"]
    by (simp_all add: numeral_2_eq_2)
  from get_put_uvarint [OF b(1)] get_put_usize [OF b(2)] b(3,4)
  show ?thesis by (simp add: frame_head_def numeral_2_eq_2) (simp add: looping_bytes_def)
qed

lemma replay_loop_loops:
  assumes "replay_loop looping_bytes s 0 noted cnt = Some r"
  shows False
proof -
  have "looping_bytes = looping_bytes \<longrightarrow> (0 :: nat) \<noteq> 0"
  proof (rule replay_loop.raw_induct [where P = "\<lambda>bs s pos noted cnt r. bs = looping_bytes \<longrightarrow> pos \<noteq> 0", OF _ assms])
    fix rec bs and s :: store and pos :: nat and noted :: "nat list" and cnt :: nat and r
    assume IH: "\<And>bs s pos noted cnt r. rec bs s pos noted cnt = Some r \<Longrightarrow> bs = looping_bytes \<longrightarrow> pos \<noteq> 0"
      and step: "(if pos < length bs then (case frame_head bs pos of
           Err e \<Rightarrow> Some (s, noted, Err e)
         | Panic \<Rightarrow> Some (s, noted, Panic)
         | Ok h \<Rightarrow>
             (let (op, doc, n, p) = h; e = usize_add p n in
              if length bs < e then Some (s, noted, Ok cnt)
              else if e < pos then Some (s, noted, Panic)
              else rec bs (land_frame op doc (take (e - pos) (drop pos bs)) n s) e (noted @ [doc]) (cnt + 1)))
      else Some (s, noted, Ok cnt)) = Some r"
    have "usize_add 12 (2 ^ 64 - 12) = 0" "length looping_bytes = 12"
      by (simp_all add: usize_add_def looping_bytes_def)
    note len = this
    show "bs = looping_bytes \<longrightarrow> pos \<noteq> 0"
    proof (intro impI notI)
      assume at: "bs = looping_bytes" "pos = 0"
      have "rec looping_bytes (land_frame 1 1 [] (2 ^ 64 - 12) s) 0 (noted @ [1]) (cnt + 1) = Some r"
        using step len looping_head unfolding at by simp
      from IH [OF this] show False by simp
    qed
  qed
  then show False by simp
qed

section \<open>Roll-back\<close>

text \<open>
  A block's appends leave every segment of the mark in place, but for its last, which they
  extend and may seal.
\<close>

definition built_on :: "segment list \<Rightarrow> segment list \<Rightarrow> bool" where
  "built_on gs gs' \<longleftrightarrow> gs \<noteq> [] \<and> length gs \<le> length gs' \<and> take (length gs - 1) gs' = butlast gs
     \<and> prefix (seg_data (last gs)) (seg_data (gs' ! (length gs - 1)))"

lemma built_on_refl: "gs \<noteq> [] \<Longrightarrow> built_on gs gs"
  by (simp add: built_on_def butlast_conv_take last_conv_nth)

lemma built_on_last:
  assumes "built_on gs gs'" "prefix (seg_data (last gs')) (seg_data g)"
  shows "built_on gs (butlast gs' @ g # rest)"
proof -
  from assms(1) have ne: "gs \<noteq> []" "gs' \<noteq> []" and le: "length gs \<le> length gs'"
    by (auto simp: built_on_def)
  obtain hs h where hs: "gs' = hs @ [h]" using ne(2) by (metis rev_exhaust)
  show ?thesis
  proof (cases "length gs = length gs'")
    case True
    then have L: "length gs - 1 = length hs" by (simp add: hs)
    have bl: "hs = butlast gs" and "prefix (seg_data (last gs)) (seg_data h)"
      using assms(1) unfolding built_on_def L by (simp_all add: hs)
    moreover have "prefix (seg_data h) (seg_data g)" using assms(2) by (simp add: hs)
    ultimately have pf: "prefix (seg_data (last gs)) (seg_data g)" by (rule_tac prefix_order.trans)
    have eq: "butlast gs' @ g # rest = hs @ g # rest" by (simp add: hs)
    show ?thesis unfolding built_on_def L eq
    proof (intro conjI)
      show "length gs \<le> length (hs @ g # rest)" using True by (simp add: hs)
      show "take (length hs) (hs @ g # rest) = butlast gs" by (simp flip: bl)
    qed (use ne pf in simp_all)
  next
    case False
    define k where "k = length gs - 1"
    have k: "k < length hs" using False le ne(1) by (simp add: k_def hs) (cases gs; simp)
    have eq: "butlast gs' @ g # rest = hs @ g # rest" by (simp add: hs)
    from assms(1) k show ?thesis unfolding built_on_def eq hs k_def [symmetric]
      by (simp add: nth_append)
  qed
qed

lemma land_frame_built_on:
  assumes "built_on gs (segments s)"
  shows "built_on gs (segments (land_frame op doc fr n s))"
proof -
  let ?a = "active (note_old doc s)"
  from assms have ne: "segments s \<noteq> []" by (auto simp: built_on_def)
  have "built_on gs (segments ?a)"
    using built_on_last [OF assms, of "(last (segments s))\<lparr>sealed := True\<rparr>" "[seg_default]"] assms
    by (simp add: active_def)
  then show ?thesis
    using built_on_last [of gs "segments ?a" "(last (segments ?a))\<lparr>seg_data := seg_data (last (segments ?a)) @ fr\<rparr>" "[]"]
    by (simp add: land_frame_def Let_def extend_last_def)
qed

lemma cut_back:
  assumes "built_on gs gs'"
  shows "cut_last (length (seg_data (last gs))) (sealed (last gs)) (take (length gs) gs') = gs"
proof -
  from assms have ne: "gs \<noteq> []" and le: "length gs \<le> length gs'" by (auto simp: built_on_def)
  let ?n = "length gs - 1"
  have n: "?n < length gs'" "length gs = Suc ?n" using ne le by (cases gs; simp)+
  have t: "take (length gs) gs' = butlast gs @ [gs' ! ?n]"
    using assms n take_Suc_conv_app_nth [OF n(1)] by (simp add: built_on_def)
  have "take (length (seg_data (last gs))) (seg_data (gs' ! ?n)) = seg_data (last gs)"
    using assms by (auto simp: built_on_def prefix_def)
  then have "\<lparr>seg_data = take (length (seg_data (last gs))) (seg_data (gs' ! ?n)), sealed = sealed (last gs)\<rparr> = last gs"
    by simp
  with ne show ?thesis by (simp add: cut_last_def t)
qed

definition run_block :: "log_frame list \<Rightarrow> store \<Rightarrow> store" where
  "run_block fs s = fold (\<lambda>f s. fst (append (fst f) (fst (snd f)) (snd (snd f)) s)) fs s"

text \<open>Every id the block wrote pointed back to where it was, then the store cut back to the mark.\<close>

definition roll_back :: "store \<Rightarrow> nat list \<Rightarrow> store \<Rightarrow> store" where
  "roll_back before docs s = rewind (take_mark before) (fold (\<lambda>doc. point doc (store_loc before doc)) docs s)"

lemma append_step:
  assumes "store_inv s" "heap_bytes s < 2 ^ 53" "frame_ok f"
  defines "s' \<equiv> fst (append (fst f) (fst (snd f)) (snd (snd f)) s)"
  shows "store_inv s'" "heap_bytes s' = heap_bytes s + length (frame_of f)" "base s' = base s" "dropped s' = dropped s"
    "d \<noteq> fst (snd f) \<Longrightarrow> ix_get (index s') d = ix_get (index s) d"
proof -
  obtain op doc p where f: "f = (op, doc, p)" by (cases f)
  have hd: "frame op doc p = head_of f @ p" using frame_of_head [of f] by (simp add: f)
  note L = land_frame_spec [OF assms(1,2) hd length_head(1) assms(3) [unfolded f]]
  have s': "s' = land_frame op doc (frame op doc p) (length p) s" by (simp add: s'_def append_def f)
  show "store_inv s'" "base s' = base s" "dropped s' = dropped s" using L by (simp_all add: s')
  show "heap_bytes s' = heap_bytes s + length (frame_of f)"
    using L(3) by (simp add: heap_bytes_concat s' f)
  show "ix_get (index s') d = ix_get (index s) d" if "d \<noteq> fst (snd f)" using L(7) that by (simp add: s' f)
qed

lemma run_block_spec:
  assumes "store_inv s" "built_on gs (segments s)" "heap_bytes s + length (log_bytes fs) < 2 ^ 53" "\<forall>f\<in>set fs. frame_ok f"
  shows "store_inv (run_block fs s) \<and> built_on gs (segments (run_block fs s)) \<and> base (run_block fs s) = base s
     \<and> dropped (run_block fs s) = dropped s
     \<and> (\<forall>d. d \<notin> (\<lambda>f. fst (snd f)) ` set fs \<longrightarrow> ix_get (index (run_block fs s)) d = ix_get (index s) d)"
  using assms
proof (induction fs arbitrary: s)
  case Nil
  then show ?case by (simp add: run_block_def)
next
  case (Cons f fs)
  let ?s = "fst (append (fst f) (fst (snd f)) (snd (snd f)) s)"
  have "heap_bytes s < 2 ^ 53" "frame_ok f" using Cons.prems by auto
  note S = append_step [OF Cons.prems(1) this]
  have "built_on gs (segments ?s)" using land_frame_built_on [OF Cons.prems(2)] by (simp add: append_def)
  moreover have "run_block (f # fs) s = run_block fs ?s" by (simp add: run_block_def)
  ultimately show ?case using Cons.IH [OF S(1)] S Cons.prems(3,4) by auto
qed

lemma point_spec:
  assumes "ix_inv (index s)" "1 \<le> doc" "\<forall>l. old = Some l \<longrightarrow> \<not> loc_is_empty l"
  shows "ix_inv (index (point doc old s)) \<and> ix_get (index (point doc old s)) = (ix_get (index s))(doc := old)"
  using assms ix_insert_spec [of "index s" doc] ix.get_remove [of "index s" doc] ix.invar_remove [of "index s" doc]
  by (cases old) (auto simp: point_def)

lemma point_fold:
  assumes "ix_inv (index s)" "\<forall>d\<in>set docs. 1 \<le> d \<and> (\<forall>l. old d = Some l \<longrightarrow> \<not> loc_is_empty l)"
  shows "ix_inv (index (fold (\<lambda>d. point d (old d)) docs s))
     \<and> ix_get (index (fold (\<lambda>d. point d (old d)) docs s)) = (\<lambda>d. if d \<in> set docs then old d else ix_get (index s) d)
     \<and> (\<exists>ix. fold (\<lambda>d. point d (old d)) docs s = s\<lparr>index := ix\<rparr>)"
  using assms
proof (induction docs arbitrary: s)
  case Nil
  then show ?case by (auto intro: exI [of _ "index s"])
next
  case (Cons d docs)
  have P: "ix_inv (index (point d (old d) s)) \<and> ix_get (index (point d (old d) s)) = (ix_get (index s))(d := old d)"
    using Cons.prems by (intro point_spec) auto
  have "\<exists>ix. point d (old d) s = s\<lparr>index := ix\<rparr>" unfolding point_def by blast
  then obtain ix where ix: "point d (old d) s = s\<lparr>index := ix\<rparr>" by blast
  from Cons.IH [of "point d (old d) s"] P Cons.prems(2) show ?case
    by (auto simp: fun_eq_iff) (auto simp: ix)
qed

lemma ix_get_not_empty: "ix_inv ix \<Longrightarrow> ix_get ix d = Some l \<Longrightarrow> \<not> loc_is_empty l"
  by (auto simp: ix_get_def ix_inv_def Let_def dest!: map_of_SomeD split: if_splits)

lemma roll_back_spec:
  assumes "store_inv s" "heap_bytes s + length (log_bytes fs) < 2 ^ 53" "\<forall>f\<in>set fs. frame_ok f"
    and docs: "(\<lambda>f. fst (snd f)) ` set fs \<subseteq> set docs" "\<forall>d\<in>set docs. 1 \<le> d"
  shows "\<exists>ix. roll_back s docs (run_block fs s) = s\<lparr>index := ix\<rparr> \<and> ix_inv ix \<and> ix_get ix = ix_get (index s)"
proof -
  have ne: "segments s \<noteq> []" and inv: "ix_inv (index s)" using assms(1) by (auto simp: store_inv_def segs_full_def)
  let ?b = "run_block fs s"
  have B: "store_inv ?b" "built_on (segments s) (segments ?b)" "base ?b = base s" "dropped ?b = dropped s"
    "\<forall>d. d \<notin> (\<lambda>f. fst (snd f)) ` set fs \<longrightarrow> ix_get (index ?b) d = ix_get (index s) d"
    using run_block_spec [OF assms(1) built_on_refl [OF ne] assms(2,3)] by auto
  let ?p = "fold (\<lambda>d. point d (store_loc s d)) docs ?b"
  have "ix_inv (index ?b)" using B(1) by (simp add: store_inv_def)
  moreover have "\<forall>d\<in>set docs. 1 \<le> d \<and> (\<forall>l. store_loc s d = Some l \<longrightarrow> \<not> loc_is_empty l)"
    using docs(2) ix_get_not_empty [OF inv] by (simp add: store_loc_def)
  ultimately have P: "ix_inv (index ?p)"
    "ix_get (index ?p) = (\<lambda>d. if d \<in> set docs then store_loc s d else ix_get (index ?b) d)"
    "\<exists>ix. ?p = ?b\<lparr>index := ix\<rparr>"
    using point_fold [of ?b docs "store_loc s"] by blast+
  then obtain ix where ix: "?p = ?b\<lparr>index := ix\<rparr>" by blast
  have get: "ix_get (index ?p) = ix_get (index s)"
    using P(2) B(5) docs(1) by (auto simp: fun_eq_iff store_loc_def)
  have m: "max (length (segments s)) 1 = length (segments s)" using ne by (cases "segments s") auto
  have "cut_last (m_len (take_mark s)) (m_sealed (take_mark s)) (take (length (segments s)) (segments ?b)) = segments s"
    using cut_back [OF B(2)] ne by (simp add: take_mark_def)
  moreover have "map_option (\<lambda>(file, st). (file, take (m_stretches (take_mark s)) st)) (base s) = base s"
    by (auto simp: take_mark_def split: option.splits)
  ultimately have "roll_back s docs ?b = s\<lparr>index := ix\<rparr>"
    using B(3,4) m by (simp add: roll_back_def ix rewind_def) (simp add: take_mark_def)
  moreover have "index ?p = ix" by (simp add: ix)
  ultimately show ?thesis using P(1) get by auto
qed

section \<open>Every store a program reaches\<close>

text \<open>
  The states of a store in memory: made new, written to, reopened from its own image, compacted,
  and rolled back over a block. Beside each the map it should be. The bounds leave a location
  room: segments for \<open>2 ^ 53\<close> bytes.
\<close>

inductive reachable :: "store \<Rightarrow> (nat \<rightharpoonup> bytes) \<Rightarrow> bool" where
  made: "reachable store_new Map.empty"
| wrote: "reachable s m \<Longrightarrow> frame_ok (op, doc, p) \<Longrightarrow> total_bytes s < 2 ^ 53
    \<Longrightarrow> reachable (fst (append op doc p s)) (apply_frame (op, doc, p) m)"
| reopened: "reachable s m \<Longrightarrow> total_bytes s < 2 ^ 53 \<Longrightarrow> image s = Ok bs
    \<Longrightarrow> replay bs store_new = Some (s', Ok n) \<Longrightarrow> reachable s' m"
| compacted_to: "reachable s m \<Longrightarrow> live_len s < 2 ^ 53 \<Longrightarrow> compacted s = Ok s' \<Longrightarrow> reachable s' m"
| rolled_back: "reachable s m \<Longrightarrow> total_bytes s + length (log_bytes fs) < 2 ^ 53 \<Longrightarrow> \<forall>f\<in>set fs. frame_ok f
    \<Longrightarrow> (\<lambda>f. fst (snd f)) ` set fs \<subseteq> set docs \<Longrightarrow> \<forall>d\<in>set docs. 1 \<le> d
    \<Longrightarrow> reachable (roll_back s docs (run_block fs s)) m"

lemma logs_index:
  assumes "logs s fs" "ix_inv ix" "ix_get ix = ix_get (index s)"
  shows "logs (s\<lparr>index := ix\<rparr>) fs"
proof -
  have p: "payload (s\<lparr>index := ix\<rparr>) = payload s" by (rule ext) (rule payload_cong, simp_all)
  have "store_map (s\<lparr>index := ix\<rparr>) = store_map s" by (rule ext) (simp only: store_map_def p, simp add: assms(3))
  moreover have "store_inv (s\<lparr>index := ix\<rparr>)" using assms unfolding store_inv_def p logs_def by simp
  moreover have "image (s\<lparr>index := ix\<rparr>) = image s" by (simp add: image_def)
  ultimately show ?thesis using assms(1) by (simp add: logs_def)
qed

lemma reachable_logs: "reachable s m \<Longrightarrow> \<exists>fs. logs s fs \<and> m = fold apply_frame fs Map.empty"
proof (induction rule: reachable.induct)
  case made
  then show ?case using store_new_logs by (intro exI [of _ "[]"]) simp
next
  case (wrote s m op doc p)
  then obtain fs where fs: "logs s fs" "m = fold apply_frame fs Map.empty" by blast
  with wrote append_logs [OF fs(1), of op doc p] show ?case
    by (intro exI [of _ "fs @ [(op, doc, p)]"]) (simp add: logs_def)
next
  case (reopened s m bs s' n)
  then obtain fs where fs: "logs s fs" "m = fold apply_frame fs Map.empty" by blast
  then have bs: "bs = log_bytes fs" "length (log_bytes fs) < 2 ^ 53" "\<forall>f\<in>set fs. frame_ok f"
    using reopened by (auto simp: logs_def)
  with replay_frames [OF store_new_logs, of fs] reopened fs(2) show ?case by (auto simp: replay_def)
next
  case (compacted_to s m s')
  then obtain fs where fs: "logs s fs" "m = fold apply_frame fs Map.empty" by blast
  then have inv: "store_inv s" "store_map s = m" by (simp_all add: logs_def)
  with compacted_logs [OF inv(1) compacted_to(2)] compacted_to(3) live_map [OF inv(1)] show ?case by auto
next
  case (rolled_back s m fs docs)
  then obtain gs where gs: "logs s gs" "m = fold apply_frame gs Map.empty" by blast
  then have inv: "store_inv s" and h: "heap_bytes s \<le> total_bytes s" using heap_le_image by (auto simp: logs_def)
  obtain ix where "roll_back s docs (run_block fs s) = s\<lparr>index := ix\<rparr>" "ix_inv ix" "ix_get ix = ix_get (index s)"
    using roll_back_spec [OF inv _ rolled_back(3-5)] rolled_back(2) h by auto
  with logs_index [OF gs(1)] gs(2) show ?case by auto
qed

section \<open>Properties\<close>

text \<open>
  C1: the store refines a map. Whatever sequence of writes, reopens from its own image,
  compactions and rolled-back blocks led to it, a read of any id's raw payload is the map's, the
  ids are its domain in ascending order, and the count is their number.
\<close>

theorem store_refines_map:
  assumes "reachable s m"
  shows "(\<forall>doc. raw s doc = Ok (m doc)) \<and> sorted_wrt (<) (ix_iter (index s)) \<and> set (ix_iter (index s)) = dom m
     \<and> ix_len (index s) = card (dom m)"
proof -
  obtain fs where fs: "logs s fs" "m = fold apply_frame fs Map.empty" using reachable_logs [OF assms] by blast
  then have inv: "store_inv s" and m: "store_map s = m" by (simp_all add: logs_def)
  then have ixi: "ix_inv (index s)" by (simp add: store_inv_def)
  have "raw s doc = Ok (m doc)" for doc
    using inv unfolding m [symmetric]
    by (cases "ix_get (index s) doc") (fastforce simp: raw_def store_map_def store_inv_def is_ok_iff)+
  moreover have "dom m = dom (ix_get (index s))" using store_map_dom [OF inv] m by simp
  ultimately show ?thesis using ix_iter_sorted [OF ixi] ix.len_card [OF ixi] by simp
qed

lemma frame_ok_demo: "frame_ok (op_put, 5, [9])" "frame_ok (op_del, 5, [])"
  by simp_all

definition demo_store :: store where
  "demo_store = fst (append op_put 5 [9] store_new)"

lemma demo_reachable: "reachable demo_store (Map.empty(5 \<mapsto> [9]))"
  using wrote [OF made frame_ok_demo(1)] by (simp add: demo_store_def store_new_def)

lemma demo_logs: "logs demo_store [(op_put, 5, [9])]" "log_bytes [(op_put, 5, [9])] = [1, 5, 1, 9]"
proof -
  show "logs demo_store [(op_put, 5, [9])]"
    using append_logs [OF store_new_logs _ frame_ok_demo(1)] by (simp add: demo_store_def)
  show "log_bytes [(op_put, 5, [9])] = [1, 5, 1, 9]" by code_simp
qed

theorem store_refines_map_witness:
  "(\<forall>doc. raw demo_store doc = Ok ((Map.empty(5 \<mapsto> [9])) doc)) \<and> sorted_wrt (<) (ix_iter (index demo_store))
     \<and> set (ix_iter (index demo_store)) = {5} \<and> ix_len (index demo_store) = 1"
  using store_refines_map [OF demo_reachable] by simp

text \<open>
  An append returns the frame it wrote, and the store's image is the old one with that
  frame behind it: memory and the persistent sink get the same bytes.
\<close>

lemma append_writes_frame:
  assumes "logs s fs" "length (log_bytes fs) < 2 ^ 53" "frame_ok (op, doc, p)"
  shows "snd (append op doc p s) = frame op doc p \<and> image s = Ok (log_bytes fs)
     \<and> image (fst (append op doc p s)) = Ok (log_bytes fs @ frame op doc p)
     \<and> image_len (fst (append op doc p s)) = image_len s + length (frame op doc p)
     \<and> store_map (fst (append op doc p s)) = apply_frame (op, doc, p) (store_map s)"
  using append_logs [OF assms] assms(1) by (simp add: logs_def append_def image_len_def)

text \<open>
  C5: a log replayed onto a store, whole or with its last frame cut short. Cut inside the
  payload, the replay returns the whole frames before it; cut inside the head it returns the
  varint's error -- and either way the store holds exactly those frames.
\<close>

theorem replay_cut_log:
  assumes "logs s fs" "length (log_bytes (fs @ gs)) < 2 ^ 53" "\<forall>g\<in>set gs. frame_ok g"
    and "frame_ok f" "k < length (frame_of f)"
  shows "\<exists>s'. replay_noting (log_bytes gs @ take k (frame_of f)) s
      = Some (s', map (\<lambda>g. fst (snd g)) gs,
          if k = 0 \<or> length (head_of f) \<le> k then Ok (length gs) else Err e_varint_early)
     \<and> logs s' (fs @ gs)"
proof -
  let ?bs = "log_bytes gs @ take k (frame_of f)"
  obtain op doc p where f: "f = (op, doc, p)" by (cases f)
  have "length (frame_of f) < 2 ^ 33"
    using length_head(1) [of f] assms(4) frame_of_head [of f] by (simp add: f)
  then have len: "length (log_bytes gs) + length (frame_of f) < 2 ^ 63" using assms(2) by simp
  have "length ?bs < 2 ^ 63" using len by simp
  then obtain s' where s': "logs s' (fs @ gs)" "replay_loop ?bs s 0 [] 0
      = replay_loop ?bs s' (length (log_bytes gs)) (map (\<lambda>f. fst (snd f)) gs) (length gs)"
    using replay_loop_frames [OF assms(1-3), of ?bs "[]" "take k (frame_of f)" "[]" 0] by auto
  consider "k = 0" | "0 < k" "k < length (head_of f)" | "length (head_of f) \<le> k" by linarith
  then show ?thesis
  proof cases
    case 1
    moreover have "replay_loop bs t (length bs) noted cnt = Some (t, noted, Ok cnt)" for bs t noted cnt
      by (subst replay_loop.simps) simp
    ultimately show ?thesis using s' by (auto simp: replay_noting_def)
  next
    case 2
    then show ?thesis
      using s' replay_loop_torn_head [OF 2, of "log_bytes gs" s'] by (auto simp: replay_noting_def)
  next
    case 3
    then show ?thesis
      using s' replay_loop_torn_payload [OF 3 assms(5,4) len, of s'] by (auto simp: replay_noting_def)
  qed
qed

theorem replay_cut_log_witness:
  "\<exists>s'. replay_noting (log_bytes [(op_put, 5, [9])] @ take 2 (frame_of (op_put, 6, [7]))) store_new
      = Some (s', map (\<lambda>g. fst (snd g)) [(op_put, 5, [9 :: u8])],
          if (2 :: nat) = 0 \<or> length (head_of (op_put, 6, [7])) \<le> 2 then Ok (length [(op_put, 5 :: nat, [9 :: u8])])
          else Err e_varint_early)
     \<and> logs s' ([] @ [(op_put, 5, [9])])"
proof (rule replay_cut_log [OF store_new_logs])
  show "2 < length (frame_of (op_put, 6, [7]))" by code_simp
qed (simp_all add: demo_logs(2) [simplified])

text \<open>
  C2: a store reopened from its own image is the store: the same map, the same image, one
  record counted for each frame.
\<close>

theorem replay_image_restores:
  assumes "logs s fs" "length (log_bytes fs) < 2 ^ 53"
  shows "\<exists>bs s'. image s = Ok bs \<and> replay bs store_new = Some (s', Ok (length fs))
     \<and> store_map s' = store_map s \<and> image s' = Ok bs \<and> store_inv s'"
proof -
  have ok: "\<forall>f\<in>set fs. frame_ok f" using assms(1) by (simp add: logs_def)
  obtain s' where "replay_noting (log_bytes fs) store_new = Some (s', map (\<lambda>f. fst (snd f)) fs, Ok (length fs))"
    "logs s' fs"
    using replay_frames [OF store_new_logs _ ok] assms(2) by auto
  then show ?thesis using assms(1) by (auto simp: replay_def logs_def)
qed

theorem replay_image_restores_witness:
  "\<exists>bs s'. image demo_store = Ok bs \<and> replay bs store_new = Some (s', Ok (length [(op_put, 5 :: nat, [9 :: u8])]))
     \<and> store_map s' = store_map demo_store \<and> image s' = Ok bs \<and> store_inv s'"
  using replay_image_restores [OF demo_logs(1)] demo_logs(2) by simp

text \<open>
  C3: a compaction keeps the map, the id counter and the dropped places, leaves nothing dead, and
  is the live image: what \<open>write_live\<close> writes and \<open>live_len\<close> counts.
\<close>

theorem compacted_keeps_map:
  assumes "store_inv s" "live_len s < 2 ^ 53"
  shows "\<exists>t. compacted s = Ok t \<and> store_map t = store_map s \<and> store_inv t \<and> dead_bytes t = 0
     \<and> next_id t = next_id s \<and> dropped t = dropped s
     \<and> (\<exists>img. write_live s [] = (img, Ok ()) \<and> image t = Ok img \<and> length img = live_len s \<and> image_len t = live_len s)"
proof -
  obtain t where t: "compacted s = Ok t" "logs t (live_puts s (ix_iter (index s)))" "dead_bytes t = 0"
    "next_id t = next_id s" "dropped t = dropped s" using compacted_logs [OF assms] by blast
  with live_image [OF assms(1)] live_map [OF assms(1)] show ?thesis
    by (auto simp: logs_def image_len_def)
qed

theorem compacted_keeps_map_witness:
  "\<exists>t. compacted demo_store = Ok t \<and> store_map t = store_map demo_store \<and> store_inv t \<and> dead_bytes t = 0
     \<and> next_id t = next_id demo_store \<and> dropped t = dropped demo_store
     \<and> (\<exists>img. write_live demo_store [] = (img, Ok ()) \<and> image t = Ok img \<and> length img = live_len demo_store
       \<and> image_len t = live_len demo_store)"
proof (rule compacted_keeps_map)
  show "store_inv demo_store" using demo_logs(1) by (simp add: logs_def)
  have "live_len demo_store = 4" by code_simp
  then show "live_len demo_store < 2 ^ 53" by simp
qed

text \<open>
  C4: a block of writes rolled back leaves the store as it was before it: the segments cut back
  byte for byte, the counters restored, and every id pointed where it was -- all of it but the
  arrangement of the id index.
\<close>

theorem roll_back_restores:
  assumes "store_inv s" "heap_bytes s + length (log_bytes fs) < 2 ^ 53" "\<forall>f\<in>set fs. frame_ok f"
    and "(\<lambda>f. fst (snd f)) ` set fs \<subseteq> set docs" "\<forall>d\<in>set docs. 1 \<le> d"
  shows "\<exists>ix. roll_back s docs (run_block fs s) = s\<lparr>index := ix\<rparr> \<and> ix_inv ix \<and> ix_get ix = ix_get (index s)"
  by (rule roll_back_spec [OF assms])

theorem roll_back_restores_witness:
  "\<exists>ix. roll_back demo_store [5, 6] (run_block [(op_del, 5, []), (op_put, 6, [7])] demo_store) = demo_store\<lparr>index := ix\<rparr>
     \<and> ix_inv ix \<and> ix_get ix = ix_get (index demo_store)"
proof (rule roll_back_restores)
  show "store_inv demo_store" using demo_logs(1) by (simp add: logs_def)
  have "heap_bytes demo_store + length (log_bytes [(op_del, 5, []), (op_put, 6, [7])]) = 11" by code_simp
  then show "heap_bytes demo_store + length (log_bytes [(op_del, 5, []), (op_put, 6, [7])]) < 2 ^ 53" by simp
qed simp_all

text \<open>
  C40: a frame whose head gives a length that wraps its end back to its start is read again for
  ever: the replay of these twelve bytes returns on no store. The code means to stop at a frame
  its bytes do not hold.
\<close>

theorem replay_never_returns: "replay_noting looping_bytes s = None"
  using replay_loop_loops [of s "[]" 0] by (cases "replay_loop looping_bytes s 0 [] 0") (auto simp: replay_noting_def)

end
