(* ===== verification/Fenec_Store_Read.thy ===== *)
theory Fenec_Store_Read
  imports Fenec_Store_Compact
begin

unbundle bit_operations_syntax

text \<open>
  Reads of a stored document (\<open>fenec-core/src/store.rs\<close>): whole, by field, by path, several
  fields or paths in one pass over the payload, a vector or a point without decoding the rest,
  and the snapshot a catch-up copies after the lock is let go. A slot the caller hands in is
  part of the state: each reader returns the slots as it leaves them beside what it returns.
\<close>

section \<open>Fields\<close>

definition store_place :: "store \<Rightarrow> nat \<Rightarrow> nat" where
  "store_place s pos = (if dropped s = [] then pos else place (dropped s) pos)"

text \<open>The payload of a document, \<open>None\<close> where there is none: how every reader starts.\<close>

definition read :: "store \<Rightarrow> schema \<Rightarrow> nat \<Rightarrow> document option result" where
  "read s sch doc =
     (case ix_get (index s) doc of
        None \<Rightarrow> Ok None
      | Some l \<Rightarrow> and_then (payload s l) (\<lambda>buf. map_ok Some (read_doc sch doc buf)))"

definition read_field :: "store \<Rightarrow> nat \<Rightarrow> nat \<Rightarrow> val option result" where
  "read_field s doc field_pos =
     (case ix_get (index s) doc of
        None \<Rightarrow> Ok None
      | Some l \<Rightarrow>
          and_then (payload s l) (\<lambda>buf.
          and_then (skip_fields buf (store_place s field_pos) 0) (\<lambda>pos.
            if pos < length buf then map_ok (\<lambda>(v, _). Some v) (decode_value buf pos)
            else Ok (Some VNull))))"

text \<open>A value into the slot at \<open>i\<close>, or pushed where there is none.\<close>

definition put_slot :: "nat \<Rightarrow> val \<Rightarrow> val list \<Rightarrow> val list" where
  "put_slot i v out = (if i < length out then out[i := v] else out @ [v])"

definition e_point_outside :: error where
  "e_point_outside = Corrupt ''point outside the segment''"

text \<open>
  One slot of \<open>read_fields\<close>: the slots and the position as they are left. A text or a point
  read into the slot that held one takes its place in it.
\<close>

definition read_slot :: "bytes \<Rightarrow> usize \<Rightarrow> nat \<Rightarrow> val list \<Rightarrow> val list \<times> usize result" where
  "read_slot buf pos i out =
     (let slot = (if i < length out then Some (out ! i) else None);
          plain = (case decode_value buf pos of
                     Ok (v, p) \<Rightarrow> (put_slot i v out, Ok p)
                   | Err e \<Rightarrow> (out, Err e)
                   | Panic \<Rightarrow> (out, Panic))
      in case get_byte buf pos of
           None \<Rightarrow> (put_slot i VNull out, Ok pos)
         | Some tag \<Rightarrow>
             (case slot of
                Some (VText t) \<Rightarrow>
                  (if tag = tag_text then
                     (let (t', r) = decode_text_into buf (pos + 1) t in (out[i := VText t'], r))
                   else plain)
              | Some (VList p) \<Rightarrow>
                  (if tag = tag_geo \<and> length p = 2 then
                     (case get_range buf (pos + 1) (pos + 17) of
                        None \<Rightarrow> (out, Err e_point_outside)
                      | Some bs \<Rightarrow> (out[i := geo_value (geo_at bs)], Ok (pos + 17)))
                   else plain)
              | _ \<Rightarrow> plain))"

fun read_fields_from :: "bytes \<Rightarrow> nat \<Rightarrow> nat \<Rightarrow> usize \<Rightarrow> nat list \<Rightarrow> val list \<Rightarrow> val list \<times> unit result" where
  "read_fields_from buf i at pos [] out = (out, Ok ())"
| "read_fields_from buf i at pos (want # ws) out =
     (case skip_fields buf (want - at) pos of
        Err e \<Rightarrow> (out, Err e)
      | Panic \<Rightarrow> (out, Panic)
      | Ok pos \<Rightarrow>
          (case read_slot buf pos i out of
             (out, Ok pos) \<Rightarrow> read_fields_from buf (i + 1) (max at want + 1) pos ws out
           | (out, Err e) \<Rightarrow> (out, Err e)
           | (out, Panic) \<Rightarrow> (out, Panic)))"

definition read_fields :: "store \<Rightarrow> nat \<Rightarrow> nat list \<Rightarrow> val list \<Rightarrow> val list \<times> bool result" where
  "read_fields s doc places out =
     (case ix_get (index s) doc of
        None \<Rightarrow> (out, Ok False)
      | Some l \<Rightarrow>
          (case payload s l of
             Ok buf \<Rightarrow> (let (out, r) = read_fields_from buf 0 0 0 places out in (out, map_ok (\<lambda>_. True) r))
           | Err e \<Rightarrow> (out, Err e)
           | Panic \<Rightarrow> (out, Panic)))"

section \<open>Paths\<close>

text \<open>Each path goes on from where the one before found its field, or from the start.\<close>

fun read_paths_from :: "store \<Rightarrow> bytes \<Rightarrow> nat \<Rightarrow> usize \<Rightarrow> (nat \<times> bytes) list \<Rightarrow> val list \<Rightarrow> val list \<times> unit result" where
  "read_paths_from s buf at pos ((field, keys) # ps) (slot # out) =
     (let want = store_place s field;
          (at, pos) = (if want < at then (0, 0) else (at, pos))
      in case skip_fields buf (want - at) pos of
           Err e \<Rightarrow> (slot # out, Err e)
         | Panic \<Rightarrow> (slot # out, Panic)
         | Ok pos \<Rightarrow>
             (case if pos < length buf then decode_path_into buf pos keys slot else (VNull, Ok ()) of
                (slot, Ok _) \<Rightarrow> (let (out, r) = read_paths_from s buf want pos ps out in (slot # out, r))
              | (slot, Err e) \<Rightarrow> (slot # out, Err e)
              | (slot, Panic) \<Rightarrow> (slot # out, Panic)))"
| "read_paths_from s buf at pos ps out = (out, Ok ())"

definition read_paths :: "store \<Rightarrow> nat \<Rightarrow> (nat \<times> bytes) list \<Rightarrow> val list \<Rightarrow> val list \<times> bool result" where
  "read_paths s doc paths out =
     (case ix_get (index s) doc of
        None \<Rightarrow> (out, Ok False)
      | Some l \<Rightarrow>
          (case payload s l of
             Ok buf \<Rightarrow> (let (out, r) = read_paths_from s buf 0 0 paths out in (out, map_ok (\<lambda>_. True) r))
           | Err e \<Rightarrow> (out, Err e)
           | Panic \<Rightarrow> (out, Panic)))"

definition read_path :: "store \<Rightarrow> nat \<Rightarrow> nat \<Rightarrow> bytes \<Rightarrow> val option result" where
  "read_path s doc field_pos keys =
     (let (v, r) = read_paths s doc [(field_pos, keys)] [VNull]
      in map_ok (\<lambda>found. if found then Some (v ! 0) else None) r)"

section \<open>Vectors and points\<close>

definition field_at :: "store \<Rightarrow> nat \<Rightarrow> nat \<Rightarrow> bytes option result" where
  "field_at s doc field_pos =
     (case ix_get (index s) doc of
        None \<Rightarrow> Ok None
      | Some l \<Rightarrow>
          and_then (payload s l) (\<lambda>buf.
          and_then (skip_fields buf (store_place s field_pos) 0) (\<lambda>pos.
            Ok (Some (drop (min pos (length buf)) buf)))))"

definition has_vector :: "store \<Rightarrow> nat \<Rightarrow> nat \<Rightarrow> bool result" where
  "has_vector s doc field_pos =
     map_ok (\<lambda>b. case b of
         None \<Rightarrow> False
       | Some b \<Rightarrow> get_byte b 0 = Some tag_vector \<or> get_byte b 0 = Some tag_vector_f16)
       (field_at s doc field_pos)"

definition read_point :: "store \<Rightarrow> nat \<Rightarrow> nat \<Rightarrow> (f64 \<times> f64) option result" where
  "read_point s doc field_pos =
     and_then (field_at s doc field_pos) (\<lambda>b. case b of
         None \<Rightarrow> Ok None
       | Some buf \<Rightarrow>
           (if get_byte buf 0 = Some tag_geo then
              (case get_range buf 1 17 of Some bs \<Rightarrow> Ok (Some (geo_at bs)) | None \<Rightarrow> Err e_point_outside)
            else Ok None))"

definition e_vector_outside :: error where
  "e_vector_outside = Corrupt ''vector outside the segment''"

text \<open>
  The element count is read from the bytes, so its product wraps; \<open>reserve\<close> panics where the
  count itself cannot be held, and the slice where its end wrapped to before its start.
\<close>

definition read_vector_into :: "store \<Rightarrow> nat \<Rightarrow> nat \<Rightarrow> f32 list \<Rightarrow> f32 list \<times> bool result" where
  "read_vector_into s doc field_pos out =
     (case field_at s doc field_pos of
        Err e \<Rightarrow> (out, Err e)
      | Panic \<Rightarrow> (out, Panic)
      | Ok None \<Rightarrow> (out, Ok False)
      | Ok (Some buf) \<Rightarrow>
          (if get_byte buf 0 = Some tag_vector \<or> get_byte buf 0 = Some tag_vector_f16 then
             (let half_prec = (get_byte buf 0 = Some tag_vector_f16) in
              case get_usize buf 1 of
                Err e \<Rightarrow> (out, Err e)
              | Panic \<Rightarrow> (out, Panic)
              | Ok (n, pos) \<Rightarrow>
                  (let e = usize_add pos (usize_mul n (if half_prec then 2 else 4)) in
                   if length buf < e then (out, Err e_vector_outside)
                   else case with_capacity n 4 of
                     Ok _ \<Rightarrow>
                       (case get_range buf pos e of
                          None \<Rightarrow> ([], Panic)
                        | Some bs \<Rightarrow>
                            ((if half_prec then map (\<lambda>c. half (of_le_bytes c)) (chunks 2 bs)
                              else map of_le_bytes (chunks 4 bs)), Ok True))
                   | Err er \<Rightarrow> ([], Err er)
                   | Panic \<Rightarrow> ([], Panic)))
           else (out, Ok False)))"

section \<open>Snapshots\<close>

datatype snap_place = File nat u32 | Held nat u32 | Gone

record snapshot =
  snap_base :: "bytes option"
  held :: bytes
  docs :: "(nat \<times> snap_place) list"

fun snapshot_loop :: "store \<Rightarrow> nat list \<Rightarrow> snapshot \<Rightarrow> snapshot \<times> unit result" where
  "snapshot_loop s [] sn = (sn, Ok ())"
| "snapshot_loop s (doc # ids) sn =
     (case ix_get (index s) doc of
        None \<Rightarrow> snapshot_loop s ids (sn\<lparr>docs := docs sn @ [(doc, Gone)]\<rparr>)
      | Some l \<Rightarrow>
          (if is_mapped_loc l \<and> snap_base sn \<noteq> None then
             snapshot_loop s ids (sn\<lparr>docs := docs sn @ [(doc, File (mapped_at l) (plen l))]\<rparr>)
           else
             (case payload s l of
                Ok p \<Rightarrow>
                  snapshot_loop s ids
                    (sn\<lparr>held := held sn @ p, docs := docs sn @ [(doc, Held (length (held sn)) (plen l))]\<rparr>)
              | Err e \<Rightarrow> (sn, Err e)
              | Panic \<Rightarrow> (sn, Panic))))"

definition take_snapshot :: "store \<Rightarrow> nat list \<Rightarrow> snapshot \<times> unit result" where
  "take_snapshot s ids = snapshot_loop s ids \<lparr>snap_base = map_option fst (base s), held = [], docs = []\<rparr>"

definition snap_payload :: "snapshot \<Rightarrow> snap_place \<Rightarrow> bytes option result" where
  "snap_payload sn p =
     (case p of
        File at n \<Rightarrow>
          map_ok Some (ok_or e_outside_file
            (get_range (case snap_base sn of None \<Rightarrow> [] | Some file \<Rightarrow> file) at (at + unat n)))
      | Held from n \<Rightarrow>
          (case get_range (held sn) from (from + unat n) of Some bs \<Rightarrow> Ok (Some bs) | None \<Rightarrow> Panic)
      | Gone \<Rightarrow> Ok None)"

text \<open>\<open>Snapshot::each\<close>: what \<open>f\<close> keeps is threaded through its calls, and its first error ends them.\<close>

fun each_loop :: "snapshot \<Rightarrow> ('s \<Rightarrow> nat \<Rightarrow> bytes option \<Rightarrow> 's \<times> unit result) \<Rightarrow> 's \<Rightarrow> (nat \<times> snap_place) list \<Rightarrow> 's \<times> unit result" where
  "each_loop sn f st [] = (st, Ok ())"
| "each_loop sn f st ((doc, p) # ds) =
     (case snap_payload sn p of
        Err e \<Rightarrow> (st, Err e)
      | Panic \<Rightarrow> (st, Panic)
      | Ok b \<Rightarrow>
          (case f st doc b of
             (st, Ok _) \<Rightarrow> each_loop sn f st ds
           | (st, Err e) \<Rightarrow> (st, Err e)
           | (st, Panic) \<Rightarrow> (st, Panic)))"

definition snap_each :: "snapshot \<Rightarrow> ('s \<Rightarrow> nat \<Rightarrow> bytes option \<Rightarrow> 's \<times> unit result) \<Rightarrow> 's \<Rightarrow> 's \<times> unit result" where
  "snap_each sn f st = each_loop sn f st (docs sn)"

section \<open>Many at once\<close>

lemma store_place_eq: "store_place s = place (dropped s)"
  by (auto simp: store_place_def)

lemma skip_fields_add: "skip_fields buf (m + n) pos = and_then (skip_fields buf m pos) (skip_fields buf n)"
  by (induction m arbitrary: pos) (auto intro: arg_cong2 [where f = and_then])

lemma skip_fields_on:
  assumes "skip_fields buf at 0 = Ok pos" "at \<le> want"
  shows "skip_fields buf (want - at) pos = skip_fields buf want 0"
  using skip_fields_add [of buf at "want - at" 0] assms by simp

text \<open>What a read of the place \<open>k\<close> on its own finds there.\<close>

definition reads_at :: "bytes \<Rightarrow> nat \<Rightarrow> val \<Rightarrow> bool" where
  "reads_at buf k v \<longleftrightarrow> (\<exists>pos. skip_fields buf k 0 = Ok pos
     \<and> (if pos < length buf then \<exists>p. decode_value buf pos = Ok (v, p) else v = VNull))"

lemma read_field_iff:
  "read_field s doc j = Ok (Some v)
     \<longleftrightarrow> (\<exists>l buf. ix_get (index s) doc = Some l \<and> payload s l = Ok buf \<and> reads_at buf (store_place s j) v)"
  by (auto simp: read_field_def reads_at_def result_simps split: option.splits if_splits)

lemma decode_text_into_at:
  "decode_str buf pos = Ok (t, p) \<Longrightarrow> decode_text_into buf pos u = (t, Ok p)"
  unfolding decode_text_into_def decode_str_def
  by (cases "get_usize buf pos"; clarsimp) (case_tac "take_bytes buf b a"; clarsimp split: if_splits)

lemma decode_value_geo:
  "get_byte buf pos = Some tag_geo
     \<Longrightarrow> decode_value buf pos = and_then (take_bytes buf (Suc pos) 16) (\<lambda>(bs, p). Ok (geo_value (geo_at bs), p))"
  by (subst decode_value_unfold) (simp add: decode_step_def tag_defs)

lemma read_slot_value:
  assumes "pos < length buf" "decode_value buf pos = Ok (v, p)"
  shows "read_slot buf pos i out = (put_slot i v out, Ok p)"
proof -
  let ?b = "buf ! pos"
  have b: "get_byte buf pos = Some ?b" using assms(1) by (simp add: get_byte_def)
  consider (text_slot) t where "i < length out" "out ! i = VText t" "?b = tag_text"
    | (geo_slot) q where "i < length out" "out ! i = VList q" "length q = 2" "?b = tag_geo"
    | (plain) "\<not> (\<exists>t. i < length out \<and> out ! i = VText t \<and> ?b = tag_text)"
        "\<not> (\<exists>q. i < length out \<and> out ! i = VList q \<and> length q = 2 \<and> ?b = tag_geo)"
    by blast
  then show ?thesis
  proof cases
    case text_slot
    then obtain u where u: "decode_str buf (Suc pos) = Ok (u, p)" "v = VText u"
      using assms(2) decode_value_text [of buf pos] b by (auto simp: result_simps)
    with text_slot b decode_text_into_at [OF u(1)] show ?thesis by (simp add: read_slot_def put_slot_def)
  next
    case geo_slot
    then obtain bs where "take_bytes buf (Suc pos) 16 = Ok (bs, p)" "v = geo_value (geo_at bs)"
      using assms(2) decode_value_geo [of buf pos] b by (auto simp: result_simps)
    then have "get_range buf (pos + 1) (pos + 17) = Some bs" "p = pos + 17" "v = geo_value (geo_at bs)"
      by (auto simp: take_bytes_def get_range_def split: if_splits)
    with geo_slot b show ?thesis by (simp add: read_slot_def put_slot_def)
  next
    case plain
    with assms b show ?thesis
      by (auto simp: read_slot_def Let_def split: option.splits val.splits if_splits)
  qed
qed

lemma read_slot_end: "length buf \<le> pos \<Longrightarrow> read_slot buf pos i out = (put_slot i VNull out, Ok pos)"
  by (simp add: read_slot_def get_byte_def)

declare skip_fields.simps(2) [simp del]

lemma skip_fields_Suc: "skip_fields buf k 0 = Ok pos \<Longrightarrow> skip_fields buf (Suc k) 0 = skip_field buf pos"
  using skip_fields_add [of buf k 1 0] by (cases "skip_field buf pos") (simp_all add: skip_fields.simps(2))

lemma read_slot_at:
  assumes "reads_at buf k v" "skip_fields buf k 0 = Ok pos"
  shows "\<exists>p. read_slot buf pos i out = (put_slot i v out, Ok p) \<and> skip_fields buf (k + 1) 0 = Ok p"
proof (cases "pos < length buf")
  case True
  with assms obtain p where "decode_value buf pos = Ok (v, p)" by (auto simp: reads_at_def)
  with True assms(2) show ?thesis by (auto simp: read_slot_value skip_fields_Suc skip_field_decode)
next
  case False
  with assms have "v = VNull" by (auto simp: reads_at_def)
  with False assms(2) show ?thesis by (auto simp: read_slot_end skip_fields_Suc skip_field_end)
qed

lemma put_slot_prefix:
  "put_slot (length done) v (done @ rest) = (done @ [v]) @ drop 1 rest"
  by (cases rest) (simp_all add: put_slot_def)

lemma read_fields_from_at:
  assumes "list_all2 (reads_at buf) ws vs" "sorted_wrt (<) ws \<and> (\<forall>w\<in>set ws. at \<le> w)"
    "skip_fields buf at 0 = Ok pos" "i = length done"
  shows "read_fields_from buf i at pos ws (done @ rest) = (done @ vs @ drop (length ws) rest, Ok ())"
  using assms
proof (induction ws vs arbitrary: at pos i "done" rest rule: list_all2_induct)
  case Nil
  then show ?case by simp
next
  case (Cons w ws v vs)
  have le: "at \<le> w" using Cons.prems(1) by auto
  obtain q where q: "skip_fields buf w 0 = Ok q" using Cons.hyps(1) by (auto simp: reads_at_def)
  obtain p where p: "read_slot buf q i (done @ rest) = (put_slot i v (done @ rest), Ok p)"
    "skip_fields buf (w + 1) 0 = Ok p" using read_slot_at [OF Cons.hyps(1) q] by blast
  have "sorted_wrt (<) ws \<and> (\<forall>x\<in>set ws. w + 1 \<le> x)" using Cons.prems(1) by auto
  then have "read_fields_from buf (i + 1) (w + 1) p ws ((done @ [v]) @ drop 1 rest)
      = ((done @ [v]) @ vs @ drop (length ws) (drop 1 rest), Ok ())"
    using Cons.prems(3) p(2) by (intro Cons.IH) simp_all
  with le q p(1) skip_fields_on [OF Cons.prems(2) le] Cons.prems(3) show ?case
    by (simp add: put_slot_prefix max_def)
qed

text \<open>A path on its own, read into any slot.\<close>

definition reads_path :: "bytes \<Rightarrow> nat \<Rightarrow> bytes \<Rightarrow> val \<Rightarrow> bool" where
  "reads_path buf k keys v \<longleftrightarrow> (\<exists>pos. skip_fields buf k 0 = Ok pos
     \<and> (if pos < length buf then decode_path buf pos keys = Ok v else v = VNull))"

lemma decode_path_into_any:
  assumes "decode_path buf pos keys = Ok v"
  shows "decode_path_into buf pos keys slot = (v, Ok ())"
proof (cases "walk_keys buf pos (split_on dot keys)")
  case (Ok found)
  show ?thesis
  proof (cases found)
    case None
    with Ok assms show ?thesis by (simp add: decode_path_def decode_path_into_def)
  next
    case (Some p)
    with Ok assms obtain q where q: "decode_value buf p = Ok (v, q)"
      by (auto simp: decode_path_def decode_path_into_def split: bool.splits result.splits)
    show ?thesis
    proof (cases "get_byte buf p = Some tag_text \<and> (\<exists>t. slot = VText t)")
      case True
      then obtain t where t: "slot = VText t" by blast
      from True q obtain u where "decode_str buf (Suc p) = Ok (u, q)" "v = VText u"
        by (auto simp: decode_value_text result_simps)
      with Ok Some True t decode_text_into_at show ?thesis by (simp add: decode_path_into_def)
    next
      case False
      with Ok Some q show ?thesis by (auto simp: decode_path_into_def split: val.splits bool.splits)
    qed
  qed
qed (use assms in \<open>simp_all add: decode_path_def decode_path_into_def\<close>)

lemma read_paths_from_at:
  assumes "list_all2 (\<lambda>p v. reads_path buf (store_place s (fst p)) (snd p) v) ps vs"
    "skip_fields buf at 0 = Ok pos" "length ps \<le> length out"
  shows "read_paths_from s buf at pos ps out = (vs @ drop (length ps) out, Ok ())"
  using assms
proof (induction ps vs arbitrary: at pos out rule: list_all2_induct)
  case Nil
  then show ?case by simp
next
  case (Cons p ps v vs)
  obtain field keys where p: "p = (field, keys)" by fastforce
  obtain slot rest where out: "out = slot # rest" using Cons.prems(2) by (cases out) auto
  let ?w = "store_place s field"
  obtain q where q: "skip_fields buf ?w 0 = Ok q"
    "if q < length buf then decode_path buf q keys = Ok v else v = VNull"
    using Cons.hyps(1) p by (auto simp: reads_path_def)
  obtain a b where ab: "(if ?w < at then (0, 0) else (at, pos)) = (a, b)" "skip_fields buf (?w - a) b = Ok q"
    using q(1) skip_fields_on [OF Cons.prems(1), of ?w] by (cases "?w < at") auto
  have "(if q < length buf then decode_path_into buf q keys slot else (VNull, Ok ())) = (v, Ok ())"
    using q(2) decode_path_into_any by auto
  with ab Cons.IH [OF q(1), of rest] Cons.prems(2) out p show ?case by (simp add: Let_def)
qed

lemma read_path_iff:
  "read_path s doc j keys = Ok (Some v)
     \<longleftrightarrow> (\<exists>l buf. ix_get (index s) doc = Some l \<and> payload s l = Ok buf \<and> reads_path buf (store_place s j) keys v)"
proof (cases "ix_get (index s) doc")
  case (Some l)
  show ?thesis
  proof (cases "payload s l")
    case (Ok buf)
    have "reads_path buf (store_place s j) keys v \<Longrightarrow> read_path s doc j keys = Ok (Some v)"
      using read_paths_from_at [of buf s "[(j, keys)]" "[v]" 0 0 "[VNull]"] Some Ok
      by (simp add: read_path_def read_paths_def)
    moreover have "reads_path buf (store_place s j) keys v" if r: "read_path s doc j keys = Ok (Some v)"
    proof (cases "skip_fields buf (store_place s j) 0")
      case pos: (Ok pos)
      obtain w u where w: "decode_path_into buf pos keys VNull = (w, u)" by fastforce
      show ?thesis
      proof (cases "pos < length buf")
        case True
        with r Some Ok pos w show ?thesis
          by (cases u) (simp_all add: read_path_def read_paths_def reads_path_def decode_path_def)
      next
        case False
        with r Some Ok pos show ?thesis by (simp add: read_path_def read_paths_def reads_path_def)
      qed
    qed (use r Some Ok in \<open>simp_all add: read_path_def read_paths_def\<close>)
    ultimately show ?thesis using Some Ok by auto
  qed (use Some in \<open>simp_all add: read_path_def read_paths_def\<close>)
qed (simp add: read_path_def read_paths_def)

section \<open>What a stored document reads as\<close>

lemma skip_nulls:
  assumes "length buf < 2 ^ 63" "at_pos buf pos (replicate n tag_null)"
  shows "skip_fields buf n pos = Ok (pos + n)"
  using assms(2)
proof (induction n arbitrary: pos)
  case 0
  then show ?case by simp
next
  case (Suc n)
  then have "at_pos buf pos (encode_value VNull)" "at_pos buf (Suc pos) (replicate n tag_null)"
    by (auto simp: at_simps dest: at_pos_le)
  with decode_encode_value [OF assms(1), of VNull pos] Suc.IH [of "Suc pos"] show ?case
    by (simp add: skip_fields.simps(2) skip_field_decode)
qed

definition field_val :: "schema \<Rightarrow> document \<Rightarrow> nat \<Rightarrow> val" where
  "field_val sch d j = or_null (doc_get d (f_name (s_fields sch ! j)))"

definition field_bytes :: "document \<Rightarrow> field \<Rightarrow> bytes" where
  "field_bytes d f = encode_value_as (or_null (doc_get d (f_name f))) (Some (f_ty f))"

lemma encode_fields_at:
  assumes "wf_doc d" "sorted_wrt (<) (dropped_places s)" "length buf < 2 ^ 63"
    "buf = pre @ encode_fields s d i at fs" "at \<le> schema_place s i" "j < length fs"
  shows "\<exists>p. skip_fields buf (schema_place s (i + j) - at) (length pre) = Ok p \<and> at_pos buf p (field_bytes d (fs ! j))"
  using assms(4-6)
proof (induction fs arbitrary: pre i at j)
  case Nil
  then show ?case by simp
next
  case (Cons f fs)
  let ?w = "schema_place s i"
  let ?n = "replicate (?w - at) tag_null" and ?e = "field_bytes d f"
  have m: "max at ?w = ?w" using Cons.prems(2) by simp
  have buf: "buf = (pre @ ?n @ ?e) @ encode_fields s d (i + 1) (?w + 1) fs"
    using Cons.prems(1) m by (simp add: Let_def field_bytes_def)
  have n: "at_pos buf (length pre) ?n" using buf at_pos_whole [of pre ?n] by simp
  have e: "at_pos buf (length pre + (?w - at)) ?e"
    using buf at_pos_whole [of "pre @ ?n" ?e] by simp
  note skipped = skip_nulls [OF assms(3) n]
  show ?case
  proof (cases j)
    case 0
    with skipped e show ?thesis by simp
  next
    case (Suc k)
    have le: "?w + 1 \<le> schema_place s (i + 1)" "?w + 1 \<le> schema_place s (i + j)"
      using place_mono [OF assms(2), of i "i + 1"] place_mono [OF assms(2), of i "i + j"] Suc
      by (auto simp: schema_place_def)
    have "decode_value buf (length pre + (?w - at))
        = Ok (stored_as (or_null (doc_get d (f_name f))) (Some (f_ty f)), length (pre @ ?n @ ?e))"
      using decode_encode_value_as [OF assms(3) wf_doc_get [OF assms(1)] e [unfolded field_bytes_def]]
      by (simp add: field_bytes_def add.assoc)
    then have "skip_fields buf ((?w - at) + 1) (length pre) = Ok (length (pre @ ?n @ ?e))"
      using skipped by (simp only: skip_fields_add)
        (simp add: skip_fields.simps(2) skip_field_decode)
    moreover have "schema_place s (i + j) - at = ((?w - at) + 1) + (schema_place s (i + 1 + k) - (?w + 1))"
      using le(2) Cons.prems(2) Suc by simp
    ultimately show ?thesis
      using Cons.IH [OF buf le(1), of k] Cons.prems(3) Suc by (simp only: skip_fields_add) simp
  qed
qed

text \<open>The store holds the document \<open>d\<close>, as this schema encodes it.\<close>

definition stores :: "store \<Rightarrow> schema \<Rightarrow> nat \<Rightarrow> document \<Rightarrow> bool" where
  "stores s sch doc d \<longleftrightarrow>
     store_map s doc = Some (encode_doc sch d) \<and> dropped s = dropped_places sch
     \<and> sorted_wrt (<) (dropped_places sch) \<and> wf_doc d \<and> length (encode_doc sch d) < 2 ^ 63"

lemma stores_field:
  assumes "stores s sch doc d" "j < length (s_fields sch)"
  obtains l p where "ix_get (index s) doc = Some l" "payload s l = Ok (encode_doc sch d)"
    "skip_fields (encode_doc sch d) (store_place s j) 0 = Ok p"
    "at_pos (encode_doc sch d) p (field_bytes d (s_fields sch ! j))"
proof -
  obtain l where "ix_get (index s) doc = Some l" "payload s l = Ok (encode_doc sch d)"
    using assms(1) by (auto simp: stores_def store_map_Some_iff)
  moreover have "\<exists>p. skip_fields (encode_doc sch d) (store_place s j) 0 = Ok p
      \<and> at_pos (encode_doc sch d) p (field_bytes d (s_fields sch ! j))"
    using encode_fields_at [of d sch "encode_doc sch d" "[]" 0 0 "s_fields sch" j] assms
    by (simp add: stores_def encode_doc_def store_place_eq schema_place_def)
  ultimately show thesis using that by blast
qed

lemma encode_value_as_not_Nil [simp]: "encode_value_as v ty \<noteq> []"
  by (auto simp: encode_value_as_def split: val.splits option.splits data_type.splits vec_prec.splits)

lemma stores_read_field:
  assumes "stores s sch doc d" "j < length (s_fields sch)"
  shows "read_field s doc j = Ok (Some (stored_as (field_val sch d j) (Some (f_ty (s_fields sch ! j)))))"
proof -
  obtain l p where lp: "ix_get (index s) doc = Some l" "payload s l = Ok (encode_doc sch d)"
    "skip_fields (encode_doc sch d) (store_place s j) 0 = Ok p"
    "at_pos (encode_doc sch d) p (field_bytes d (s_fields sch ! j))"
    using stores_field [OF assms] by blast
  have "wf_val (field_val sch d j)" using assms by (simp add: stores_def field_val_def wf_doc_get)
  with lp(4) assms(1) decode_encode_value_as [of "encode_doc sch d" "field_val sch d j" p]
  have "\<exists>q. decode_value (encode_doc sch d) p = Ok (stored_as (field_val sch d j) (Some (f_ty (s_fields sch ! j))), q)"
    by (auto simp: stores_def field_bytes_def field_val_def)
  moreover have "p < length (encode_doc sch d)"
    using at_pos_le [OF lp(4)] by (cases "field_bytes d (s_fields sch ! j)") (simp_all add: field_bytes_def)
  ultimately show ?thesis using lp by (auto simp: read_field_iff reads_at_def)
qed

lemma stores_read_path:
  assumes "stores s sch doc d" "j < length (s_fields sch)" "f_ty (s_fields sch ! j) = TJson"
    "objects_sorted (field_val sch d j)"
  shows "read_path s doc j keys = Ok (Some (at_path (field_val sch d j) keys))"
proof -
  obtain l p where lp: "ix_get (index s) doc = Some l" "payload s l = Ok (encode_doc sch d)"
    "skip_fields (encode_doc sch d) (store_place s j) 0 = Ok p"
    "at_pos (encode_doc sch d) p (field_bytes d (s_fields sch ! j))"
    using stores_field [OF assms(1,2)] by blast
  have wf: "wf_val (field_val sch d j)" using assms(1) by (simp add: stores_def field_val_def wf_doc_get)
  have "field_bytes d (s_fields sch ! j) = encode_value (field_val sch d j)"
    using assms(3) by (auto simp: field_bytes_def field_val_def encode_value_as_def split: val.splits)
  with lp(4) have at: "at_pos (encode_doc sch d) p (encode_value (field_val sch d j))" by simp
  then have "p < length (encode_doc sch d)"
    using at_pos_le [OF at] by (cases "encode_value (field_val sch d j)") simp_all
  with lp decode_path_at [OF at wf assms(4)] assms(1) show ?thesis
    by (auto simp: read_path_iff reads_path_def stores_def)
qed

section \<open>Vectors and points of a stored document\<close>

lemma at_pos_drop: "at_pos buf p bs \<Longrightarrow> at_pos (drop p buf) 0 bs"
  by (auto simp: at_pos_def)

lemma stores_field_at:
  assumes "stores s sch doc d" "j < length (s_fields sch)"
  obtains buf where "field_at s doc j = Ok (Some buf)" "at_pos buf 0 (field_bytes d (s_fields sch ! j))"
    "length buf < 2 ^ 63"
proof -
  obtain l p where lp: "ix_get (index s) doc = Some l" "payload s l = Ok (encode_doc sch d)"
    "skip_fields (encode_doc sch d) (store_place s j) 0 = Ok p"
    "at_pos (encode_doc sch d) p (field_bytes d (s_fields sch ! j))"
    using stores_field [OF assms] by blast
  then have "min p (length (encode_doc sch d)) = p" by (auto dest: at_pos_le)
  with lp have "field_at s doc j = Ok (Some (drop p (encode_doc sch d)))" by (simp add: field_at_def)
  moreover have "length (drop p (encode_doc sch d)) < 2 ^ 63" using assms(1) by (auto simp: stores_def intro: le_less_trans [OF diff_le_self])
  ultimately show thesis using that at_pos_drop [OF lp(4)] by blast
qed

text \<open>The first byte of a field's value tells a vector and a point from all else.\<close>

lemma field_tag:
  "hd (encode_value_as v ty) = tag_vector_f16 \<longleftrightarrow> (\<exists>xs dim. v = VVector xs \<and> ty = Some (TVector dim F16))"
  "hd (encode_value_as v ty) = tag_vector \<longleftrightarrow> (\<exists>xs. v = VVector xs \<and> \<not> (\<exists>dim. ty = Some (TVector dim F16)))"
  "hd (encode_value_as v ty) = tag_geo \<longleftrightarrow> (\<exists>p q. v = VList p \<and> ty = Some TGeo \<and> as_point p = Some q)"
  by (auto simp: encode_value_as_def tag_defs
      split: val.splits option.splits data_type.splits vec_prec.splits)

lemma get_byte_field: "at_pos buf 0 (encode_value_as v ty) \<Longrightarrow> get_byte buf 0 = Some (hd (encode_value_as v ty))"
  by (cases "encode_value_as v ty") (simp_all add: at_pos_Cons)

lemma vector_at:
  assumes "length buf < 2 ^ 63" "length xs * 4 < 2 ^ 63" "at_pos buf 1 (put_len xs @ body)"
    "length body = length xs * k" "k \<le> 4"
  shows "get_usize buf 1 = Ok (length xs, 1 + length (put_len xs))
     \<and> usize_add (1 + length (put_len xs)) (usize_mul (length xs) k) = 1 + length (put_len xs) + length body
     \<and> 1 + length (put_len xs) + length body \<le> length buf
     \<and> with_capacity (length xs) 4 = Ok ()
     \<and> get_range buf (1 + length (put_len xs)) (1 + length (put_len xs) + length body) = Some body"
proof -
  have k: "length xs * k \<le> length xs * 4" using assms(5) by simp
  have "usize_mul (length xs) k = length body"
    using le_less_trans [OF k assms(2)] assms(4) by (simp add: usize_mul_def)
  moreover have le: "1 + length (put_len xs) + length body \<le> length buf" using at_pos_le [OF assms(3)] by simp
  then have "usize_add (1 + length (put_len xs)) (length body) = 1 + length (put_len xs) + length body"
    using assms(1) by (intro usize_add_small) simp
  moreover have "at_pos buf (1 + length (put_len xs)) body" using assms(3) by (simp add: at_simps)
  from at_pos_range [OF this refl]
  have "get_range buf (1 + length (put_len xs)) (1 + length (put_len xs) + length body) = Some body" .
  moreover have "get_usize buf 1 = Ok (length xs, 1 + length (put_len xs))"
    using assms(2,3) get_usize_put_len [of buf 1 xs] by (simp add: at_simps)
  ultimately show ?thesis using assms(2) le by (simp add: with_capacity_def isize_max_def)
qed

lemma stores_read_vector:
  assumes "stores s sch doc d" "j < length (s_fields sch)" "field_val sch d j = VVector xs"
  shows "read_vector_into s doc j out =
     (case f_ty (s_fields sch ! j) of
        TVector dim F16 \<Rightarrow> map (\<lambda>f. half (f16_from_f32 f)) xs
      | _ \<Rightarrow> xs, Ok True)"
proof -
  let ?ty = "f_ty (s_fields sch ! j)"
  obtain buf where buf: "field_at s doc j = Ok (Some buf)" "at_pos buf 0 (field_bytes d (s_fields sch ! j))"
    "length buf < 2 ^ 63" using stores_field_at [OF assms(1,2)] by blast
  have fb: "field_bytes d (s_fields sch ! j) = encode_value_as (VVector xs) (Some ?ty)"
    using assms(3) by (simp add: field_bytes_def field_val_def)
  have "wf_val (VVector xs)" using assms(1,3) wf_doc_get by (metis stores_def field_val_def)
  then have n: "length xs * 4 < 2 ^ 63" by simp
  show ?thesis
  proof (cases "\<exists>dim. ?ty = TVector dim F16")
    case True
    let ?body = "concat (map (\<lambda>f. le_bytes 2 (f16_from_f32 f)) xs)"
    from True have e: "field_bytes d (s_fields sch ! j) = tag_vector_f16 # put_len xs @ ?body"
      using fb by (auto simp: encode_value_as_def)
    then have b: "get_byte buf 0 = Some tag_vector_f16" "at_pos buf 1 (put_len xs @ ?body)"
      using buf(2) by (simp_all add: at_pos_Cons)
    have "chunks 2 ?body = map (\<lambda>f. le_bytes 2 (f16_from_f32 f)) xs" by (rule chunks_concat) auto
    with b vector_at [OF buf(3) n b(2), of 2] buf(1) True show ?thesis
      by (auto simp: read_vector_into_def Let_def o_def tag_defs)
  next
    case False
    let ?body = "concat (map (le_bytes 4) xs)"
    from False have e: "field_bytes d (s_fields sch ! j) = tag_vector # put_len xs @ ?body"
      using fb by (auto simp: encode_value_as_def split: data_type.splits vec_prec.splits)
    then have b: "get_byte buf 0 = Some tag_vector" "at_pos buf 1 (put_len xs @ ?body)"
      using buf(2) by (simp_all add: at_pos_Cons)
    have "chunks 4 ?body = map (le_bytes 4) xs" by (rule chunks_concat) auto
    with b vector_at [OF buf(3) n b(2), of 4] buf(1) have "read_vector_into s doc j out = (xs, Ok True)"
      by (simp add: read_vector_into_def Let_def o_def tag_defs)
    with False show ?thesis by (auto split: data_type.splits vec_prec.splits)
  qed
qed

lemma stores_has_vector:
  assumes "stores s sch doc d" "j < length (s_fields sch)"
  shows "has_vector s doc j = Ok (\<exists>xs. field_val sch d j = VVector xs)"
    "\<not> (\<exists>xs. field_val sch d j = VVector xs) \<Longrightarrow> read_vector_into s doc j out = (out, Ok False)"
proof -
  obtain buf where buf: "field_at s doc j = Ok (Some buf)" "at_pos buf 0 (field_bytes d (s_fields sch ! j))"
    using stores_field_at [OF assms] by blast
  have "get_byte buf 0 = Some (hd (encode_value_as (field_val sch d j) (Some (f_ty (s_fields sch ! j)))))"
    using get_byte_field buf(2) by (simp add: field_bytes_def field_val_def)
  then have "(get_byte buf 0 = Some tag_vector \<or> get_byte buf 0 = Some tag_vector_f16) \<longleftrightarrow> (\<exists>xs. field_val sch d j = VVector xs)"
    using field_tag(1,2) [of "field_val sch d j" "Some (f_ty (s_fields sch ! j))"] by auto
  with buf(1) show "has_vector s doc j = Ok (\<exists>xs. field_val sch d j = VVector xs)"
    "\<not> (\<exists>xs. field_val sch d j = VVector xs) \<Longrightarrow> read_vector_into s doc j out = (out, Ok False)"
    by (simp_all add: has_vector_def read_vector_into_def)
qed

lemma stores_read_point:
  assumes "stores s sch doc d" "j < length (s_fields sch)"
  shows "read_point s doc j = Ok (case (field_val sch d j, f_ty (s_fields sch ! j)) of
     (VList p, TGeo) \<Rightarrow> as_point p | _ \<Rightarrow> None)"
proof -
  let ?v = "field_val sch d j" and ?ty = "f_ty (s_fields sch ! j)"
  obtain buf where buf: "field_at s doc j = Ok (Some buf)" "at_pos buf 0 (field_bytes d (s_fields sch ! j))"
    using stores_field_at [OF assms] by blast
  have at: "at_pos buf 0 (encode_value_as ?v (Some ?ty))" using buf(2) by (simp add: field_bytes_def field_val_def)
  have tag: "get_byte buf 0 = Some tag_geo \<longleftrightarrow> (\<exists>p q. ?v = VList p \<and> ?ty = TGeo \<and> as_point p = Some q)"
    using get_byte_field [OF at] field_tag(3) [of ?v "Some ?ty"] by simp
  have none: "as_point p = None \<longleftrightarrow> \<not> (\<exists>q. as_point p = Some q)" for p by (cases "as_point p") auto
  show ?thesis
  proof (cases "get_byte buf 0 = Some tag_geo")
    case True
    then obtain p lon lat where v: "?v = VList p" "?ty = TGeo" "as_point p = Some (lon, lat)" using tag by auto
    then have "at_pos buf 1 (le_bytes 8 lon @ le_bytes 8 lat)"
      using at by (simp add: encode_value_as_def at_pos_Cons)
    from at_pos_range [OF this] have "get_range buf 1 17 = Some (le_bytes 8 lon @ le_bytes 8 lat)" by simp
    with True v buf(1) show ?thesis by (simp add: read_point_def)
  next
    case False
    with tag have "(case (?v, ?ty) of (VList p, TGeo) \<Rightarrow> as_point p | _ \<Rightarrow> None) = None"
      by (auto simp: none split: val.splits data_type.splits)
    with False buf(1) show ?thesis by (simp add: read_point_def)
  qed
qed

section \<open>A snapshot\<close>

text \<open>The file may have grown under the snapshot: what it had is still where it was.\<close>

definition file_grown :: "bytes \<Rightarrow> snapshot \<Rightarrow> snapshot" where
  "file_grown bs sn = sn\<lparr>snap_base := map_option (\<lambda>file. file @ bs) (snap_base sn)\<rparr>"

definition snap_reads :: "snapshot \<Rightarrow> bytes \<Rightarrow> nat \<times> snap_place \<Rightarrow> bytes option \<Rightarrow> bool" where
  "snap_reads sn extra d b \<longleftrightarrow> snap_payload (file_grown extra sn) (snd d) = Ok b"

lemma snap_reads_more:
  assumes "snap_reads sn extra d b" "snap_base sn' = snap_base sn" "held sn' = held sn @ p"
  shows "snap_reads sn' extra d b"
proof (cases "snd d")
  case (Held a n)
  with assms obtain bs where bs: "get_range (held sn) a (a + unat n) = Some bs" "b = Some bs"
    by (auto simp: snap_reads_def snap_payload_def file_grown_def split: option.splits)
  then have "get_range (held sn @ p) a (a + unat n) = Some bs" by (auto intro: get_range_prefix [rotated])
  with Held bs(2) assms(3) show ?thesis by (simp add: snap_reads_def snap_payload_def file_grown_def)
qed (use assms in \<open>simp_all add: snap_reads_def snap_payload_def file_grown_def\<close>)

lemma snapshot_loop_reads:
  assumes "store_inv s" "snap_base sn = map_option fst (base s)"
    "list_all2 (\<lambda>d i. fst d = i \<and> snap_reads sn extra d (store_map s i)) (docs sn) done"
  shows "\<exists>sn'. snapshot_loop s ids sn = (sn', Ok ()) \<and> snap_base sn' = map_option fst (base s)
     \<and> list_all2 (\<lambda>d i. fst d = i \<and> snap_reads sn' extra d (store_map s i)) (docs sn') (done @ ids)"
  using assms(2,3)
proof (induction ids arbitrary: sn "done")
  case Nil
  then show ?case by simp
next
  case (Cons i ids)
  have step: ?case if "snapshot_loop s (i # ids) sn = snapshot_loop s ids sn'" "snap_base sn' = snap_base sn"
    "docs sn' = docs sn @ [(i, p)]" "snap_reads sn' extra (i, p) (store_map s i)"
    "\<exists>b. held sn' = held sn @ b" for sn' p
  proof -
    have "list_all2 (\<lambda>d i. fst d = i \<and> snap_reads sn' extra d (store_map s i)) (docs sn) done"
    proof (rule list_all2_mono [OF Cons.prems(2)])
      fix d k
      assume "fst d = k \<and> snap_reads sn extra d (store_map s k)"
      with that(2,5) snap_reads_more show "fst d = k \<and> snap_reads sn' extra d (store_map s k)" by metis
    qed
    with that(3,4) have "list_all2 (\<lambda>d i. fst d = i \<and> snap_reads sn' extra d (store_map s i)) (docs sn') (done @ [i])"
      by (simp add: list_all2_appendI)
    from Cons.IH [OF _ this] that(1,2) Cons.prems(1) show ?thesis by simp
  qed
  show ?case
  proof (cases "ix_get (index s) i")
    case None
    then show ?thesis
      by (intro step [of "sn\<lparr>docs := docs sn @ [(i, Gone)]\<rparr>" Gone])
        (simp_all add: snap_reads_def snap_payload_def store_map_def)
  next
    case (Some l)
    then obtain p where p: "payload s l = Ok p" using assms(1) by (auto simp: store_inv_def is_ok_iff)
    then have sm: "store_map s i = Some p" using Some by (simp add: store_map_def)
    show ?thesis
    proof (cases "is_mapped_loc l \<and> snap_base sn \<noteq> None")
      case True
      then obtain fl st where f: "base s = Some (fl, st)" "snap_base sn = Some fl" using Cons.prems(1) by auto
      with p True have "get_range fl (mapped_at l) (mapped_at l + unat (plen l)) = Some p"
        by (simp add: payload_file result_simps)
      then have "get_range (fl @ extra) (mapped_at l) (mapped_at l + unat (plen l)) = Some p"
        by (rule get_range_prefix [rotated]) simp
      with True Some f sm show ?thesis
        by (intro step [of "sn\<lparr>docs := docs sn @ [(i, File (mapped_at l) (plen l))]\<rparr>" "File (mapped_at l) (plen l)"])
          (simp_all add: snap_reads_def snap_payload_def file_grown_def)
    next
      case False
      have "get_range (held sn @ p) (length (held sn)) (length (held sn) + unat (plen l)) = Some p"
        using payload_length [OF p] by (simp add: get_range_def)
      with False Some p sm show ?thesis
        by (intro step [of "sn\<lparr>held := held sn @ p, docs := docs sn @ [(i, Held (length (held sn)) (plen l))]\<rparr>"
              "Held (length (held sn)) (plen l)"])
          (auto simp: snap_reads_def snap_payload_def file_grown_def)
    qed
  qed
qed

text \<open>The caller that keeps what it is handed.\<close>

definition keep_doc :: "(nat \<times> bytes option) list \<Rightarrow> nat \<Rightarrow> bytes option \<Rightarrow> (nat \<times> bytes option) list \<times> unit result" where
  "keep_doc st doc b = (st @ [(doc, b)], Ok ())"

lemma each_loop_keeps:
  "list_all2 (\<lambda>d i. fst d = i \<and> snap_payload sn (snd d) = Ok (m i)) ds ids
     \<Longrightarrow> each_loop sn keep_doc st ds = (st @ map (\<lambda>i. (i, m i)) ids, Ok ())"
  by (induction ds ids arbitrary: st rule: list_all2_induct) (auto simp: keep_doc_def)

lemma snapshot_each:
  assumes "store_inv s"
  shows "\<exists>sn. take_snapshot s ids = (sn, Ok ())
     \<and> snap_each (file_grown extra sn) keep_doc [] = (map (\<lambda>i. (i, store_map s i)) ids, Ok ())"
proof -
  let ?sn = "\<lparr>snap_base = map_option fst (base s), held = [], docs = []\<rparr>"
  obtain sn where sn: "snapshot_loop s ids ?sn = (sn, Ok ())"
    "list_all2 (\<lambda>d i. fst d = i \<and> snap_reads sn extra d (store_map s i)) (docs sn) ids"
    using snapshot_loop_reads [OF assms, of ?sn extra "[]" ids] by auto
  have "docs (file_grown extra sn) = docs sn" by (simp add: file_grown_def)
  with sn each_loop_keeps [of "file_grown extra sn" "store_map s" "docs sn" ids "[]"] show ?thesis
    by (simp add: take_snapshot_def snap_each_def snap_reads_def)
qed

section \<open>Properties\<close>

definition read_schema :: schema where
  "read_schema = \<lparr>s_fields = [\<lparr>f_name = [0x61], f_ty = TVector 2 F16\<rparr>, \<lparr>f_name = [0x62], f_ty = TJson\<rparr>,
       \<lparr>f_name = [0x63], f_ty = TGeo\<rparr>], dropped_places = [1]\<rparr>"

definition read_demo :: document where
  "read_demo = \<lparr>doc_id = 5, doc_fields = [([0x61], VVector [0x3f800000, 0xbf800000]),
       ([0x62], VObject [([0x6b], VInt 7)]), ([0x63], VList [VFloat 1, VFloat 2])]\<rparr>"

definition read_store :: store where
  "read_store = fst (append op_put 5 (encode_doc read_schema read_demo) (set_dropped [1] store_new))"

lemma demo_halves:
  "f16_from_f32 0x3f800000 = 0x3c00" "f16_from_f32 0xbf800000 = 0xbc00"
  "f32_from_f16 0x3c00 = 0x3f800000" "f32_from_f16 0xbc00 = 0xbf800000"
  by (simp_all add: f16_from_f32_def f32_from_f16_def round_up_def Let_def)

lemma read_bytes: "encode_doc read_schema read_demo =
    [8, 2, 0, 60, 0, 188, 0, 13, 1, 1, 107, 2, 14, 15, 1, 0, 0, 0, 0, 0, 0, 0, 2, 0, 0, 0, 0, 0, 0, 0]"
  by code_simp

lemma read_store_logs: "logs read_store [(op_put, 5, encode_doc read_schema read_demo)]"
proof -
  have "logs (set_dropped [1] store_new) []"
    using fresh_logs [of 1 "[1]"] by (simp add: set_dropped_def store_new_def)
  then show ?thesis
    using append_logs [of "set_dropped [1] store_new" "[]" op_put 5 "encode_doc read_schema read_demo"]
    by (simp add: read_store_def read_bytes)
qed

lemma read_store_dropped: "dropped read_store = [1]"
  by (simp add: read_store_def append_def land_frame_def Let_def extend_last_def active_def set_dropped_def)

lemma read_store_holds: "store_map read_store 5 = Some (encode_doc read_schema read_demo)"
  using read_store_logs by (simp add: logs_def op_put_def op_del_def)

lemma read_store_inv: "stores read_store read_schema 5 read_demo"
proof -
  have "dropped read_store = dropped_places read_schema" "length (encode_doc read_schema read_demo) < 2 ^ 63"
    by (simp_all add: read_store_dropped read_bytes) (simp add: read_schema_def)
  moreover have "wf_doc read_demo" by (simp add: wf_doc_def read_demo_def)
  ultimately show ?thesis using read_store_holds by (simp add: stores_def) (simp add: read_schema_def)
qed

text \<open>
  C20: each field of a stored document reads as it was written, a half-precision vector as its
  halves widened: by \<open>read_field\<close> past the dropped places, whether there is a vector by its tag
  alone, the vector's elements and the point's coordinates straight from the bytes.
\<close>

theorem stored_fields_read:
  assumes "stores s sch doc d" "j < length (s_fields sch)"
  shows "read_field s doc j = Ok (Some (stored_as (field_val sch d j) (Some (f_ty (s_fields sch ! j)))))
     \<and> has_vector s doc j = Ok (case field_val sch d j of VVector xs \<Rightarrow> True | _ \<Rightarrow> False)
     \<and> read_vector_into s doc j out =
         (case field_val sch d j of
            VVector xs \<Rightarrow>
              (case f_ty (s_fields sch ! j) of
                 TVector dim F16 \<Rightarrow> map (\<lambda>f. half (f16_from_f32 f)) xs
               | _ \<Rightarrow> xs, Ok True)
          | _ \<Rightarrow> (out, Ok False))
     \<and> read_point s doc j = Ok (case (field_val sch d j, f_ty (s_fields sch ! j)) of
         (VList p, TGeo) \<Rightarrow> as_point p | _ \<Rightarrow> None)"
proof (intro conjI)
  show "has_vector s doc j = Ok (case field_val sch d j of VVector xs \<Rightarrow> True | _ \<Rightarrow> False)"
    using stores_has_vector(1) [OF assms] by (simp split: val.splits)
  show "read_vector_into s doc j out = (case field_val sch d j of
      VVector xs \<Rightarrow> (case f_ty (s_fields sch ! j) of
          TVector dim F16 \<Rightarrow> map (\<lambda>f. half (f16_from_f32 f)) xs | _ \<Rightarrow> xs, Ok True)
    | _ \<Rightarrow> (out, Ok False))"
    using stores_read_vector [OF assms] stores_has_vector(2) [OF assms]
    by (cases "field_val sch d j") simp_all
qed (rule stores_read_field [OF assms] stores_read_point [OF assms])+

theorem stored_fields_read_witness:
  "read_field read_store 5 0 = Ok (Some (stored_as (field_val read_schema read_demo 0) (Some (f_ty (s_fields read_schema ! 0)))))
     \<and> has_vector read_store 5 0 = Ok (case field_val read_schema read_demo 0 of VVector xs \<Rightarrow> True | _ \<Rightarrow> False)
     \<and> read_vector_into read_store 5 0 [9] =
         (case field_val read_schema read_demo 0 of
            VVector xs \<Rightarrow>
              (case f_ty (s_fields read_schema ! 0) of
                 TVector dim F16 \<Rightarrow> map (\<lambda>f. half (f16_from_f32 f)) xs
               | _ \<Rightarrow> xs, Ok True)
          | _ \<Rightarrow> ([9], Ok False))
     \<and> read_point read_store 5 0 = Ok (case (field_val read_schema read_demo 0, f_ty (s_fields read_schema ! 0)) of
         (VList p, TGeo) \<Rightarrow> as_point p | _ \<Rightarrow> None)"
  by (rule stored_fields_read [OF read_store_inv]) (simp add: read_schema_def)

text \<open>
  A path into a stored json field is the path into its value, the payload before and around
  it skipped and none of it decoded.
\<close>

theorem stored_path_read:
  assumes "stores s sch doc d" "j < length (s_fields sch)" "f_ty (s_fields sch ! j) = TJson"
    "objects_sorted (field_val sch d j)"
  shows "read_path s doc j keys = Ok (Some (at_path (field_val sch d j) keys))"
  by (rule stores_read_path [OF assms])

theorem stored_path_read_witness:
  "read_path read_store 5 1 [0x6b] = Ok (Some (at_path (field_val read_schema read_demo 1) [0x6b]))"
  by (rule stored_path_read [OF read_store_inv])
    (simp_all add: read_schema_def read_demo_def field_val_def or_null_def doc_get_def keys_ascend_def)

text \<open>
  C21: the readers of many fields and of many paths in one pass over a payload leave in the
  caller's slots what a read of each on its own would give, whatever the slots held, and the
  slots past them alone -- the fields in ascending order, the paths in any.
\<close>

theorem batch_reads_agree:
  assumes "sorted_wrt (<) (dropped s)" "sorted_wrt (<) js" "js \<noteq> []" "ps \<noteq> []"
    and "list_all2 (\<lambda>j v. read_field s doc j = Ok (Some v)) js vs"
    and "list_all2 (\<lambda>p v. read_path s doc (fst p) (snd p) = Ok (Some v)) ps ws" "length ps \<le> length out"
  shows "read_fields s doc (map (store_place s) js) room = (vs @ drop (length js) room, Ok True)
     \<and> read_paths s doc ps out = (ws @ drop (length ps) out, Ok True)"
proof -
  obtain j js' where "js = j # js'" using assms(3) by (cases js) auto
  then obtain v where "read_field s doc j = Ok (Some v)" using assms(5) by (auto simp: list_all2_Cons1)
  then obtain l buf where l: "ix_get (index s) doc = Some l" "payload s l = Ok buf"
    by (auto simp: read_field_iff)
  have "list_all2 (\<lambda>j. reads_at buf (store_place s j)) js vs"
    by (rule list_all2_mono [OF assms(5)]) (simp add: read_field_iff l)
  then have "list_all2 (reads_at buf) (map (store_place s) js) vs" by (simp add: list_all2_map1)
  moreover have "sorted_wrt (<) (map (store_place s) js)"
    unfolding sorted_wrt_map store_place_eq
    by (rule sorted_wrt_mono_rel [OF _ assms(2)]) (rule place_mono [OF assms(1)])
  ultimately have "read_fields_from buf 0 0 0 (map (store_place s) js) room = (vs @ drop (length js) room, Ok ())"
    using read_fields_from_at [of buf "map (store_place s) js" vs 0 0 0 "[]" room] by simp
  moreover have "list_all2 (\<lambda>p v. reads_path buf (store_place s (fst p)) (snd p) v) ps ws"
    by (rule list_all2_mono [OF assms(6)]) (simp add: read_path_iff l)
  then have "read_paths_from s buf 0 0 ps out = (ws @ drop (length ps) out, Ok ())"
    using assms(7) by (intro read_paths_from_at) simp_all
  ultimately show ?thesis using l by (simp add: read_fields_def read_paths_def)
qed

theorem batch_reads_agree_witness:
  "read_fields read_store 5 (map (store_place read_store) [0, 2]) [VText [], VList [VNull, VNull], VBool True]
     = ([VVector [0x3f800000, 0xbf800000], VList [VFloat 1, VFloat 2]]
         @ drop (length [0 :: nat, 2]) [VText [], VList [VNull, VNull], VBool True], Ok True)
   \<and> read_paths read_store 5 [(1, [0x6b]), (1, [0x6c])] [VNull, VText []]
     = ([VInt 7, VNull] @ drop (length [(1 :: nat, [0x6b :: u8]), (1, [0x6c])]) [VNull, VText []], Ok True)"
proof (rule batch_reads_agree)
  show "sorted_wrt (<) (dropped read_store)" by (simp add: read_store_dropped)
  have v: "stored_as (field_val read_schema read_demo 0) (Some (f_ty (s_fields read_schema ! 0))) = VVector [0x3f800000, 0xbf800000]"
    "stored_as (field_val read_schema read_demo 2) (Some (f_ty (s_fields read_schema ! 2))) = VList [VFloat 1, VFloat 2]"
    by (simp_all add: stored_as_def field_val_def or_null_def doc_get_def read_schema_def read_demo_def demo_halves)
  show "list_all2 (\<lambda>j v. read_field read_store 5 j = Ok (Some v)) [0, 2] [VVector [0x3f800000, 0xbf800000], VList [VFloat 1, VFloat 2]]"
    using stores_read_field [OF read_store_inv, of 0] stores_read_field [OF read_store_inv, of 2] v
    by (simp add: read_schema_def)
  have "at_path (field_val read_schema read_demo 1) [0x6b] = VInt 7" "at_path (field_val read_schema read_demo 1) [0x6c] = VNull"
    "objects_sorted (field_val read_schema read_demo 1)"
    by code_simp+
  then show "list_all2 (\<lambda>p v. read_path read_store 5 (fst p) (snd p) = Ok (Some v)) [(1, [0x6b]), (1, [0x6c])] [VInt 7, VNull]"
    using stores_read_path [OF read_store_inv, of 1] by (simp add: read_schema_def)
qed simp_all

text \<open>
  C22: a snapshot hands out, once the lock is let go and however much the file has grown by
  then, exactly what the store held for each id asked for, in the order asked.
\<close>

theorem snapshot_is_store:
  assumes "store_inv s" "take_snapshot s ids = (sn, r)"
  shows "r = Ok () \<and> snap_each (file_grown extra sn) keep_doc [] = (map (\<lambda>i. (i, store_map s i)) ids, Ok ())"
  using snapshot_each [OF assms(1), of ids extra] assms(2) by auto

theorem snapshot_is_store_witness:
  "Ok () = Ok () \<and> snap_each (file_grown [1] (fst (take_snapshot read_store [5, 6]))) keep_doc []
     = (map (\<lambda>i. (i, store_map read_store i)) [5, 6], Ok ())"
proof (rule snapshot_is_store)
  show inv: "store_inv read_store" using read_store_logs by (simp add: logs_def)
  show "take_snapshot read_store [5, 6] = (fst (take_snapshot read_store [5, 6]), Ok ())"
    using snapshot_each [OF inv, of "[5, 6]" "[]"] by auto
qed

end
