(* ===== verification/Fenec_Image_Index.thy ===== *)
theory Fenec_Image_Index
  imports Fenec_Store_Compact
begin

unbundle bit_operations_syntax

text \<open>
  The index an image carries of its data record (\<open>image_index\<close>, \<open>adopt_index\<close> and the readers
  between them in \<open>fenec-core/src/store.rs\<close>): each live document's id less the one before, its
  payload's length, and where the payload is less where it would be if its frame followed the
  one before. An open takes the locations from it rather than walk the frames' heads, a share of
  the documents on each core where it can. A share's part of the dense array is the list of its
  slots; the shares are independent of each other, so their order on the cores does not show.
\<close>

section \<open>Entries\<close>

definition frames_mark :: u8 where "frames_mark = 1"
definition frames_split :: u8 where "frames_split = 2"

definition index_share :: nat where "index_share = 16384"

definition div_ceil :: "nat \<Rightarrow> nat \<Rightarrow> nat" where
  "div_ceil a b = (a + b - 1) div b"

definition varint_len :: "u64 \<Rightarrow> nat" where
  "varint_len v = div_ceil (64 - leading_zeros (v OR 1)) 7"

definition after :: "nat \<Rightarrow> nat \<Rightarrow> nat \<Rightarrow> nat" where
  "after e doc n = (e + 1 + varint_len (word_of_nat doc) + varint_len (word_of_nat n)) mod 2 ^ 64"

text \<open>A varint with its first byte read in line.\<close>

definition uvarint :: "bytes \<Rightarrow> usize \<Rightarrow> (u64 \<times> usize) option" where
  "uvarint bs p =
     (case get_byte bs p of
        Some b \<Rightarrow> (if b < 0x80 then Some (ucast b, p + 1) else ok_opt (get_uvarint bs p))
      | None \<Rightarrow> ok_opt (get_uvarint bs p))"

definition i64_checked_add :: "i64 \<Rightarrow> i64 \<Rightarrow> i64 option" where
  "i64_checked_add a b =
     (if - (2 ^ 63) \<le> sint a + sint b \<and> sint a + sint b < 2 ^ 63 then Some (a + b) else None)"

definition u64_checked_add :: "nat \<Rightarrow> nat \<Rightarrow> nat option" where
  "u64_checked_add a b = (if a + b < 2 ^ 64 then Some (a + b) else None)"

text \<open>The next entry: its payload's place and length, and the position, id and end it moves on to.\<close>

definition index_entry :: "bytes \<Rightarrow> usize \<Rightarrow> nat \<Rightarrow> nat \<Rightarrow> nat \<Rightarrow> (nat \<times> nat \<times> usize \<times> nat \<times> nat) option" where
  "index_entry ds p doc e len =
     Option.bind (uvarint ds p) (\<lambda>(step, p).
     Option.bind (uvarint ds p) (\<lambda>(n, p).
     Option.bind (uvarint ds p) (\<lambda>(offs, p).
     Option.bind (u64_checked_add doc (unat step)) (\<lambda>doc.
       if \<not> (0 < step \<and> unat n \<le> 2 ^ 32 - 1) then None
       else Option.bind (i64_checked_add (word_of_nat (after e doc (unat n))) (unzigzag offs)) (\<lambda>pos.
         if \<not> 0 < sint pos then None
         else Option.bind (u64_checked_add (unat pos) (unat n)) (\<lambda>e.
           if len < e then None else Some (unat pos, unat n, p, doc, e)))))))"

section \<open>Adopting an index\<close>

primrec adopt_loop :: "nat \<Rightarrow> bytes \<Rightarrow> nat \<Rightarrow> nat \<Rightarrow> usize \<Rightarrow> nat \<Rightarrow> nat \<Rightarrow> id_index \<Rightarrow> (id_index \<times> usize \<times> nat) option" where
  "adopt_loop 0 ds at len p doc e fresh = Some (fresh, p, doc)"
| "adopt_loop (Suc n) ds at len p doc e fresh =
     Option.bind (index_entry ds p doc e len) (\<lambda>(pos, m, p, doc, e).
       adopt_loop n ds at len p doc e (push_above doc (mapped_loc (at + pos) (word_of_nat m)) fresh))"

definition adopt_in_turn :: "bytes \<Rightarrow> usize \<Rightarrow> nat \<Rightarrow> nat \<Rightarrow> nat \<Rightarrow> (id_index \<times> nat) option" where
  "adopt_in_turn ds p cnt at len =
     Option.bind (adopt_loop cnt ds at len p 0 0 ix_default) (\<lambda>(fresh, p, doc).
       if p = length ds then Some (fresh, doc) else None)"

text \<open>One share's documents, into its own stretch of the dense array: \<open>part\<close> is what it has filled.\<close>

primrec share_loop :: "nat \<Rightarrow> bytes \<Rightarrow> nat \<Rightarrow> nat \<Rightarrow> nat \<Rightarrow> nat \<Rightarrow> usize \<Rightarrow> nat \<Rightarrow> nat \<Rightarrow> loc list
    \<Rightarrow> (loc list \<times> usize \<times> nat \<times> nat) option" where
  "share_loop 0 ds at len first room p doc e part = Some (part, p, doc, e)"
| "share_loop (Suc n) ds at len first room p doc e part =
     Option.bind (index_entry ds p doc e len) (\<lambda>(pos, m, p, doc', e).
       if max_dense_gap < doc' - doc then None
       else let slot = doc' - first - 1 in
         if \<not> (length part \<le> slot \<and> slot < room) then None
         else share_loop n ds at len first room p doc' e
           (part @ replicate (slot - length part) loc_empty @ [mapped_loc (at + pos) (word_of_nat m)]))"

definition read_marks :: "usize \<Rightarrow> bytes \<Rightarrow> (nat \<times> nat \<times> nat) list" where
  "read_marks p ends =
     (p, 0, 0) # map (\<lambda>c. let w = map (\<lambda>b. unat (of_le_bytes b :: u64)) (chunks 8 c) in (w ! 0, w ! 1, w ! 2)) (chunks 24 ends)"

definition share :: "bytes \<Rightarrow> nat \<Rightarrow> nat \<Rightarrow> nat \<Rightarrow> (nat \<times> nat \<times> nat) list \<Rightarrow> nat \<Rightarrow> loc list option" where
  "share ds cnt at len marks i =
     (let (p, first, e) = marks ! i; (next_p, next_id, next_e) = marks ! (i + 1); room = next_id - first
      in Option.bind (share_loop (min (cnt - i * index_share) index_share) ds at len first room p first e [])
           (\<lambda>(part, p, doc, e).
             if length part = room \<and> p = next_p \<and> doc = next_id \<and> e = next_e then Some part else None))"

definition adopt_shares :: "bytes \<Rightarrow> usize \<Rightarrow> bytes \<Rightarrow> nat \<Rightarrow> nat \<Rightarrow> nat \<Rightarrow> (id_index \<times> nat) option" where
  "adopt_shares ds p ends cnt at len =
     (let marks = read_marks p ends;
          shares = length marks - 1;
          (stop, last_id, _) = marks ! shares
      in if shares \<noteq> div_ceil cnt index_share \<or> length ds div 3 < cnt \<or> stop \<noteq> length ds \<or> cnt + cnt div 4 < last_id
           \<or> (\<exists>i\<in>set [0..<shares]. fst (marks ! (i + 1)) \<le> fst (marks ! i) \<or> fst (snd (marks ! (i + 1))) \<le> fst (snd (marks ! i)))
         then None
         else let done = map (share ds cnt at len marks) [0..<shares] in
           if None \<in> set done then None
           else Some (\<lparr>dense = concat (map the done), sparse = [], sparse_floor = 0, count = cnt\<rparr>, last_id))"

text \<open>The documents' part of an index, and the shares' ends behind it where it carries them.\<close>

definition index_parts :: "bytes \<Rightarrow> (bytes \<times> bytes) option" where
  "index_parts idx =
     (if get_byte idx 0 = Some frames_mark then Some (idx, [])
      else if get_byte idx 0 = Some frames_split then
        (if length idx < 4 then None
         else let tail = length idx - 4; k = unat (of_le_bytes (drop tail idx) :: u32) in
           if tail < k * 24 then None
           else Some (take (tail - k * 24) idx, take (k * 24) (drop (tail - k * 24) idx)))
      else None)"

definition adopt_index :: "bytes \<Rightarrow> nat \<Rightarrow> nat \<Rightarrow> bytes \<Rightarrow> store \<Rightarrow> store \<times> bool" where
  "adopt_index file at len idx s =
     (if ix_len (index s) \<noteq> 0 \<or> base s \<noteq> None \<or> total_bytes s \<noteq> 0 then (s, False)
      else
        (case index_parts idx of
           None \<Rightarrow> (s, False)
         | Some (ds, ends) \<Rightarrow>
             (case Option.bind (uvarint ds 1) (\<lambda>(whole, p).
                   Option.bind (uvarint ds p) (\<lambda>(dead, p).
                   Option.bind (uvarint ds p) (\<lambda>(cnt, p).
                     if unat whole \<noteq> len \<or> len < unat dead then None
                     else
                       (let shares = (if 1 < length ends then adopt_shares ds p ends (unat cnt) at len else None)
                        in map_option (\<lambda>(fresh, last_id). (fresh, last_id, unat dead))
                             (case shares of
                                Some r \<Rightarrow> Some r
                              | None \<Rightarrow> adopt_in_turn ds p (unat cnt) at len))))) of
                None \<Rightarrow> (s, False)
              | Some (fresh, last_id, dead) \<Rightarrow>
                  (s\<lparr>index := fresh, total_bytes := len, dead_bytes := dead,
                     next_id := max (next_id s) ((last_id + 1) mod 2 ^ 64), base := Some (file, [(at, len)])\<rparr>, True))))"

section \<open>Writing an index\<close>

record index_state =
  out :: bytes
  id_was :: nat
  pos_was :: nat
  live_to :: nat
  share_ends :: "(nat \<times> nat \<times> nat) list"
  docs_written :: nat

text \<open>
  \<open>from\<close> is where the index starts in \<open>out\<close>; \<open>live\<close> places a document after the frames before
  it, its own head included, and otherwise it is where it stands in the image.
\<close>

definition index_doc :: "store \<Rightarrow> bool \<Rightarrow> nat \<Rightarrow> nat \<Rightarrow> index_state \<Rightarrow> index_state" where
  "index_doc s live start doc st =
     (case ix_get (index s) doc of
        None \<Rightarrow> st
      | Some l \<Rightarrow>
          (let n = unat (plen l);
               ends = (if 0 < docs_written st \<and> docs_written st mod index_share = 0
                       then share_ends st @ [(length (out st) - start, id_was st, pos_was st)] else share_ends st);
               (stretches, sgs, _) = image_starts s;
               pos = (if live then live_to st + length (put_head doc n) else image_place l stretches sgs);
               live_to' = (if live then pos + n else live_to st);
               expected = after (pos_was st) doc n
           in \<lparr>out = out st @ put_uvarint (word_of_nat (doc - id_was st)) @ put_uvarint (word_of_nat n)
                 @ put_uvarint (zigzag (word_of_nat pos - word_of_nat expected)),
               id_was = doc, pos_was = pos + n, live_to = live_to', share_ends = ends,
               docs_written = docs_written st + 1\<rparr>))"

definition put_mark :: "nat \<times> nat \<times> nat \<Rightarrow> bytes" where
  "put_mark = (\<lambda>(a, b, c). le_bytes 8 (word_of_nat a :: u64) @ le_bytes 8 (word_of_nat b :: u64) @ le_bytes 8 (word_of_nat c :: u64))"

definition image_index :: "store \<Rightarrow> bool \<Rightarrow> bytes \<Rightarrow> bytes" where
  "image_index s live prior =
     (let (_, _, whole) = image_starts s;
          (len, dead) = (if live then (live_len s, 0) else (whole, dead_bytes s));
          head = prior @ [frames_split] @ put_uvarint (word_of_nat len) @ put_uvarint (word_of_nat dead)
            @ put_uvarint (word_of_nat (ix_len (index s)));
          st = fold (index_doc s live (length prior)) (ix_iter (index s))
            \<lparr>out = head, id_was = 0, pos_was = 0, live_to = 0, share_ends = [], docs_written = 0\<rparr>;
          ends = share_ends st @ [(length (out st) - length prior, id_was st, pos_was st)]
      in out st @ concat (map put_mark ends) @ le_bytes 4 (word_of_nat (length ends) :: u32))"

section \<open>What an entry is\<close>

lemma varint_len: "varint_len v = length (put_uvarint v)"
proof -
  let ?b = "bit_len (unat (v OR 1))"
  have o: "unat (v OR 1) < 2 ^ (7 * Suc k) \<longleftrightarrow> unat v < 2 ^ (7 * Suc k)" for k
  proof -
    have "unat (v OR 1) = unat v OR 1" by (simp add: unsigned_or_eq)
    then have u: "unat (v OR 1) = unat v + of_bool (even (unat v))" by (simp only: or_one_eq)
    have "even (2 ^ (7 * Suc k) :: nat)" by simp
    then have "even (unat v) \<Longrightarrow> unat v + 1 \<noteq> 2 ^ (7 * Suc k)" by (metis even_plus_one_iff)
    with u show ?thesis by (auto simp del: power_Suc mult_Suc_right)
  qed
  have vl: "varint_len v = (?b + 6) div 7"
    using bit_len_le_iff [of "unat (v OR 1)" 64] by (simp add: varint_len_def div_ceil_def leading_zeros_def)
  have "varint_len v \<le> Suc k \<longleftrightarrow> length (put_uvarint v) \<le> Suc k" for k
  proof -
    have "(b + 6) div 7 \<le> Suc k \<longleftrightarrow> b \<le> 7 * Suc k" for b :: nat
    proof -
      have "(b + 6) div 7 \<le> Suc k \<longleftrightarrow> b + 6 < 7 * (Suc k + 1)"
        by (subst less_Suc_eq_le [symmetric], subst div_less_iff_less_mult) (simp_all add: mult.commute)
      also have "\<dots> \<longleftrightarrow> b \<le> 7 * Suc k" by presburger
      finally show ?thesis .
    qed
    with vl bit_len_le_iff [of "unat (v OR 1)" "7 * Suc k"] o [of k] length_put_uvarint_le [of v k] show ?thesis by simp
  qed
  moreover have "1 \<le> varint_len v"
  proof -
    have "v OR 1 \<noteq> 0" by (metis bit_1_0 bit_or_iff bit_0_eq bot_apply bot_bool_def)
    then have "?b \<noteq> 0" by (simp add: bit_len.simps unat_eq_0)
    with vl show ?thesis by simp
  qed
  moreover have "1 \<le> length (put_uvarint v)" using length_put_uvarint by simp
  ultimately show ?thesis by (metis le_antisym Suc_le_D One_nat_def order_refl)
qed

lemma after_head: "after e doc n = (e + length (put_head doc n)) mod 2 ^ 64"
  by (simp add: after_def varint_len put_head_def add.assoc)

lemma uvarint_get: "uvarint bs p = ok_opt (get_uvarint bs p)"
proof (cases "get_byte bs p")
  case (Some b)
  show ?thesis
  proof (cases "b < 0x80")
    case True
    let ?v = "ucast b :: u64"
    have u: "unat ?v = unat b" using unsigned_less [of b, where 'a = nat] by (simp add: unsigned_ucast_eq take_bit_nat_eq_self_iff)
    then have v: "?v < 0x80" using True by (simp add: word_less_nat_alt)
    have "ucast ?v = b" by (intro bit_word_eqI) (simp add: bit_unsigned_iff)
    with v have "put_uvarint ?v = [b]" by (simp add: put_uvarint.simps)
    then have "at_pos bs p (put_uvarint ?v)" using Some by (simp add: at_simps get_byte_Some_iff)
    from get_put_uvarint [OF this] \<open>put_uvarint ?v = [b]\<close> Some True show ?thesis by (simp add: uvarint_def)
  next
    case False
    with Some show ?thesis by (simp add: uvarint_def)
  qed
qed (simp add: uvarint_def)

lemma uvarint_at: "at_pos bs p (put_uvarint v) \<Longrightarrow> uvarint bs p = Some (v, p + length (put_uvarint v))"
  by (simp add: uvarint_get get_put_uvarint)

section \<open>In turn and in shares\<close>

text \<open>The entries both readers read: each document's id and its payload's place and length.\<close>

primrec read_entries :: "nat \<Rightarrow> bytes \<Rightarrow> nat \<Rightarrow> usize \<Rightarrow> nat \<Rightarrow> nat \<Rightarrow> ((nat \<times> nat \<times> nat) list \<times> usize \<times> nat \<times> nat) option" where
  "read_entries 0 ds len p doc e = Some ([], p, doc, e)"
| "read_entries (Suc n) ds len p doc e =
     Option.bind (index_entry ds p doc e len) (\<lambda>(pos, m, p, doc, e).
       map_option (\<lambda>(es, r). ((doc, pos, m) # es, r)) (read_entries n ds len p doc e))"

definition entry_loc :: "nat \<Rightarrow> nat \<times> nat \<times> nat \<Rightarrow> nat \<times> loc" where
  "entry_loc at = (\<lambda>(doc, pos, m). (doc, mapped_loc (at + pos) (word_of_nat m)))"

lemma index_entry_Some:
  assumes "index_entry ds p doc e len = Some (pos, m, p', doc', e')"
  shows "doc < doc' \<and> 0 < pos \<and> pos + m \<le> len \<and> m < 2 ^ 32 \<and> e' = pos + m"
proof -
  obtain step n :: u64 and w :: i64 where *: "u64_checked_add doc (unat step) = Some doc'" "step \<noteq> 0" "unat n \<le> 2 ^ 32 - 1"
    "\<not> sint w \<le> 0" "u64_checked_add (unat w) (unat n) = Some e'" "e' \<le> len" "pos = unat w" "m = unat n"
    using assms unfolding index_entry_def bind_eq_Some_conv
    by (clarsimp simp: bind_eq_Some_conv not_less split: if_splits)
  have "0 < unat step" using *(2) by (simp add: unat_gt_0)
  moreover have "unat w \<noteq> 0" using *(4) by (auto simp: unat_eq_0)
  ultimately show ?thesis using * by (auto simp: u64_checked_add_def split: if_splits)
qed

lemma read_entries_add:
  "read_entries (a + b) ds len p doc e =
     Option.bind (read_entries a ds len p doc e) (\<lambda>(es, p, doc, e).
       map_option (\<lambda>(fs, r). (es @ fs, r)) (read_entries b ds len p doc e))"
proof (induction a arbitrary: p doc e)
  case 0
  then show ?case by (simp add: option.map_ident case_prod_unfold)
next
  case (Suc a)
  then show ?case
    by (cases "index_entry ds p doc e len")
      (auto simp: map_option_case case_prod_unfold split: option.splits)
qed

lemma read_entries_Some:
  "read_entries n ds len p doc e = Some (es, p', doc', e')
     \<Longrightarrow> sorted_wrt (<) (doc # map fst es) \<and> length es = n \<and> doc' = last (doc # map fst es)
       \<and> (\<forall>(d, pos, m)\<in>set es. 0 < pos \<and> pos + m \<le> len \<and> m < 2 ^ 32)"
proof (induction n arbitrary: p doc e es)
  case 0
  then show ?case by simp
next
  case (Suc n)
  then obtain pos m q d f fs where f: "index_entry ds p doc e len = Some (pos, m, q, d, f)"
    "read_entries n ds len q d f = Some (fs, p', doc', e')" "es = (d, pos, m) # fs"
    by (auto simp: bind_eq_Some_conv)
  from Suc.IH [OF f(2)] index_entry_Some [OF f(1)] f(3) show ?case by auto
qed

lemma adopt_loop_entries:
  "adopt_loop n ds at len p doc e fresh =
     map_option (\<lambda>(es, p, doc, e). (fold (\<lambda>(d, l). push_above d l) (map (entry_loc at) es) fresh, p, doc))
       (read_entries n ds len p doc e)"
proof (induction n arbitrary: p doc e fresh)
  case 0
  then show ?case by simp
next
  case (Suc n)
  then show ?case
    by (cases "index_entry ds p doc e len") (auto simp: entry_loc_def map_option_case split: option.splits prod.splits)
qed

text \<open>The dense array those documents make, the slots between them empty.\<close>

fun dense_of :: "nat \<Rightarrow> (nat \<times> loc) list \<Rightarrow> loc list" where
  "dense_of prev [] = []"
| "dense_of prev ((d, l) # es) = replicate (d - prev - 1) loc_empty @ l # dense_of d es"

lemma dense_of_append: "dense_of prev (es @ fs) = dense_of prev es @ dense_of (last (prev # map fst es)) fs"
  by (induction prev es rule: dense_of.induct) auto

lemma length_dense_of:
  "sorted_wrt (<) (prev # map fst es) \<Longrightarrow> prev + length (dense_of prev es) = last (prev # map fst es)"
proof (induction prev es rule: dense_of.induct)
  case (1 prev)
  then show ?case by simp
next
  case (2 prev d l es)
  then have "prev < d" "d + length (dense_of d es) = last (d # map fst es)" by auto
  then show ?case by simp
qed

lemma share_loop_entries:
  assumes "share_loop n ds at len first room p doc e part = Some (part', p', doc', e')" "doc = first + length part"
  shows "\<exists>es. read_entries n ds len p doc e = Some (es, p', doc', e') \<and> part' = part @ dense_of doc (map (entry_loc at) es)"
  using assms
proof (induction n arbitrary: p doc e part)
  case 0
  then show ?case by auto
next
  case (Suc n)
  obtain pos m q d f where f: "index_entry ds p doc e len = Some (pos, m, q, d, f)"
    using Suc.prems(1) by (auto simp: bind_eq_Some_conv)
  let ?part = "part @ replicate (d - first - 1 - length part) loc_empty @ [mapped_loc (at + pos) (word_of_nat m)]"
  have "doc < d" using index_entry_Some [OF f] by simp
  have r: "share_loop n ds at len first room q d f ?part = Some (part', p', doc', e')"
    using Suc.prems(1) f by (auto simp: Let_def split: if_splits)
  have "d = first + length ?part" using \<open>doc < d\<close> Suc.prems(2) by simp
  from Suc.IH [OF r this] obtain es where "read_entries n ds len q d f = Some (es, p', doc', e')"
    "part' = ?part @ dense_of d (map (entry_loc at) es)" by blast
  with f Suc.prems(2) show ?case by (auto simp: entry_loc_def)
qed

lemma shares_entries:
  assumes "\<forall>i<k. share ds cnt at len marks i \<noteq> None" "marks ! 0 = (p, 0, 0)"
  shows "\<exists>es. read_entries (min cnt (k * index_share)) ds len p 0 0 = Some (es, marks ! k)
     \<and> concat (map (\<lambda>i. the (share ds cnt at len marks i)) [0..<k]) = dense_of 0 (map (entry_loc at) es)"
  using assms(1)
proof (induction k)
  case 0
  then show ?case using assms(2) by simp
next
  case (Suc k)
  then obtain es where es: "read_entries (min cnt (k * index_share)) ds len p 0 0 = Some (es, marks ! k)"
    "concat (map (\<lambda>i. the (share ds cnt at len marks i)) [0..<k]) = dense_of 0 (map (entry_loc at) es)"
    by (metis (no_types, lifting) less_SucI)
  obtain q doc e where k: "marks ! k = (q, doc, e)" by (metis prod_cases3)
  obtain q' doc' e' where k': "marks ! (k + 1) = (q', doc', e')" by (metis prod_cases3)
  let ?n = "min (cnt - k * index_share) index_share"
  obtain part0 where "share ds cnt at len marks k = Some part0" using Suc.prems by blast
  then obtain part where p: "share_loop ?n ds at len doc (doc' - doc) q doc e [] = Some (part, q', doc', e')"
    "share ds cnt at len marks k = Some part"
    using k k' by (auto simp: share_def Let_def bind_eq_Some_conv split: if_splits)
  from share_loop_entries [OF p(1)] obtain fs where fs: "read_entries ?n ds len q doc e = Some (fs, q', doc', e')"
    "part = dense_of doc (map (entry_loc at) fs)" by auto
  have n: "min cnt (Suc k * index_share) = min cnt (k * index_share) + ?n" by auto
  have "read_entries (min cnt (Suc k * index_share)) ds len p 0 0 = Some (es @ fs, marks ! Suc k)"
    unfolding n read_entries_add using es(1) fs(1) k k' by simp
  moreover have "doc = last (0 # map fst es)" using read_entries_Some es(1) k by auto
  then have "doc = last (0 # map fst (map (entry_loc at) es))"
    by (simp add: entry_loc_def comp_def case_prod_unfold)
  ultimately show ?case using es(2) fs(2) p(2) by (simp add: dense_of_append)
qed

text \<open>Both make the same map.\<close>

lemma dense_of_slots:
  assumes "sorted_wrt (<) (prev # map fst es)" "\<forall>p\<in>set es. \<not> loc_is_empty (snd p)" "prev < doc"
  shows "slots loc_is_empty (dense_of prev es) (doc - prev) = map_of es doc"
  using assms
proof (induction prev es arbitrary: doc rule: dense_of.induct)
  case (1 prev)
  then show ?case by (simp add: slots_def)
next
  case (2 prev d l es)
  then have d: "prev < d" by simp
  have later: "map_of es k = None" if "k \<le> d" for k
    using 2(2) that by (auto simp: map_of_eq_None_iff)
  consider "doc < d" | "doc = d" | "d < doc" by linarith
  then show ?case
  proof cases
    case 1
    then show ?thesis using d 2(4) later [of doc] by (auto simp: slots_def nth_append)
  next
    case 2
    then show ?thesis using d \<open>\<forall>p\<in>set ((d, l) # es). \<not> loc_is_empty (snd p)\<close> by (auto simp: slots_def nth_append)
  next
    case 3
    then have "slots loc_is_empty (dense_of prev ((d, l) # es)) (doc - prev) = slots loc_is_empty (dense_of d es) (doc - d)"
      using d by (auto simp: slots_def nth_append nth_Cons')
    with 2(1) [of doc] 2(2,3) 3 show ?thesis by auto
  qed
qed

lemma dense_of_count:
  "\<forall>p\<in>set es. \<not> loc_is_empty (snd p) \<Longrightarrow> length (filter (\<lambda>l. \<not> loc_is_empty l) (dense_of prev es)) = length es"
  by (induction prev es rule: dense_of.induct) auto

lemma dense_of_index:
  assumes "sorted_wrt (<) (0 # map fst es)" "\<forall>p\<in>set es. \<not> loc_is_empty (snd p)"
  defines "ix \<equiv> \<lparr>dense = dense_of 0 es, sparse = [], sparse_floor = 0, count = length es\<rparr>"
  shows "ix_inv ix \<and> ix_get ix = map_of es"
proof -
  have inv: "ix_inv ix" using dense_of_count [OF assms(2)] by (simp add: ix_inv_def ix_def)
  have "ix_get ix doc = map_of es doc" for doc
  proof (cases "doc = 0")
    case True
    moreover have "map_of es 0 = None" using assms(1) by (auto simp: map_of_eq_None_iff)
    ultimately show ?thesis by (simp add: ix_get_def in_dense_def ix_def)
  next
    case False
    then show ?thesis using dense_of_slots [OF assms(1,2), of doc]
      unfolding ix_get_inv [OF inv] by (simp add: either_def ix_def)
  qed
  with inv show ?thesis by blast
qed

lemma push_all:
  assumes "ix_inv ix" "sorted_wrt (<) (map fst es)" "\<forall>p\<in>set es. 1 \<le> fst p \<and> \<not> loc_is_empty (snd p)"
    "\<forall>k\<in>dom (ix_get ix). \<forall>p\<in>set es. k < fst p"
  shows "ix_inv (fold (\<lambda>(d, l). push_above d l) es ix)
     \<and> ix_get (fold (\<lambda>(d, l). push_above d l) es ix) = ix_get ix ++ map_of es"
  using assms
proof (induction es arbitrary: ix)
  case Nil
  then show ?case by simp
next
  case (Cons e es)
  obtain d l where e: "e = (d, l)" by fastforce
  have P: "ix_inv (push_above d l ix)" "ix_get (push_above d l ix) = (ix_get ix)(d \<mapsto> l)"
    using push_above_spec [of ix d l] Cons.prems e by auto
  have "d \<notin> dom (map_of es)" using Cons.prems(2) e by (auto simp: dom_map_of_conv_image_fst)
  then have m: "(ix_get ix)(d \<mapsto> l) ++ map_of es = ix_get ix ++ map_of (e # es)"
    using e by (simp add: map_add_upd_left)
  have "\<forall>k\<in>dom (ix_get (push_above d l ix)). \<forall>p\<in>set es. k < fst p"
    using Cons.prems(2,4) P(2) e by auto
  from Cons.IH [OF P(1) _ _ this] Cons.prems(2,3) show ?case
    unfolding m [symmetric] P(2) [symmetric] by (simp add: e)
qed

lemma entry_locs:
  assumes "read_entries n ds len p 0 0 = Some (es, r)" "at + len < 2 ^ 63 - 2 ^ 32"
  shows "sorted_wrt (<) (0 # map fst (map (entry_loc at) es))" "length es = n"
    "\<forall>q\<in>set (map (entry_loc at) es). 1 \<le> fst q \<and> \<not> loc_is_empty (snd q)"
proof -
  obtain p' d' e' where r: "r = (p', d', e')" by (metis prod_cases3)
  note R = read_entries_Some [OF assms(1) [unfolded r]]
  have m: "map fst (map (entry_loc at) es) = map fst es" by (simp add: entry_loc_def comp_def case_prod_unfold)
  show s: "sorted_wrt (<) (0 # map fst (map (entry_loc at) es))" "length es = n" unfolding m using R by simp_all
  have "\<not> loc_is_empty (mapped_loc (at + pos) m)" if "pos \<le> len" for pos m
    using mapped_loc_not_empty [of "at + pos" m] that assms(2) by simp
  with R s(1) show "\<forall>q\<in>set (map (entry_loc at) es). 1 \<le> fst q \<and> \<not> loc_is_empty (snd q)"
    by (fastforce simp: entry_loc_def Suc_le_eq)
qed

lemma adopt_in_turn_entries:
  assumes "read_entries cnt ds len p 0 0 = Some (es, length ds, doc, e)" "at + len < 2 ^ 63 - 2 ^ 32"
  shows "\<exists>ix. adopt_in_turn ds p cnt at len = Some (ix, doc) \<and> ix_inv ix \<and> ix_get ix = map_of (map (entry_loc at) es)"
proof -
  note E = entry_locs [OF assms]
  have "ix_inv ix_default" "ix_get ix_default = Map.empty" by (rule ix.invar_empty, rule ix.get_empty)
  with push_all [of ix_default "map (entry_loc at) es"] E assms(1) show ?thesis
    by (auto simp: adopt_in_turn_def adopt_loop_entries)
qed

lemma adopt_shares_in_turn:
  assumes "adopt_shares ds p ends cnt at len = Some (fresh, doc)" "at + len < 2 ^ 63 - 2 ^ 32"
  shows "ix_inv fresh \<and> (\<exists>ix. adopt_in_turn ds p cnt at len = Some (ix, doc) \<and> ix_get ix = ix_get fresh)"
proof -
  define marks where "marks = read_marks p ends"
  define k where "k = length marks - 1"
  obtain stop e where last: "marks ! k = (stop, doc, e)" "stop = length ds" "k = div_ceil cnt index_share"
    and all: "\<forall>i<k. share ds cnt at len marks i \<noteq> None"
    and fresh: "fresh = \<lparr>dense = concat (map (\<lambda>i. the (share ds cnt at len marks i)) [0..<k]), sparse = [], sparse_floor = 0, count = cnt\<rparr>"
    using assms(1) unfolding adopt_shares_def Let_def marks_def [symmetric] k_def [symmetric]
    by (auto split: if_splits prod.splits simp: image_iff Ball_def comp_def) (metis not_None_eq)
  have first: "marks ! 0 = (p, 0, 0)" by (simp add: marks_def read_marks_def)
  obtain es where es: "read_entries (min cnt (k * index_share)) ds len p 0 0 = Some (es, marks ! k)"
    "concat (map (\<lambda>i. the (share ds cnt at len marks i)) [0..<k]) = dense_of 0 (map (entry_loc at) es)"
    using shares_entries [OF all first] by blast
  have "cnt \<le> k * index_share"
    using div_mult_mod_eq [of "cnt + index_share - 1" index_share] mod_less_divisor [of index_share "cnt + index_share - 1"]
    unfolding last(3) div_ceil_def index_share_def by linarith
  then have r: "read_entries cnt ds len p 0 0 = Some (es, length ds, doc, e)" using es(1) last by (simp add: min_def)
  note E = entry_locs [OF r assms(2)]
  have "fresh = \<lparr>dense = dense_of 0 (map (entry_loc at) es), sparse = [], sparse_floor = 0, count = length (map (entry_loc at) es)\<rparr>"
    using fresh es(2) E(2) by simp
  with dense_of_index [OF E(1)] E(3) have "ix_inv fresh \<and> ix_get fresh = map_of (map (entry_loc at) es)" by simp
  with adopt_in_turn_entries [OF r assms(2)] show ?thesis by auto
qed

section \<open>What is written reads back\<close>

lemma sint_small: "- (2 ^ 63) \<le> x \<Longrightarrow> x < 2 ^ 63 \<Longrightarrow> sint (word_of_int x :: i64) = x"
  by (simp add: signed_of_int signed_take_bit_int_eq_self)

definition entry_bytes :: "nat \<Rightarrow> nat \<Rightarrow> nat \<Rightarrow> nat \<Rightarrow> nat \<Rightarrow> bytes" where
  "entry_bytes was e doc pos n =
     put_uvarint (word_of_nat (doc - was)) @ put_uvarint (word_of_nat n)
       @ put_uvarint (zigzag (word_of_nat pos - word_of_nat (after e doc n)))"

lemma index_entry_at:
  assumes "at_pos ds p (entry_bytes was e doc pos n)"
    and "was < doc" "doc < 2 ^ 64" "n < 2 ^ 32" "0 < pos" "pos + n \<le> len" "len < 2 ^ 62" "e \<le> len"
  shows "index_entry ds p was e len = Some (pos, n, p + length (entry_bytes was e doc pos n), doc, pos + n)"
proof -
  let ?a = "after e doc n"
  have "length (put_head doc n) \<le> 21"
    using length_put_uvarint [of "word_of_nat doc"] length_put_uvarint [of "word_of_nat n"] by (simp add: put_head_def)
  then have a: "?a < 2 ^ 63" using assms(7,8) by (simp add: after_head)
  have d: "(word_of_nat pos - word_of_nat ?a :: i64) = word_of_int (int pos - int ?a)" by simp
  have "sint (word_of_nat ?a :: i64) = int ?a" using sint_small [of "int ?a"] a by simp
  moreover have "sint (word_of_nat pos - word_of_nat ?a :: i64) = int pos - int ?a"
    unfolding d using a assms(6,7) by (intro sint_small) simp_all
  ultimately have c: "i64_checked_add (word_of_nat ?a) (word_of_nat pos - word_of_nat ?a) = Some (word_of_nat pos)"
    using assms(6,7) by (simp add: i64_checked_add_def)
  have pos: "unat (word_of_nat pos :: i64) = pos" "sint (word_of_nat pos :: i64) = int pos"
    using assms(6,7) sint_small [of "int pos"] by (simp_all add: unat_of_nat)
  define st where "st = (word_of_nat (doc - was) :: u64)"
  have step: "unat st = doc - was" using unat_of_nat_u64 [of "doc - was"] assms(3) by (simp only: st_def)
  then have nz: "st \<noteq> 0" using assms(2) by (metis unat_0 zero_less_diff less_irrefl)
  have n: "unat (word_of_nat n :: u64) = n" using assms(4) by (intro unat_of_nat_u64) simp
  let ?o = "zigzag (word_of_nat pos - word_of_nat ?a)"
  have at: "at_pos ds p (put_uvarint st)" "at_pos ds (p + length (put_uvarint st)) (put_uvarint (word_of_nat n))"
    "at_pos ds (p + length (put_uvarint st) + length (put_uvarint (word_of_nat n))) (put_uvarint ?o)"
    using assms(1) by (simp_all add: entry_bytes_def at_pos_append add.assoc flip: st_def)
  note R = uvarint_at [OF at(1)] uvarint_at [OF at(2)] uvarint_at [OF at(3)]
  have "p + length (entry_bytes was e doc pos n)
      = p + length (put_uvarint st) + length (put_uvarint (word_of_nat n)) + length (put_uvarint ?o)"
    by (simp add: entry_bytes_def flip: st_def)
  moreover have "was + (doc - was) = doc" "n \<le> 2 ^ 32 - 1" using assms(2,4) by simp_all
  ultimately show ?thesis
    using nz R assms(3-7) by (simp add: index_entry_def step n pos c u64_checked_add_def word_gt_0)
qed

fun enc_entries :: "nat \<Rightarrow> nat \<Rightarrow> (nat \<times> nat \<times> nat) list \<Rightarrow> bytes" where
  "enc_entries was e [] = []"
| "enc_entries was e ((doc, pos, n) # es) =
     entry_bytes was e doc pos n @ enc_entries doc (pos + n) es"

definition entries_ok :: "nat \<Rightarrow> (nat \<times> nat \<times> nat) list \<Rightarrow> bool" where
  "entries_ok len es \<longleftrightarrow> (\<forall>(doc, pos, n)\<in>set es. doc < 2 ^ 64 \<and> n < 2 ^ 32 \<and> 0 < pos \<and> pos + n \<le> len)"

lemma read_entries_at:
  assumes "at_pos ds p (enc_entries was e es)" "sorted_wrt (<) (was # map fst es)" "entries_ok len es"
    "len < 2 ^ 62" "e \<le> len"
  shows "\<exists>e'. read_entries (length es) ds len p was e = Some (es, p + length (enc_entries was e es), last (was # map fst es), e')"
  using assms(1,2,3,5)
proof (induction was e es arbitrary: p rule: enc_entries.induct)
  case (1 was e)
  then show ?case by simp
next
  case (2 was e doc pos n es)
  let ?bs = "entry_bytes was e doc pos n"
  have b: "at_pos ds p ?bs" "at_pos ds (p + length ?bs) (enc_entries doc (pos + n) es)"
    using 2(2) at_pos_append [of ds p ?bs] by simp_all
  have ok: "was < doc" "doc < 2 ^ 64" "n < 2 ^ 32" "0 < pos" "pos + n \<le> len" "entries_ok len es"
    using 2(3,4) by (auto simp: entries_ok_def)
  note E = index_entry_at [OF b(1) ok(1-5) assms(4) 2(5)]
  obtain e' where "read_entries (length es) ds len (p + length ?bs) doc (pos + n)
      = Some (es, p + length ?bs + length (enc_entries doc (pos + n) es), last (doc # map fst es), e')"
    using 2(1) [OF b(2) _ ok(6,5)] 2(3) by auto
  with E show ?case by (simp add: add.assoc)
qed

text \<open>Where the index says each document is.\<close>

fun index_places :: "store \<Rightarrow> bool \<Rightarrow> nat \<Rightarrow> nat list \<Rightarrow> (nat \<times> nat \<times> nat) list" where
  "index_places s live to_at [] = []"
| "index_places s live to_at (doc # ds) =
     (case ix_get (index s) doc of
        None \<Rightarrow> index_places s live to_at ds
      | Some l \<Rightarrow>
          (let n = unat (plen l);
               pos = (if live then to_at + length (put_head doc n)
                      else image_place l (fst (image_starts s)) (fst (snd (image_starts s))))
           in (doc, pos, n) # index_places s live (if live then pos + n else to_at) ds))"

lemma index_fold:
  "out (fold (index_doc s live start) ds st) = out st @ enc_entries (id_was st) (pos_was st) (index_places s live (live_to st) ds)
   \<and> length (share_ends (fold (index_doc s live start) ds st)) \<le> length (share_ends st) + length ds"
proof (induction ds arbitrary: st)
  case Nil
  then show ?case by simp
next
  case (Cons doc ds)
  obtain a b c where i: "image_starts s = (a, b, c)" by (metis prod_cases3)
  show ?case
  proof (cases "ix_get (index s) doc")
    case None
    with Cons.IH [of st] show ?thesis by (simp add: index_doc_def)
  next
    case (Some l)
    define st' where "st' = index_doc s live start doc st"
    define pos where "pos = (if live then live_to st + length (put_head doc (unat (plen l))) else image_place l a b)"
    have f: "out st' = out st @ entry_bytes (id_was st) (pos_was st) doc pos (unat (plen l))"
      "id_was st' = doc" "pos_was st' = pos + unat (plen l)"
      "live_to st' = (if live then pos + unat (plen l) else live_to st)"
      "length (share_ends st') \<le> Suc (length (share_ends st))"
      using Some by (simp_all add: st'_def index_doc_def Let_def i entry_bytes_def pos_def)
    have fold: "fold (index_doc s live start) (doc # ds) st = fold (index_doc s live start) ds st'" by (simp add: st'_def)
    have pl: "index_places s live (live_to st) (doc # ds) = (doc, pos, unat (plen l)) # index_places s live (live_to st') ds"
      using Some by (simp add: f(4) pos_def i Let_def)
    show ?thesis unfolding fold pl using Cons.IH [of st'] f by simp
  qed
qed

definition index_body :: "nat \<Rightarrow> nat \<Rightarrow> (nat \<times> nat \<times> nat) list \<Rightarrow> bytes" where
  "index_body len dead es =
     frames_split # put_uvarint (word_of_nat len) @ put_uvarint (word_of_nat dead)
       @ put_uvarint (word_of_nat (length es)) @ enc_entries 0 0 es"

definition index_tail :: "(nat \<times> nat \<times> nat) list \<Rightarrow> bytes" where
  "index_tail ends = concat (map put_mark ends) @ le_bytes 4 (word_of_nat (length ends) :: u32)"

lemma map_fst_places:
  "map fst (index_places s live to_at ds) = filter (\<lambda>doc. ix_get (index s) doc \<noteq> None) ds"
  by (induction s live to_at ds rule: index_places.induct) (auto simp: Let_def split: option.splits)

lemma places_iter:
  assumes "ix_inv (index s)"
  shows "map fst (index_places s live to_at (ix_iter (index s))) = ix_iter (index s)"
    "length (index_places s live to_at (ix_iter (index s))) = ix_len (index s)"
proof -
  have I: "sorted_wrt (<) (ix_iter (index s))" "set (ix_iter (index s)) = dom (ix_get (index s))"
    using ix_iter_sorted [OF assms] by auto
  show m: "map fst (index_places s live to_at (ix_iter (index s))) = ix_iter (index s)"
    unfolding map_fst_places using I(2) by (intro filter_True) auto
  have "length (ix_iter (index s)) = ix_len (index s)"
    using ix.len_card [OF assms] I distinct_card [of "ix_iter (index s)"] by (simp add: strict_sorted_iff)
  then show "length (index_places s live to_at (ix_iter (index s))) = ix_len (index s)" by (metis m length_map)
qed

lemma image_index_shape:
  assumes "ix_inv (index s)"
  shows "\<exists>ends. length ends \<le> Suc (ix_len (index s)) \<and> image_index s live prior = prior
     @ index_body (if live then live_len s else snd (snd (image_starts s))) (if live then 0 else dead_bytes s)
         (index_places s live 0 (ix_iter (index s)))
     @ index_tail ends"
proof -
  obtain a b c where i: "image_starts s = (a, b, c)" by (metis prod_cases3)
  note P = places_iter [OF assms, of live 0]
  have l: "length (ix_iter (index s)) = ix_len (index s)" using P by (metis length_map)
  let ?len = "if live then live_len s else c" and ?dead = "if live then 0 else dead_bytes s"
  define st0 where "st0 = \<lparr>out = prior @ [frames_split] @ put_uvarint (word_of_nat ?len)
       @ put_uvarint (word_of_nat ?dead) @ put_uvarint (word_of_nat (ix_len (index s))),
     id_was = 0, pos_was = 0, live_to = 0, share_ends = [], docs_written = 0\<rparr>"
  have f0: "out st0 = prior @ [frames_split] @ put_uvarint (word_of_nat ?len)
       @ put_uvarint (word_of_nat ?dead) @ put_uvarint (word_of_nat (ix_len (index s)))"
    "id_was st0 = 0" "pos_was st0 = 0" "live_to st0 = 0" "share_ends st0 = []" by (simp_all add: st0_def)
  define st where "st = fold (index_doc s live (length prior)) (ix_iter (index s)) st0"
  note F = index_fold [of s live "length prior" "ix_iter (index s)" st0, folded st_def, unfolded f0]
  have st: "out st = prior @ index_body ?len ?dead (index_places s live 0 (ix_iter (index s)))"
    "length (share_ends st) \<le> ix_len (index s)"
    using F l P(2) by (simp_all only: index_body_def append_assoc append_Cons append_Nil list.size add_0)
  have "image_index s live prior = out st @ index_tail (share_ends st @ [(length (out st) - length prior, id_was st, pos_was st)])"
    by (cases live) (simp_all add: image_index_def i Let_def index_tail_def st_def st0_def)
  with st show ?thesis
    by (intro exI [of _ "share_ends st @ [(length (out st) - length prior, id_was st, pos_was st)]"]) (simp add: i)
qed

lemma length_put_mark [simp]: "length (put_mark m) = 24"
  by (simp add: put_mark_def split: prod.splits)

lemma read_marks_put:
  assumes "\<forall>(a, b, c)\<in>set ends. a < 2 ^ 64 \<and> b < 2 ^ 64 \<and> c < 2 ^ 64"
  shows "read_marks p (concat (map put_mark ends)) = (p, 0, 0) # ends"
proof -
  have "chunks 24 (concat (map put_mark ends)) = map put_mark ends" by (rule chunks_concat) auto
  moreover have "chunks 8 (put_mark (a, b, c)) = [le_bytes 8 (word_of_nat a :: u64), le_bytes 8 (word_of_nat b :: u64), le_bytes 8 (word_of_nat c :: u64)]" for a b c
  proof -
    let ?ws = "[le_bytes 8 (word_of_nat a :: u64), le_bytes 8 (word_of_nat b :: u64), le_bytes 8 (word_of_nat c :: u64)]"
    have "chunks 8 (concat ?ws) = ?ws" by (rule chunks_concat) auto
    then show ?thesis by (simp add: put_mark_def)
  qed
  ultimately show ?thesis
    using assms by (fastforce simp: read_marks_def Let_def unat_of_nat intro!: map_idI)
qed
lemma length_put_marks: "length (concat (map put_mark ends)) = length ends * 24"
  by (induction ends) (auto simp: put_mark_def split: prod.splits)

lemma index_split:
  assumes "length ends < 2 ^ 32" "idx = index_body len dead es @ index_tail ends"
  shows "index_parts idx = Some (index_body len dead es, concat (map put_mark ends))"
proof -
  let ?m = "concat (map put_mark ends)" and ?b = "index_body len dead es"
  let ?k = "le_bytes 4 (word_of_nat (length ends) :: u32)"
  have tail: "length idx - 4 = length (?b @ ?m)" "\<not> length idx < 4"
    using assms(2) by (simp_all add: index_tail_def)
  have "drop (length idx - 4) idx = ?k" unfolding tail by (simp add: assms(2) index_tail_def)
  then have k: "unat (of_le_bytes (drop (length idx - 4) idx) :: u32) = length ends"
    using assms(1) by (simp add: unat_of_nat_u32)
  have "get_byte idx 0 = Some frames_split" by (simp add: assms(2) index_body_def get_byte_def)
  moreover have "frames_split \<noteq> frames_mark" by (simp add: frames_split_def frames_mark_def)
  moreover have "take (length idx - 4 - length ends * 24) idx = ?b"
    unfolding tail by (simp add: assms(2) length_put_marks)
  moreover have "take (length ends * 24) (drop (length idx - 4 - length ends * 24) idx) = ?m"
    unfolding tail by (simp add: assms(2) length_put_marks index_tail_def)
  ultimately show ?thesis using k tail by (simp add: index_parts_def length_put_marks Let_def)
qed

text \<open>
  An index of these documents gives a store with nothing in it theirs, whichever way it is
  read: the shares where they read, and in turn where they do not.
\<close>

lemma adopt_index_written:
  assumes "ix_len (index t) = 0" "base t = None" "total_bytes t = 0"
    and "length ends < 2 ^ 32" "len < 2 ^ 62" "at + len < 2 ^ 63 - 2 ^ 32" "dead \<le> len"
    and "sorted_wrt (<) (0 # map fst es)" "entries_ok len es" "length es < 2 ^ 64"
  shows "\<exists>fresh. adopt_index fl at len (index_body len dead es @ index_tail ends) t =
       (t\<lparr>index := fresh, total_bytes := len, dead_bytes := dead,
          next_id := max (next_id t) ((last (0 # map fst es) + 1) mod 2 ^ 64), base := Some (fl, [(at, len)])\<rparr>, True)
     \<and> ix_inv fresh \<and> ix_get fresh = map_of (map (entry_loc at) es)"
proof -
  define ds where "ds = index_body len dead es"
  let ?m = "concat (map put_mark ends)"
  let ?p = "1 + length (put_uvarint (word_of_nat len)) + length (put_uvarint (word_of_nat dead))
      + length (put_uvarint (word_of_nat (length es)))"
  have at: "at_pos ds 1 (put_uvarint (word_of_nat len))"
    "at_pos ds (1 + length (put_uvarint (word_of_nat len))) (put_uvarint (word_of_nat dead))"
    "at_pos ds (1 + length (put_uvarint (word_of_nat len)) + length (put_uvarint (word_of_nat dead))) (put_uvarint (word_of_nat (length es)))"
    "at_pos ds ?p (enc_entries 0 0 es)"
    using at_pos_self [of ds] by (simp_all add: ds_def index_body_def at_pos_Cons at_pos_append add.assoc)
  have len: "length ds = ?p + length (enc_entries 0 0 es)" by (simp add: ds_def index_body_def)
  have u: "unat (word_of_nat len :: u64) = len" "unat (word_of_nat dead :: u64) = dead" "unat (word_of_nat (length es) :: u64) = length es"
    using assms(5,7,10) by (simp_all add: unat_of_nat_u64)
  obtain e' where r: "read_entries (length es) ds len ?p 0 0 = Some (es, length ds, last (0 # map fst es), e')"
    using read_entries_at [OF at(4) assms(8,9,5)] len by auto
  obtain ix where ix: "adopt_in_turn ds ?p (length es) at len = Some (ix, last (0 # map fst es))" "ix_inv ix"
    "ix_get ix = map_of (map (entry_loc at) es)"
    using adopt_in_turn_entries [OF r assms(6)] by blast
  define shares where "shares = (if 1 < length ?m then adopt_shares ds ?p ?m (length es) at len else None)"
  obtain fresh where fresh: "(case shares of Some r \<Rightarrow> Some r | None \<Rightarrow> adopt_in_turn ds ?p (length es) at len)
      = Some (fresh, last (0 # map fst es))" "ix_inv fresh" "ix_get fresh = map_of (map (entry_loc at) es)"
  proof (cases shares)
    case None
    with ix that show ?thesis by simp
  next
    case (Some r)
    obtain g d where gd: "r = (g, d)" by fastforce
    then have "adopt_shares ds ?p ?m (length es) at len = Some (g, d)" using Some by (auto simp: shares_def split: if_splits)
    from adopt_shares_in_turn [OF this assms(6)] ix gd Some that show ?thesis by auto
  qed
  define w1 w2 w3 where w: "w1 = (word_of_nat len :: u64)" "w2 = (word_of_nat dead :: u64)" "w3 = (word_of_nat (length es) :: u64)"
  define p1 p2 p3 last_id where p: "p1 = 1 + length (put_uvarint w1)" "p2 = p1 + length (put_uvarint w2)"
    "p3 = p2 + length (put_uvarint w3)" and last_id: "last_id = last (0 # map fst es)"
  have R: "uvarint ds 1 = Some (w1, p1)" "uvarint ds p1 = Some (w2, p2)" "uvarint ds p2 = Some (w3, p3)"
    using uvarint_at [OF at(1)] uvarint_at [OF at(2)] uvarint_at [OF at(3)] unfolding p w by simp_all
  have f: "(case (if 1 < length ?m then adopt_shares ds p3 ?m (length es) at len else None) of
      Some r \<Rightarrow> Some r | None \<Rightarrow> adopt_in_turn ds p3 (length es) at len) = Some (fresh, last_id)"
    using fresh(1) unfolding shares_def p w last_id .
  have "adopt_index fl at len (index_body len dead es @ index_tail ends) t =
      (t\<lparr>index := fresh, total_bytes := len, dead_bytes := dead,
          next_id := max (next_id t) ((last (0 # map fst es) + 1) mod 2 ^ 64), base := Some (fl, [(at, len)])\<rparr>, True)"
    unfolding adopt_index_def index_split [OF assms(4) refl] option.case prod.case
    unfolding ds_def [symmetric] last_id [symmetric] R bind.bind_lunit prod.case u [folded w] f Let_def
    using assms(1-3,7) by simp
  with fresh(2,3) show ?thesis by blast
qed

end
