(* ===== verification/Fenec_Image_Laws.thy ===== *)
theory Fenec_Image_Laws
  imports Fenec_Image_Index
begin

text \<open>
  What an image of a store is worth once it is in a file (\<open>relocate_image\<close>, \<open>relocate_live\<close>,
  \<open>image_index\<close> and \<open>adopt_index\<close> of \<open>fenec-core/src/store.rs\<close>): the store pointed at the file,
  and the store an open builds from the image's index, read every document as it was.
\<close>

section \<open>Documents by their places in an image\<close>

text \<open>The image holds, at each place, the payload the store reads for the document.\<close>

definition placed :: "store \<Rightarrow> bytes \<Rightarrow> (nat \<times> nat \<times> nat) list \<Rightarrow> bool" where
  "placed s img es \<longleftrightarrow> (\<forall>(doc, pos, n)\<in>set es.
     0 < pos \<and> (\<exists>p. store_map s doc = Some p \<and> n = length p \<and> at_pos img pos p))"

lemma placedD:
  assumes "placed s img es" "(doc, pos, n) \<in> set es"
  obtains p where "store_map s doc = Some p" "n = length p" "at_pos img pos p" "0 < pos" "pos + n \<le> length img"
  using assms at_pos_le by (fastforce simp: placed_def)

lemma at_pos_at_pos: "at_pos buf at img \<Longrightarrow> at_pos img pos p \<Longrightarrow> at_pos buf (at + pos) p"
proof -
  assume a: "at_pos buf at img" "at_pos img pos p"
  from a(1) have "take (length p) (drop pos img) = take (length p) (drop pos (take (length img) (drop at buf)))"
    by (simp add: at_pos_def)
  also have "\<dots> = take (min (length p) (length img - pos)) (drop (at + pos) buf)"
    by (simp add: drop_take add.commute)
  also have "min (length p) (length img - pos) = length p" using at_pos_le [OF a(2)] by simp
  finally show "at_pos buf (at + pos) p" using a by (auto simp: at_pos_def)
qed

lemma placed_store:
  assumes "store_inv s" "placed s img es" "map fst es = ix_iter (index s)" "at_pos fl at img"
    and "length fl < 2 ^ 63 - 2 ^ 32" "base t = Some (fl, st)" "ix_get (index t) = map_of (map (entry_loc at) es)"
  shows "store_map t = store_map s" "ix_get (index t) doc = Some l \<Longrightarrow> is_ok (payload t l)"
    "ix_get (index t) doc = Some l \<Longrightarrow> is_mapped_loc l \<and> at \<le> mapped_at l \<and> mapped_at l + unat (plen l) \<le> at + length img"
    "dom (ix_get (index t)) = dom (store_map s)"
proof -
  have I: "sorted_wrt (<) (ix_iter (index s))" "set (ix_iter (index s)) = dom (store_map s)"
    using ix_iter_sorted [of "index s"] assms(1) store_map_dom [OF assms(1)] by (auto simp: store_inv_def)
  have m: "map fst (map (entry_loc at) es) = map fst es" by (simp add: entry_loc_def comp_def case_prod_unfold)
  have d: "distinct (map fst (map (entry_loc at) es))" unfolding m assms(3) using I(1) by (simp add: strict_sorted_iff)
  have le: "at + length img \<le> length fl" using at_pos_le [OF assms(4)] .
  have some: "payload t l = Ok p \<and> store_map s doc = Some p \<and> is_mapped_loc l
      \<and> at \<le> mapped_at l \<and> mapped_at l + unat (plen l) \<le> at + length img"
    if e: "(doc, pos, n) \<in> set es" "l = mapped_loc (at + pos) (word_of_nat n)" "store_map s doc = Some p" for doc pos n l p
  proof -
    obtain q where q: "store_map s doc = Some q" "n = length q" "at_pos img pos q" "pos + n \<le> length img"
      using placedD [OF assms(2) e(1)] by blast
    then have qp: "q = p" using e(3) by simp
    obtain l0 where "payload s l0 = Ok p" using e(3) by (auto simp: store_map_Some_iff)
    then have n: "n < 2 ^ 32" using payload_length q(2) qp by fastforce
    have at: "mapped_at l = at + pos" "unat (plen l) = n"
      using e(2) q(4) le assms(5) n by (auto simp: mapped_at_mapped_loc unat_of_nat_u32)
    have "get_range fl (at + pos) (at + pos + n) = Some p"
      using at_pos_range [OF at_pos_at_pos [OF assms(4) q(3)]] q(2) qp by blast
    then have "payload t l = Ok p" using payload_file [of l t fl st] assms(6) e(2) at by simp
    with e q at show ?thesis by simp
  qed
  have get: "\<exists>pos n. (doc, pos, n) \<in> set es \<and> l = mapped_loc (at + pos) (word_of_nat n) \<and> (\<exists>p. store_map s doc = Some p)"
    if "ix_get (index t) doc = Some l" for doc l
  proof -
    have "(doc, l) \<in> set (map (entry_loc at) es)" using that unfolding assms(7) by (rule map_of_SomeD)
    then obtain pos n where e: "(doc, pos, n) \<in> set es" "l = mapped_loc (at + pos) (word_of_nat n)"
      by (auto simp: entry_loc_def)
    obtain p where "store_map s doc = Some p" by (rule placedD [OF assms(2) e(1)])
    with e show ?thesis by metis
  qed
  show "ix_get (index t) doc = Some l \<Longrightarrow> is_ok (payload t l)"
    "ix_get (index t) doc = Some l \<Longrightarrow> is_mapped_loc l \<and> at \<le> mapped_at l \<and> mapped_at l + unat (plen l) \<le> at + length img"
    using get [of doc l] some [of doc] by (fastforce simp: is_ok_iff)+
  have "dom (ix_get (index t)) = set (map fst (map (entry_loc at) es))" unfolding assms(7) dom_map_of_conv_image_fst set_map ..
  also have "\<dots> = dom (store_map s)" unfolding m assms(3) I(2) ..
  finally show dom: "dom (ix_get (index t)) = dom (store_map s)" .
  show "store_map t = store_map s"
  proof (rule ext)
    fix doc
    show "store_map t doc = store_map s doc"
    proof (cases "ix_get (index t) doc")
      case None
      then show ?thesis using dom by (metis domIff store_map_def option.case(1))
    next
      case (Some l)
      from get [OF Some] obtain pos n p where g: "(doc, pos, n) \<in> set es"
        "l = mapped_loc (at + pos) (word_of_nat n)" "store_map s doc = Some p" by blast
      from some [OF g] Some show ?thesis by (simp add: store_map_def)
    qed
  qed
qed

section \<open>The live image\<close>

lemma live_places:
  assumes "store_inv s" "set ids \<subseteq> dom (ix_get (index s))" "length pre = to_at"
  shows "placed s (pre @ log_bytes (live_puts s ids)) (index_places s True to_at ids)"
  using assms(2,3)
proof (induction ids arbitrary: pre to_at)
  case Nil
  then show ?case by (simp add: placed_def)
next
  case (Cons doc ids)
  then obtain l where l: "ix_get (index s) doc = Some l" by auto
  obtain p where p: "payload s l = Ok p" "store_map s doc = Some p" "length p = unat (plen l)"
    by (rule live_frame_ok [OF assms(1) l])
  let ?h = "put_head doc (length p)"
  have puts: "live_puts s (doc # ids) = (op_put, doc, p) # live_puts s ids" using p(2) by (simp add: live_puts_def)
  have img: "pre @ log_bytes (live_puts s (doc # ids)) = (pre @ ?h @ p) @ log_bytes (live_puts s ids)"
    using put_head_frame [of doc p] by (simp add: puts)
  have "placed s ((pre @ ?h @ p) @ log_bytes (live_puts s ids)) (index_places s True (to_at + length ?h + length p) ids)"
    using Cons.prems by (intro Cons.IH) auto
  moreover have "at_pos ((pre @ ?h @ p) @ log_bytes (live_puts s ids)) (to_at + length ?h) p"
    using at_pos_whole [of "pre @ ?h" p "log_bytes (live_puts s ids)"] Cons.prems(2) by simp
  moreover have "0 < length ?h" by (simp add: put_head_def)
  moreover have "index_places s True to_at (doc # ids)
      = (doc, to_at + length ?h, length p) # index_places s True (to_at + length ?h + length p) ids"
    using l p(3) by (simp add: Let_def)
  ultimately show ?case unfolding img using p(2) by (simp add: placed_def)
qed

lemma iter_dom: "store_inv s \<Longrightarrow> set (ix_iter (index s)) \<subseteq> dom (ix_get (index s))"
  using ix_iter_sorted by (auto simp: store_inv_def)

definition live_bytes :: "store \<Rightarrow> bytes" where
  "live_bytes s = log_bytes (live_puts s (ix_iter (index s)))"

lemma live_placed:
  assumes "store_inv s"
  shows "placed s (live_bytes s) (index_places s True 0 (ix_iter (index s)))"
  using live_places [OF assms iter_dom [OF assms], of "[]" 0] by (simp add: live_bytes_def)

section \<open>The image as the store stands\<close>

text \<open>
  Every payload in the mapped file is inside a stretch of it, behind its frame's head; the
  stretches are in the file, in its order. A payload in memory is behind its head too.
\<close>

definition located :: "store \<Rightarrow> bool" where
  "located s \<longleftrightarrow>
     (\<forall>doc l. ix_get (index s) doc = Some l \<longrightarrow>
        (if is_mapped_loc l then
           base s \<noteq> None \<and> (\<exists>p\<in>set (snd (the (base s))). fst p < mapped_at l \<and> mapped_at l + unat (plen l) \<le> fst p + snd p)
         else 0 < unat (off l)))
     \<and> (base s \<noteq> None \<longrightarrow>
          sorted_wrt (\<lambda>x y. fst x + snd x \<le> fst y) (snd (the (base s)))
          \<and> (\<forall>p\<in>set (snd (the (base s))). fst p + snd p \<le> length (fst (the (base s))))
          \<and> length (fst (the (base s))) < 2 ^ 63)"

lemma starts_from_eq:
  "starts_from to_at st = (map (\<lambda>i. (fst (st ! i), to_at + sum_list (map snd (take i st)))) [0..<length st],
     to_at + sum_list (map snd st))"
proof (induction to_at st rule: starts_from.induct)
  case (1 to_at)
  then show ?case by simp
next
  case (2 to_at a n st)
  have "[0..<length ((a, n) # st)] = 0 # map Suc [0..<length st]" by (simp add: map_Suc_upt upt_conv_Cons del: upt_Suc)
  with 2 show ?case by (simp add: Let_def comp_def add.assoc del: upt_Suc)
qed

lemma seg_starts_eq:
  "seg_starts to_at gs = (map (\<lambda>i. to_at + sum_list (map (\<lambda>g. length (seg_data g)) (take i gs))) [0..<length gs],
     to_at + sum_list (map (\<lambda>g. length (seg_data g)) gs))"
proof (induction to_at gs rule: seg_starts.induct)
  case (1 to_at)
  then show ?case by simp
next
  case (2 to_at g gs)
  have "[0..<length (g # gs)] = 0 # map Suc [0..<length gs]" by (simp add: map_Suc_upt upt_conv_Cons del: upt_Suc)
  with 2 show ?case by (simp add: Let_def comp_def add.assoc del: upt_Suc)
qed

definition stretch :: "bytes \<Rightarrow> nat \<times> nat \<Rightarrow> bytes" where
  "stretch fl p = take (snd p) (drop (fst p) fl)"

lemma stretch_bytes_eq:
  assumes "\<forall>p\<in>set st. fst p + snd p \<le> length fl" "length fl < 2 ^ 63"
  shows "stretch_bytes fl st = Ok (concat (map (stretch fl) st))"
  using assms(1)
proof (induction st)
  case Nil
  then show ?case by simp
next
  case (Cons p st)
  obtain at n where p: "p = (at, n)" by fastforce
  have "at + n \<le> length fl" using Cons.prems p by simp
  then have "get_range fl at (usize_add at n) = Some (stretch fl (at, n))"
    using assms(2) by (simp add: get_range_def usize_add_small stretch_def)
  then show ?case using Cons p by simp
qed

lemma length_stretches:
  "\<forall>p\<in>set st. fst p + snd p \<le> length fl \<Longrightarrow> length (concat (map (stretch fl) st)) = sum_list (map snd st)"
  by (induction st) (auto simp: stretch_def)

lemma at_pos_concat:
  "i < length xss \<Longrightarrow> at_pos (pre @ concat xss @ post) (length pre + length (concat (take i xss))) (xss ! i)"
proof -
  assume "i < length xss"
  then have "concat xss = concat (take i xss) @ (xss ! i) @ concat (drop (Suc i) xss)"
    by (metis concat.simps(2) concat_append id_take_nth_drop)
  then show ?thesis
    using at_pos_whole [of "pre @ concat (take i xss)" "xss ! i" "concat (drop (Suc i) xss) @ post"] by simp
qed

abbreviation stretches :: "store \<Rightarrow> (nat \<times> nat) list" where
  "stretches s \<equiv> (case base s of None \<Rightarrow> [] | Some (fl, st) \<Rightarrow> st)"

abbreviation file_of :: "store \<Rightarrow> bytes" where
  "file_of s \<equiv> (case base s of None \<Rightarrow> [] | Some (fl, st) \<Rightarrow> fl)"

definition image_bytes :: "store \<Rightarrow> bytes" where
  "image_bytes s = concat (map (stretch (file_of s)) (stretches s)) @ concat (map seg_data (segments s))"

lemma located_image:
  assumes "located s"
  shows "image s = Ok (image_bytes s)"
    "fst (image_starts s) = map (\<lambda>i. (fst (stretches s ! i), sum_list (map snd (take i (stretches s))))) [0..<length (stretches s)]"
    "fst (snd (image_starts s)) = map (\<lambda>i. length (concat (map (stretch (file_of s)) (stretches s)))
        + length (concat (map seg_data (take i (segments s))))) [0..<length (segments s)]"
    "snd (snd (image_starts s)) = length (image_bytes s)"
    "\<forall>p\<in>set (stretches s). fst p + snd p \<le> length (file_of s)"
    "sorted_wrt (\<lambda>x y. fst x + snd x \<le> fst y) (stretches s)"
proof -
  have st: "\<forall>p\<in>set (stretches s). fst p + snd p \<le> length (file_of s)" "length (file_of s) < 2 ^ 63"
    "sorted_wrt (\<lambda>x y. fst x + snd x \<le> fst y) (stretches s)"
    using assms by (cases "base s"; auto simp: located_def split: prod.splits)+
  show "\<forall>p\<in>set (stretches s). fst p + snd p \<le> length (file_of s)"
    "sorted_wrt (\<lambda>x y. fst x + snd x \<le> fst y) (stretches s)" by (rule st)+
  show "image s = Ok (image_bytes s)"
    using stretch_bytes_eq [OF st(1,2)] by (auto simp: image_def image_bytes_def split: option.splits)
  note len = length_stretches [OF st(1)]
  show "fst (image_starts s) = map (\<lambda>i. (fst (stretches s ! i), sum_list (map snd (take i (stretches s))))) [0..<length (stretches s)]"
    "fst (snd (image_starts s)) = map (\<lambda>i. length (concat (map (stretch (file_of s)) (stretches s)))
        + length (concat (map seg_data (take i (segments s))))) [0..<length (segments s)]"
    "snd (snd (image_starts s)) = length (image_bytes s)"
    using len by (simp_all add: image_starts_def starts_from_eq seg_starts_eq image_bytes_def length_concat comp_def)
qed

lemma seg_place_at:
  assumes "located s" "\<not> is_mapped_loc l" "segment_payload (segments s) l = Ok p"
  shows "at_pos (image_bytes s) (image_place l (fst (image_starts s)) (fst (snd (image_starts s)))) p"
proof -
  let ?i = "unat (seg l)" and ?m = "concat (map (stretch (file_of s)) (stretches s))"
  have i: "?i < length (segments s)" and r: "get_range (seg_data (segments s ! ?i)) (unat (off l)) (unat (off l) + unat (plen l)) = Some p"
    using assms(3) by (auto simp: segment_payload_Ok_iff)
  have "at_pos (seg_data (segments s ! ?i)) (unat (off l)) p" using r by (auto simp: get_range_Some_iff at_pos_def)
  moreover have "at_pos (image_bytes s) (length ?m + length (concat (map seg_data (take ?i (segments s))))) (seg_data (segments s ! ?i))"
    using at_pos_concat [of ?i "map seg_data (segments s)" ?m "[]"] i by (simp add: image_bytes_def take_map)
  ultimately have "at_pos (image_bytes s) (length ?m + length (concat (map seg_data (take ?i (segments s)))) + unat (off l)) p"
    using at_pos_at_pos by blast
  then show ?thesis using assms(2) i located_image(3) [OF assms(1)] by (simp add: image_place_def)
qed

text \<open>
  The last stretch that starts at or before a payload is the one that holds it, or it starts
  where the payload, of no bytes, is.
\<close>

lemma last_stretch:
  fixes st :: "(nat \<times> nat) list"
  assumes "sorted_wrt (\<lambda>x y. fst x + snd x \<le> fst y) st" "p \<in> set st" "fst p < a" "a + n \<le> fst p + snd p"
    and "k = partition_point (\<lambda>x. fst x \<le> a) (map (\<lambda>i. (fst (st ! i), f i)) [0..<length st]) - 1"
  shows "k < length st \<and> fst (st ! k) \<le> a \<and> (n = 0 \<or> a + n \<le> fst (st ! k) + snd (st ! k))
     \<and> a \<le> fst (st ! k) + snd (st ! k) \<and> (fst (st ! k) < a \<or> 0 < sum_list (map snd (take k st)))"
proof -
  let ?xs = "map (\<lambda>i. (fst (st ! i), f i)) [0..<length st]"
  let ?P = "\<lambda>x. fst x \<le> a"
  obtain i where i: "i < length st" "st ! i = p" using assms(2) by (auto simp: in_set_conv_nth)
  have mono: "x < y \<Longrightarrow> y < length st \<Longrightarrow> fst (st ! x) + snd (st ! x) \<le> fst (st ! y)" for x y
    using assms(1) by (simp add: sorted_wrt_iff_nth_less)
  have s: "sorted_wrt (\<lambda>x y. ?P y \<longrightarrow> ?P x) ?xs"
    by (auto simp: sorted_wrt_iff_nth_less dest!: mono)
  note P = partition_point_spec [OF s]
  let ?q = "partition_point ?P ?xs"
  have q: "i < ?q"
  proof (rule ccontr)
    assume "\<not> i < ?q"
    then have "\<not> ?P (?xs ! i)" using i(1) by (intro P(3)) simp_all
    with i assms(3) show False by simp
  qed
  then have k: "k = ?q - 1" "i \<le> k" "k < length st" using assms(5) P(1) by auto
  have le: "fst (st ! k) \<le> a" using P(2) [of k] q k by auto
  show ?thesis
  proof (cases "i = k")
    case True
    with i le assms(3,4) k show ?thesis by auto
  next
    case False
    then have "fst p + snd p \<le> fst (st ! k)" using mono [of i k] i k by simp
    moreover have "i < k" "k < length st" using False k(2,3) by simp_all
    then have "p \<in> set (take k st)" unfolding i(2) [symmetric] by (simp add: in_set_conv_nth) (metis nth_take)
    then have "snd p \<le> sum_list (map snd (take k st))" by (intro member_le_sum_list) simp_all
    ultimately show ?thesis using le assms(3,4) k by auto
  qed
qed

lemma mapped_place_at:
  assumes "located s" "ix_get (index s) doc = Some l" "is_mapped_loc l" "payload s l = Ok p"
  shows "at_pos (image_bytes s) (image_place l (fst (image_starts s)) (fst (snd (image_starts s)))) p
    \<and> 0 < image_place l (fst (image_starts s)) (fst (snd (image_starts s)))"
proof -
  note L = located_image [OF assms(1)]
  have "base s \<noteq> None" using assms(1-3) unfolding located_def by metis
  then obtain fl st where b: "base s = Some (fl, st)" by auto
  then have st: "stretches s = st" "file_of s = fl" by simp_all
  let ?a = "mapped_at l" and ?n = "unat (plen l)"
  obtain q where q: "q \<in> set st" "fst q < ?a" "?a + ?n \<le> fst q + snd q"
    using assms(1-3) b by (fastforce simp: located_def split: if_splits)
  define k where "k = partition_point (\<lambda>x. fst x \<le> ?a) (fst (image_starts s)) - 1"
  have K: "k < length st \<and> fst (st ! k) \<le> ?a \<and> (?n = 0 \<or> ?a + ?n \<le> fst (st ! k) + snd (st ! k)) \<and> ?a \<le> fst (st ! k) + snd (st ! k)
      \<and> (fst (st ! k) < ?a \<or> 0 < sum_list (map snd (take k st)))"
    by (rule last_stretch [OF L(6) [unfolded st] q]) (simp add: k_def L(2) st)
  have r: "get_range fl ?a (?a + ?n) = Some p" using assms(3,4) b by (simp add: payload_file result_simps)
  have in_st: "at_pos (stretch fl (st ! k)) (?a - fst (st ! k)) p"
  proof -
    have "fst (st ! k) + snd (st ! k) \<le> length fl" using L(5) K st by simp
    then show ?thesis
      using r K by (auto simp: stretch_def at_pos_def get_range_Some_iff drop_take min_def)
  qed
  have sum: "sum_list (map snd (take k st)) = length (concat (take k (map (stretch fl) st)))"
  proof -
    have "\<forall>p\<in>set (take k st). fst p + snd p \<le> length fl" using L(5) unfolding st by (meson in_set_takeD)
    from length_stretches [OF this] show ?thesis by (simp add: take_map)
  qed
  have "at_pos (image_bytes s) (length (concat (take k (map (stretch fl) st)))) (stretch fl (st ! k))"
    using at_pos_concat [of k "map (stretch fl) st" "[]" "concat (map seg_data (segments s))"] K st
    by (simp add: image_bytes_def)
  from at_pos_at_pos [OF this in_st]
  have at: "at_pos (image_bytes s) (sum_list (map snd (take k st)) + (?a - fst (st ! k))) p" by (simp add: sum)
  have pl: "image_place l (fst (image_starts s)) (fst (snd (image_starts s)))
      = sum_list (map snd (take k st)) + (?a - fst (st ! k))"
    using assms(3) K unfolding image_place_def Let_def k_def [symmetric] by (simp add: L(2) st)
  have "0 < sum_list (map snd (take k st)) + (?a - fst (st ! k))" using K by auto
  with at show ?thesis unfolding pl by blast
qed

lemma image_placed:
  assumes "store_inv s" "located s"
  shows "placed s (image_bytes s) (index_places s False 0 (ix_iter (index s)))"
proof -
  have one: "0 < image_place l (fst (image_starts s)) (fst (snd (image_starts s)))
      \<and> at_pos (image_bytes s) (image_place l (fst (image_starts s)) (fst (snd (image_starts s)))) p"
    if l: "ix_get (index s) doc = Some l" "payload s l = Ok p" for doc l p
  proof (cases "is_mapped_loc l")
    case True
    then show ?thesis using mapped_place_at [OF assms(2) l(1) True l(2)] by simp
  next
    case False
    then have sp: "segment_payload (segments s) l = Ok p" using l(2) by (simp add: payload_seg)
    then have "unat (seg l) < length (segments s)" by (simp add: segment_payload_Ok_iff)
    moreover have "0 < unat (off l)" using assms(2) l(1) False unfolding located_def by metis
    ultimately have "0 < image_place l (fst (image_starts s)) (fst (snd (image_starts s)))"
      using False located_image(3) [OF assms(2)] by (simp add: image_place_def)
    with seg_place_at [OF assms(2) False sp] show ?thesis by blast
  qed
  have "placed s (image_bytes s) (index_places s False n ids)" for n ids
  proof (induction ids)
    case Nil
    then show ?case by (simp add: placed_def)
  next
    case (Cons doc ids)
    show ?case
    proof (cases "ix_get (index s) doc")
      case None
      with Cons show ?thesis by simp
    next
      case (Some l)
      obtain p where p: "payload s l = Ok p" "store_map s doc = Some p" "length p = unat (plen l)"
        by (rule live_frame_ok [OF assms(1) Some])
      with one [OF Some p(1)] Some Cons show ?thesis by (simp add: placed_def Let_def)
    qed
  qed
  then show ?thesis .
qed

section \<open>The store pointed at its image\<close>

lemma word_of_unat_plen [simp]: "word_of_nat (unat (w :: u32)) = w"
  by simp

lemma run_live:
  assumes "set ids \<subseteq> dom (ix_get (index s))"
  shows "run_each (\<lambda>to_at doc l. (let p = to_at + length (put_head doc (unat (plen l))) in (p + unat (plen l), mapped_loc p (plen l))))
      (at + to_at) (map (\<lambda>k. (k, the (ix_get (index s) k))) ids)
     = (at + to_at + sum_list (map (\<lambda>doc. case ix_get (index s) doc of None \<Rightarrow> 0
         | Some l \<Rightarrow> length (put_head doc (unat (plen l))) + unat (plen l)) ids),
        map (entry_loc at) (index_places s True to_at ids))"
  using assms
proof (induction ids arbitrary: to_at)
  case Nil
  then show ?case by simp
next
  case (Cons doc ids)
  then obtain l where l: "ix_get (index s) doc = Some l" by auto
  let ?h = "length (put_head doc (unat (plen l)))" and ?n = "unat (plen l)"
  from Cons.IH [of "to_at + ?h + ?n"] Cons.prems l show ?case
    by (simp add: Let_def entry_loc_def add.assoc)
qed

lemma run_image:
  assumes "set ids \<subseteq> dom (ix_get (index s))"
  shows "run_each (\<lambda>u doc l. (u, mapped_loc (at + image_place l (fst (image_starts s)) (fst (snd (image_starts s)))) (plen l)))
      () (map (\<lambda>k. (k, the (ix_get (index s) k))) ids) = ((), map (entry_loc at) (index_places s False 0 ids))"
  using assms by (induction ids) (auto simp: Let_def entry_loc_def)

lemma placed_not_empty:
  assumes "placed s img es" "at + length img < 2 ^ 63 - 2 ^ 32"
  shows "\<forall>p\<in>set (map (entry_loc at) es). \<not> loc_is_empty (snd p)"
proof -
  have "\<not> loc_is_empty (mapped_loc (at + pos) m)" if "(doc, pos, n) \<in> set es" for doc pos n m
    by (rule placedD [OF assms(1) that]) (use assms(2) in \<open>intro mapped_loc_not_empty, simp\<close>)
  then show ?thesis by (auto simp: entry_loc_def)
qed

text \<open>A store whose index is these places in its file, and nothing in memory.\<close>

lemma placed_inv:
  assumes "store_inv s" "placed s img es" "map fst es = ix_iter (index s)" "at_pos fl at img"
    and "length fl < 2 ^ 63 - 2 ^ 32" "base t = Some (fl, [(at, length img)])"
    and "ix_inv (index t)" "ix_get (index t) = map_of (map (entry_loc at) es)" "segs_full (segments t)"
    and "next_id t < 2 ^ 64" "\<forall>doc\<in>dom (store_map s). doc < next_id t"
  shows "store_inv t \<and> located t \<and> store_map t = store_map s"
proof -
  note P = placed_store [OF assms(1-6,8)]
  have "1 \<le> doc" if "doc \<in> dom (store_map s)" for doc
    using that assms(1) store_map_dom [OF assms(1)] by (fastforce simp: store_inv_def)
  then have "store_inv t" using P(2,4) assms(7,9-11) by (fastforce simp: store_inv_def)
  moreover have "located t"
    unfolding located_def
  proof (intro conjI allI impI)
    fix doc l
    assume l: "ix_get (index t) doc = Some l"
    have "at < mapped_at l"
    proof -
      have "(doc, l) \<in> set (map (entry_loc at) es)" using l unfolding assms(8) by (rule map_of_SomeD)
      then obtain pos n where e: "(doc, pos, n) \<in> set es" "l = mapped_loc (at + pos) (word_of_nat n)"
        by (auto simp: entry_loc_def)
      obtain "0 < pos" "pos + n \<le> length img" by (rule placedD [OF assms(2) e(1)])
      moreover have "at + pos < 2 ^ 63" using at_pos_le [OF assms(4)] assms(5) calculation by simp
      ultimately show ?thesis using e(2) by (simp add: mapped_at_mapped_loc)
    qed
    then show "if is_mapped_loc l then base t \<noteq> None \<and> (\<exists>p\<in>set (snd (the (base t))). fst p < mapped_at l \<and> mapped_at l + unat (plen l) \<le> fst p + snd p)
        else 0 < unat (off l)"
      using P(3) [OF l] assms(6) by simp
  qed (use assms(5,6) at_pos_le [OF assms(4)] in simp_all)
  ultimately show ?thesis using P(1) by blast
qed

lemma inv_next_id: "store_inv s \<Longrightarrow> next_id s < 2 ^ 64 \<and> (\<forall>doc\<in>dom (store_map s). 1 \<le> doc \<and> doc < next_id s)"
  using store_map_dom [of s] by (fastforce simp: store_inv_def)

lemma segs_full_default [simp]: "segs_full [seg_default]"
  by (simp add: segs_full_def)

lemma relocate_image_spec:
  assumes "store_inv s" "located s" "at_pos fl at (image_bytes s)" "length fl < 2 ^ 63 - 2 ^ 32"
  shows "store_inv (relocate_image fl at s) \<and> located (relocate_image fl at s)
     \<and> store_map (relocate_image fl at s) = store_map s"
proof -
  let ?es = "index_places s False 0 (ix_iter (index s))"
  let ?f = "\<lambda>u doc l. (u, mapped_loc (at + image_place l (fst (image_starts s)) (fst (snd (image_starts s)))) (plen l))"
  have ixi: "ix_inv (index s)" using assms(1) by (simp add: store_inv_def)
  note P = image_placed [OF assms(1,2)]
  have run: "run_each ?f () (live_locs (index s)) = ((), map (entry_loc at) ?es)"
    using run_image [OF iter_dom [OF assms(1)]] by (simp add: live_locs_def)
  obtain u ix where r: "ix_relocate ?f () (index s) = (u, ix)" by (rule prod.exhaust)
  have "at + length (image_bytes s) < 2 ^ 63 - 2 ^ 32" using at_pos_le [OF assms(3)] assms(4) by simp
  from ix_relocate_spec [OF ixi r] placed_not_empty [OF P this] run
  have ix: "ix_inv ix" "ix_get ix = map_of (map (entry_loc at) ?es)" by (auto simp flip: map_of_live_locs)
  obtain a b c where i: "image_starts s = (a, b, c)" by (metis prod_cases3)
  have t: "relocate_image fl at s = s\<lparr>index := ix, base := Some (fl, [(at, length (image_bytes s))]), segments := [seg_default]\<rparr>"
    using r located_image(4) [OF assms(2)] by (simp add: relocate_image_def i)
  show ?thesis
    by (rule placed_inv [OF assms(1) P places_iter(1) [OF ixi] assms(3,4)])
      (use ix inv_next_id [OF assms(1)] in \<open>auto simp: t\<close>)
qed

lemma relocate_live_spec:
  assumes "store_inv s" "at_pos fl at (live_bytes s)" "length fl < 2 ^ 63 - 2 ^ 32"
  shows "store_inv (relocate_live fl at s) \<and> located (relocate_live fl at s)
     \<and> store_map (relocate_live fl at s) = store_map s
     \<and> total_bytes (relocate_live fl at s) = length (live_bytes s) \<and> dead_bytes (relocate_live fl at s) = 0"
proof -
  let ?es = "index_places s True 0 (ix_iter (index s))"
  let ?f = "\<lambda>to_at doc l. (let p = to_at + length (put_head doc (unat (plen l))) in (p + unat (plen l), mapped_loc p (plen l)))"
  have ixi: "ix_inv (index s)" using assms(1) by (simp add: store_inv_def)
  note P = live_placed [OF assms(1)]
  have len: "live_len s = length (live_bytes s)" using live_image(2) [OF assms(1)] by (simp add: live_bytes_def)
  have run: "run_each ?f at (live_locs (index s)) = (at + length (live_bytes s), map (entry_loc at) ?es)"
    using run_live [OF iter_dom [OF assms(1)], of at 0] len by (simp add: live_locs_def live_len_def)
  obtain u ix where r: "ix_relocate ?f at (index s) = (u, ix)" by (rule prod.exhaust)
  have "at + length (live_bytes s) < 2 ^ 63 - 2 ^ 32" using at_pos_le [OF assms(2)] assms(3) by simp
  from ix_relocate_spec [OF ixi r] placed_not_empty [OF P this] run
  have ix: "ix_inv ix" "ix_get ix = map_of (map (entry_loc at) ?es)" "u = at + length (live_bytes s)"
    by (auto simp flip: map_of_live_locs)
  have t: "relocate_live fl at s = s\<lparr>index := ix, total_bytes := length (live_bytes s), dead_bytes := 0,
      base := Some (fl, [(at, length (live_bytes s))]), segments := [seg_default]\<rparr>"
    using r ix(3) by (simp add: relocate_live_def)
  have "store_inv (relocate_live fl at s) \<and> located (relocate_live fl at s) \<and> store_map (relocate_live fl at s) = store_map s"
    by (rule placed_inv [OF assms(1) P places_iter(1) [OF ixi] assms(2,3)])
      (use ix inv_next_id [OF assms(1)] in \<open>auto simp: t\<close>)
  then show ?thesis by (simp add: t)
qed

lemma sorted_le_last: "sorted_wrt (<) xs \<Longrightarrow> x \<in> set xs \<Longrightarrow> x \<le> last xs" for x :: nat
  by (induction xs) (auto intro: less_imp_le)

lemma adopt_index_spec:
  assumes "store_inv s" "placed s img es" "map fst es = ix_iter (index s)" "at_pos fl at img"
    and "length fl < 2 ^ 62" "length ends < 2 ^ 32" "dead \<le> length img" "length es < 2 ^ 64"
    and "store_inv t" "ix_len (index t) = 0" "base t = None" "total_bytes t = 0"
    and "adopt_index fl at (length img) (index_body (length img) dead es @ index_tail ends) t = (t', r)"
  shows "r \<and> store_inv t' \<and> located t' \<and> store_map t' = store_map s
     \<and> total_bytes t' = length img \<and> dead_bytes t' = dead"
proof -
  have I: "sorted_wrt (<) (ix_iter (index s))" "set (ix_iter (index s)) = dom (store_map s)"
    using ix_iter_sorted [of "index s"] assms(1) store_map_dom [OF assms(1)] by (auto simp: store_inv_def)
  note N = inv_next_id [OF assms(1)]
  have sorted: "sorted_wrt (<) (0 # map fst es)" unfolding assms(3) using I N by fastforce
  have le: "at + length img \<le> length fl" using at_pos_le [OF assms(4)] .
  have ok: "entries_ok (length img) es"
    unfolding entries_ok_def
  proof (clarify)
    fix doc pos n
    assume e: "(doc, pos, n) \<in> set es"
    obtain p where p: "store_map s doc = Some p" "n = length p" "0 < pos" "pos + n \<le> length img"
      by (rule placedD [OF assms(2) e])
    then obtain l where "payload s l = Ok p" by (auto simp: store_map_Some_iff)
    then have "n < 2 ^ 32" using payload_length p(2) by fastforce
    moreover have "doc < 2 ^ 64" using p(1) N by (meson domI less_trans)
    ultimately show "doc < 2 ^ 64 \<and> n < 2 ^ 32 \<and> 0 < pos \<and> pos + n \<le> length img" using p by simp
  qed
  have len: "length img < 2 ^ 62" "at + length img < 2 ^ 63 - 2 ^ 32" using le assms(5) by simp_all
  obtain fresh where t': "r" "t' = t\<lparr>index := fresh, total_bytes := length img, dead_bytes := dead,
      next_id := max (next_id t) ((last (0 # map fst es) + 1) mod 2 ^ 64), base := Some (fl, [(at, length img)])\<rparr>"
    and fresh: "ix_inv fresh" "ix_get fresh = map_of (map (entry_loc at) es)"
    using adopt_index_written [OF assms(10-12,6) len assms(7) sorted ok assms(8), of fl] assms(13) by auto
  have last: "last (0 # map fst es) + 1 < 2 ^ 64"
  proof (cases "es = []")
    case False
    then have "last (map fst es) \<in> dom (store_map s)" using I(2) assms(3) by (metis last_in_set list.map_disc_iff)
    then have "last (map fst es) < next_id s" "next_id s < 2 ^ 64" using N by blast+
    then have "last (map fst es) + 1 < 2 ^ 64" by linarith
    then show ?thesis using False by simp
  qed simp
  have below: "doc < next_id t'" if "doc \<in> dom (store_map s)" for doc
  proof -
    have "doc \<in> set (map fst es)" using that I(2) assms(3) by simp
    then have "doc \<le> last (0 # map fst es)" using sorted_le_last [OF sorted] by simp
    then show ?thesis using last t'(2) by simp
  qed
  have "store_inv t' \<and> located t' \<and> store_map t' = store_map s"
    by (rule placed_inv [OF assms(1-4)])
      (use assms(5,9) fresh last below in \<open>auto simp: t'(2) store_inv_def\<close>)
  then show ?thesis using t' by simp
qed

lemma append_located:
  assumes "store_inv s" "located s" "heap_bytes s < 2 ^ 53" "frame_ok (op, doc, p)"
  shows "located (fst (append op doc p s))"
proof -
  let ?s = "fst (append op doc p s)"
  have f: "frame op doc p = head_of (op, doc, p) @ p" using frame_of_head [of "(op, doc, p)"] by simp
  note L = land_frame_spec [OF assms(1,3) f length_head(1) assms(4)]
  have s': "?s = land_frame op doc (frame op doc p) (length p) s" by (simp add: append_def)
  have base: "base ?s = base s" unfolding s' by (rule L(4))
  have get: "ix_get (index s) d = Some l \<or> (\<not> is_mapped_loc l \<and> 0 < unat (off l))"
    if "ix_get (index ?s) d = Some l" for d l
    using that L(7) [of d] L(8) [of l] length_head(2) [of "(op, doc, p)"] unfolding s'
    by (cases "d = doc") auto
  show ?thesis
    using assms(2) get unfolding located_def base by (meson | force)+
qed

lemma located_new: "located store_new"
  using ix.get_empty by (simp add: located_def store_new_def)

section \<open>Properties\<close>

definition image_demo :: store where
  "image_demo = fst (append op_put 5 [9] store_new)"

lemma image_demo_ok: "store_inv image_demo" "located image_demo" "heap_bytes store_new < 2 ^ 53"
proof -
  have n: "store_inv store_new" using store_new_logs by (simp add: logs_def)
  show h: "heap_bytes store_new < 2 ^ 53" by code_simp
  have f: "frame_ok (op_put, 5, [9])" by simp
  show "store_inv image_demo" using append_logs [OF store_new_logs _ f] by (simp add: image_demo_def logs_def)
  show "located image_demo" using append_located [OF n located_new h f] by (simp add: image_demo_def)
qed

text \<open>
  C15: the index an image carries gives an open the store the image was taken of, whether the
  image is the frames as they stand or the live ones framed afresh: every document reads the
  same from the file, the record's length and its dead bytes are the ones written, and the
  index is adopted.
\<close>

theorem adopt_index_restores:
  assumes "store_inv s" "located s" "dead_bytes s \<le> length (image_bytes s)" "ix_len (index s) < 2 ^ 32 - 1"
    and "img = (if live then live_bytes s else image_bytes s)" "at_pos fl at img" "length fl < 2 ^ 62"
    and "store_inv t" "ix_len (index t) = 0" "base t = None" "total_bytes t = 0"
    and "adopt_index fl at (length img) (drop (length prior) (image_index s live prior)) t = (t', r)"
  shows "r \<and> store_inv t' \<and> located t' \<and> store_map t' = store_map s
     \<and> total_bytes t' = length img \<and> dead_bytes t' = (if live then 0 else dead_bytes s)"
proof -
  let ?es = "index_places s live 0 (ix_iter (index s))"
  have ixi: "ix_inv (index s)" using assms(1) by (simp add: store_inv_def)
  have len: "(if live then live_len s else snd (snd (image_starts s))) = length img"
    using live_image(2) [OF assms(1)] located_image(4) [OF assms(2)] assms(5) by (simp add: live_bytes_def)
  obtain ends where e: "length ends \<le> Suc (ix_len (index s))"
    "drop (length prior) (image_index s live prior)
      = index_body (length img) (if live then 0 else dead_bytes s) ?es @ index_tail ends"
    using image_index_shape [OF ixi, of live prior] len by auto
  have pl: "placed s img ?es" using live_placed [OF assms(1)] image_placed [OF assms(1,2)] assms(5) by (cases live) auto
  show ?thesis
    by (rule adopt_index_spec [OF assms(1) pl places_iter(1) [OF ixi] assms(6,7) _ _ _ assms(8-11)
          assms(12) [unfolded e(2)]])
      (use e(1) assms(3,4,5) places_iter(2) [OF ixi] in auto)
qed

theorem adopt_index_restores_witness:
  "snd (adopt_index [0, 0, 1, 5, 1, 9] 2 (length (image_bytes image_demo)) (drop (length [7 :: u8]) (image_index image_demo False [7])) store_new)
     \<and> store_inv (fst (adopt_index [0, 0, 1, 5, 1, 9] 2 (length (image_bytes image_demo)) (drop (length [7 :: u8]) (image_index image_demo False [7])) store_new))
     \<and> located (fst (adopt_index [0, 0, 1, 5, 1, 9] 2 (length (image_bytes image_demo)) (drop (length [7 :: u8]) (image_index image_demo False [7])) store_new))
     \<and> store_map (fst (adopt_index [0, 0, 1, 5, 1, 9] 2 (length (image_bytes image_demo)) (drop (length [7 :: u8]) (image_index image_demo False [7])) store_new))
       = store_map image_demo
     \<and> total_bytes (fst (adopt_index [0, 0, 1, 5, 1, 9] 2 (length (image_bytes image_demo)) (drop (length [7 :: u8]) (image_index image_demo False [7])) store_new))
       = length (image_bytes image_demo)
     \<and> dead_bytes (fst (adopt_index [0, 0, 1, 5, 1, 9] 2 (length (image_bytes image_demo)) (drop (length [7 :: u8]) (image_index image_demo False [7])) store_new))
       = (if False then 0 else dead_bytes image_demo)"
proof (rule adopt_index_restores [OF image_demo_ok(1,2)])
  have img: "image_bytes image_demo = [1, 5, 1, 9]" by code_simp
  show "image_bytes image_demo = (if False then live_bytes image_demo else image_bytes image_demo)" by simp
  show "at_pos [0, 0, 1, 5, 1, 9] 2 (image_bytes image_demo)" unfolding img by code_simp
  show "dead_bytes image_demo \<le> length (image_bytes image_demo)" "ix_len (index image_demo) < 2 ^ 32 - 1" by code_simp+
  show "store_inv store_new" using store_new_logs by (simp add: logs_def)
  show "adopt_index [0, 0, 1, 5, 1, 9] 2 (length (image_bytes image_demo)) (drop (length [7 :: u8]) (image_index image_demo False [7])) store_new
      = (fst (adopt_index [0, 0, 1, 5, 1, 9] 2 (length (image_bytes image_demo)) (drop (length [7 :: u8]) (image_index image_demo False [7])) store_new),
         snd (adopt_index [0, 0, 1, 5, 1, 9] 2 (length (image_bytes image_demo)) (drop (length [7 :: u8]) (image_index image_demo False [7])) store_new))"
    by (rule prod.collapse [symmetric])
qed (simp_all add: store_new_def ix_len_def ix_default_def)

definition share_bytes :: bytes where
  "share_bytes = put_uvarint 1 @ put_uvarint 2 @ put_uvarint 0 @ put_uvarint 1 @ put_uvarint 1 @ put_uvarint 0"

lemma share_demo: "adopt_shares share_bytes 0 (concat (map put_mark [(6, 2, 9)])) 2 100 20
    = Some (\<lparr>dense = [mapped_loc 103 2, mapped_loc 108 1], sparse = [], sparse_floor = 0, count = 2\<rparr>, 2)"
proof -
  have "read_marks 0 (concat (map put_mark [(6, 2, 9)])) = [(0, 0, 0), (6, 2, 9)]" by (subst read_marks_put) simp_all
  moreover have "share share_bytes 2 100 20 [(0, 0, 0), (6, 2, 9)] 0 = Some [mapped_loc 103 2, mapped_loc 108 1]"
    by code_simp
  moreover have "length share_bytes = 6" "div_ceil 2 index_share = 1" by code_simp+
  ultimately show ?thesis by (simp add: adopt_shares_def Let_def)
qed
text \<open>
  C16: an index read a share at a time on many threads is the index read in turn, whatever its
  bytes: where the shares give an id index, the documents in turn give one with the same
  documents at the same places, and the same last id.
\<close>

theorem shares_read_in_turn:
  assumes "adopt_shares ds p ends cnt at len = Some (fresh, doc)" "at + len < 2 ^ 63 - 2 ^ 32"
  shows "ix_inv fresh \<and> (\<exists>ix. adopt_in_turn ds p cnt at len = Some (ix, doc) \<and> ix_get ix = ix_get fresh)"
  by (rule adopt_shares_in_turn [OF assms])

theorem shares_read_in_turn_witness:
  "ix_inv \<lparr>dense = [mapped_loc 103 2, mapped_loc 108 1], sparse = [], sparse_floor = 0, count = 2\<rparr>
   \<and> (\<exists>ix. adopt_in_turn share_bytes 0 2 100 20 = Some (ix, 2)
       \<and> ix_get ix = ix_get \<lparr>dense = [mapped_loc 103 2, mapped_loc 108 1], sparse = [], sparse_floor = 0, count = 2\<rparr>)"
proof (rule shares_read_in_turn [OF share_demo])
qed simp

text \<open>
  C17: pointing a store at the file its image was written into -- the frames as they stand after
  a checkpoint, the live ones after a rewrite -- moves every location and no document: each
  reads the same from the file, with nothing left in memory.
\<close>

theorem relocate_keeps_documents:
  assumes "store_inv s" "located s" "at_pos fl at (image_bytes s)" "at_pos gl at' (live_bytes s)"
    "length fl < 2 ^ 63 - 2 ^ 32" "length gl < 2 ^ 63 - 2 ^ 32"
  shows "store_inv (relocate_image fl at s) \<and> located (relocate_image fl at s)
     \<and> store_map (relocate_image fl at s) = store_map s \<and> heap_bytes (relocate_image fl at s) = 0
     \<and> store_inv (relocate_live gl at' s) \<and> located (relocate_live gl at' s)
     \<and> store_map (relocate_live gl at' s) = store_map s \<and> heap_bytes (relocate_live gl at' s) = 0
     \<and> total_bytes (relocate_live gl at' s) = length (live_bytes s)"
proof -
  have "heap_bytes (relocate_image fl at s) = 0" "heap_bytes (relocate_live gl at' s) = 0"
    by (simp_all add: relocate_image_def relocate_live_def heap_bytes_def seg_default_def split: prod.splits)
  then show ?thesis
    using relocate_image_spec [OF assms(1-3,5)] relocate_live_spec [OF assms(1,4,6)] by simp
qed

theorem relocate_keeps_documents_witness:
  "store_inv (relocate_image [0, 1, 5, 1, 9] 1 image_demo) \<and> located (relocate_image [0, 1, 5, 1, 9] 1 image_demo)
     \<and> store_map (relocate_image [0, 1, 5, 1, 9] 1 image_demo) = store_map image_demo
     \<and> heap_bytes (relocate_image [0, 1, 5, 1, 9] 1 image_demo) = 0
     \<and> store_inv (relocate_live [1, 5, 1, 9] 0 image_demo) \<and> located (relocate_live [1, 5, 1, 9] 0 image_demo)
     \<and> store_map (relocate_live [1, 5, 1, 9] 0 image_demo) = store_map image_demo
     \<and> heap_bytes (relocate_live [1, 5, 1, 9] 0 image_demo) = 0
     \<and> total_bytes (relocate_live [1, 5, 1, 9] 0 image_demo) = length (live_bytes image_demo)"
proof (rule relocate_keeps_documents [OF image_demo_ok(1,2)])
  have "image_bytes image_demo = [1, 5, 1, 9]" "live_bytes image_demo = [1, 5, 1, 9]" by code_simp+
  then show "at_pos [0, 1, 5, 1, 9] 1 (image_bytes image_demo)" "at_pos [1, 5, 1, 9] 0 (live_bytes image_demo)"
    by (simp_all add: at_pos_def)
qed simp_all

end
