(* ===== verification/Fenec_Changes.thy ===== *)
theory Fenec_Changes
  imports Fenec_Value
begin

text \<open>
  The change feed (\<open>fenec-core/src/changes.rs\<close>): a ring of marks \<open>(seq, cid, id)\<close>, the
  counter and the horizon, the smallest cursor the ring still serves. The ring is a list,
  oldest mark first; \<open>seq\<close> and \<open>horizon\<close> are the machine's 64-bit words.

  The abstract specification is the whole write log since the last reset, which the code never
  keeps: \<open>feed_writes\<close>. \<open>feed_run_ok\<close> says the ring is its last part over any operations, and
  the claims are about what a subscriber gets: exactly the ids written after its cursor, never
  a cut set, and no reseed as long as it is not further behind than the ring is long.
\<close>

section \<open>The log\<close>

definition default_capacity :: usize where "default_capacity = 4096"

definition schema_mark :: docid where "schema_mark = 0"

record change_mark =
  mark_seq :: u64
  mark_cid :: u32
  mark_id :: docid

datatype since_result = Reseed | Ids "docid list"

record change_log =
  ring :: "change_mark list"
  log_cap :: usize
  log_seq :: u64
  log_horizon :: u64

definition log_new :: "usize \<Rightarrow> change_log" where
  "log_new cap = \<lparr>ring = [], log_cap = max cap 1, log_seq = 0, log_horizon = 0\<rparr>"

definition log_default :: change_log where
  "log_default = log_new default_capacity"

definition evict :: "change_log \<Rightarrow> change_log" where
  "evict l = (case ring l of
       [] \<Rightarrow> l
     | m # ms \<Rightarrow> l\<lparr>ring := ms, log_horizon := max (log_horizon l) (mark_seq m)\<rparr>)"

lemma ring_evict [simp]: "ring (evict l) = tl (ring l)"
  and log_cap_evict [simp]: "log_cap (evict l) = log_cap l"
  and log_seq_evict [simp]: "log_seq (evict l) = log_seq l"
  by (auto simp: evict_def split: list.split)

text \<open>The \<open>while\<close> of \<open>set_capacity\<close>: the ring shortens by one a turn.\<close>

function evict_while :: "usize \<Rightarrow> change_log \<Rightarrow> change_log" where
  "evict_while cap l = (if length (ring l) > cap then evict_while cap (evict l) else l)"
  by pat_completeness auto
termination
  by (relation "measure (\<lambda>(cap, l). length (ring l))") auto

declare evict_while.simps [simp del]

definition set_capacity :: "usize \<Rightarrow> change_log \<Rightarrow> change_log" where
  "set_capacity cap l = (let c = max cap 1 in evict_while c (l\<lparr>log_cap := c\<rparr>))"

definition log_reset :: "u64 \<Rightarrow> change_log \<Rightarrow> change_log" where
  "log_reset s l = l\<lparr>ring := [], log_seq := s, log_horizon := s\<rparr>"

definition log_record :: "u32 \<Rightarrow> docid \<Rightarrow> change_log \<Rightarrow> change_log \<times> u64" where
  "log_record cid i l =
     (let s = log_seq l + 1;
          l1 = l\<lparr>log_seq := s\<rparr>;
          l2 = (if length (ring l1) = log_cap l1 then evict l1 else l1)
      in (l2\<lparr>ring := ring l2 @ [\<lparr>mark_seq = s, mark_cid = cid, mark_id = i\<rparr>]\<rparr>, s))"

text \<open>\<open>sort_unstable\<close> and \<open>dedup\<close>.\<close>

definition sort_dedup :: "'a::linorder list \<Rightarrow> 'a list" where
  "sort_dedup xs = remdups_adj (sort xs)"

definition log_since :: "u64 \<Rightarrow> u32 \<Rightarrow> change_log \<Rightarrow> since_result" where
  "log_since since cid l =
     (if since > log_seq l \<or> since < log_horizon l then Reseed
      else let start = partition_point (\<lambda>m. mark_seq m \<le> since) (ring l)
           in Ids (sort_dedup (map mark_id (filter (\<lambda>m. mark_cid m = cid) (drop start (ring l))))))"

definition changed_collections :: "u64 \<Rightarrow> change_log \<Rightarrow> u32 list option" where
  "changed_collections since l =
     (if since > log_seq l \<or> since < log_horizon l then None
      else let start = partition_point (\<lambda>m. mark_seq m \<le> since) (ring l)
           in Some (map ucast (sort_dedup
                (map (\<lambda>m. ucast (mark_cid m) :: u64) (drop start (ring l))))))"

section \<open>The write log it stands for\<close>

text \<open>
  What happens to a log, and the specification: where the counter was last set, and every
  write since, oldest first.
\<close>

datatype feed_op = Record_write u32 docid | Set_capacity usize | Reset_to u64

fun feed_step :: "feed_op \<Rightarrow> change_log \<Rightarrow> change_log" where
  "feed_step (Record_write cid i) l = fst (log_record cid i l)"
| "feed_step (Set_capacity n) l = set_capacity n l"
| "feed_step (Reset_to s) l = log_reset s l"

record feed_spec =
  feed_base :: nat
  feed_writes :: "(u32 \<times> docid) list"

fun spec_step :: "feed_op \<Rightarrow> feed_spec \<Rightarrow> feed_spec" where
  "spec_step (Record_write cid i) a = a\<lparr>feed_writes := feed_writes a @ [(cid, i)]\<rparr>"
| "spec_step (Set_capacity n) a = a"
| "spec_step (Reset_to s) a = \<lparr>feed_base = unat s, feed_writes = []\<rparr>"

definition feed_run :: "feed_op list \<Rightarrow> change_log \<Rightarrow> change_log" where
  "feed_run ops l = fold feed_step ops l"

definition spec_run :: "feed_op list \<Rightarrow> feed_spec" where
  "spec_run ops = fold spec_step ops \<lparr>feed_base = 0, feed_writes = []\<rparr>"

text \<open>The counter never passes the end of its type on the way.\<close>

fun feed_fits :: "feed_op list \<Rightarrow> feed_spec \<Rightarrow> bool" where
  "feed_fits [] a = True"
| "feed_fits (oper # ops) a =
     (let b = spec_step oper a in feed_base b + length (feed_writes b) < 2 ^ 64 \<and> feed_fits ops b)"

text \<open>The writes after a cursor.\<close>

definition written_after :: "nat \<Rightarrow> feed_spec \<Rightarrow> (u32 \<times> docid) list" where
  "written_after c a = drop (c - feed_base a) (feed_writes a)"

definition mark_of :: "nat \<Rightarrow> nat \<Rightarrow> (u32 \<times> docid) \<Rightarrow> change_mark" where
  "mark_of base k w = \<lparr>mark_seq = word_of_nat (base + k + 1), mark_cid = fst w, mark_id = snd w\<rparr>"

text \<open>The log holds the last part of the writes, from write \<open>gone\<close> on, numbered by the counter.\<close>

definition feed_rel :: "feed_spec \<Rightarrow> change_log \<Rightarrow> bool" where
  "feed_rel a l \<longleftrightarrow>
     feed_base a + length (feed_writes a) < 2 ^ 64 \<and>
     unat (log_seq l) = feed_base a + length (feed_writes a) \<and>
     0 < log_cap l \<and> length (ring l) \<le> log_cap l \<and>
     length (ring l) \<le> length (feed_writes a) \<and>
     unat (log_horizon l) = unat (log_seq l) - length (ring l) \<and>
     ring l = drop (length (feed_writes a) - length (ring l))
       (map (\<lambda>k. mark_of (feed_base a) k (feed_writes a ! k)) [0..<length (feed_writes a)])"

definition marks_of :: "feed_spec \<Rightarrow> change_mark list" where
  "marks_of a = map (\<lambda>k. mark_of (feed_base a) k (feed_writes a ! k)) [0..<length (feed_writes a)]"

lemma length_marks_of [simp]: "length (marks_of a) = length (feed_writes a)"
  by (simp add: marks_of_def)

lemma nth_marks_of [simp]:
  "k < length (feed_writes a) \<Longrightarrow> marks_of a ! k = mark_of (feed_base a) k (feed_writes a ! k)"
  by (simp add: marks_of_def)

lemma marks_of_snoc:
  "marks_of (a\<lparr>feed_writes := feed_writes a @ [w]\<rparr>)
     = marks_of a @ [mark_of (feed_base a) (length (feed_writes a)) w]"
  by (rule nth_equalityI) (auto simp: nth_append less_Suc_eq marks_of_def)

lemma feed_relI:
  assumes "n \<le> length (feed_writes a)" "ring l = drop n (marks_of a)"
    and "unat (log_horizon l) = feed_base a + n"
    and "unat (log_seq l) = feed_base a + length (feed_writes a)"
    and "length (feed_writes a) - n \<le> log_cap l" "0 < log_cap l"
    and "feed_base a + length (feed_writes a) < 2 ^ 64"
  shows "feed_rel a l"
  using assms by (auto simp: feed_rel_def marks_of_def)

lemma feed_relE:
  assumes "feed_rel a l"
  obtains n where "n \<le> length (feed_writes a)" "ring l = drop n (marks_of a)"
    "unat (log_horizon l) = feed_base a + n"
    "unat (log_seq l) = feed_base a + length (feed_writes a)"
    "length (feed_writes a) - n \<le> log_cap l" "0 < log_cap l"
    "feed_base a + length (feed_writes a) < 2 ^ 64"
proof
  let ?n = "length (feed_writes a) - length (ring l)"
  show "ring l = drop ?n (marks_of a)" using assms by (simp add: feed_rel_def marks_of_def)
qed (use assms in \<open>auto simp: feed_rel_def\<close>)

lemma unat_mark_seq:
  "feed_base a + length (feed_writes a) < 2 ^ 64 \<Longrightarrow> k < length (feed_writes a) \<Longrightarrow>
   unat (mark_seq (mark_of (feed_base a) k w)) = feed_base a + k + 1"
  unfolding mark_of_def by (simp only: change_mark.simps) (intro unat_of_nat_u64, linarith)

section \<open>Every operation keeps the ring the last part of the write log\<close>

lemma evict_front:
  assumes "n < length (feed_writes a)" "ring l = drop n (marks_of a)"
    and "unat (log_horizon l) = feed_base a + n" "feed_base a + length (feed_writes a) < 2 ^ 64"
  shows "ring (evict l) = drop (Suc n) (marks_of a)"
    and "unat (log_horizon (evict l)) = feed_base a + Suc n"
proof -
  have c: "ring l = mark_of (feed_base a) n (feed_writes a ! n) # drop (Suc n) (marks_of a)"
    using assms(1,2) by (simp add: Cons_nth_drop_Suc [symmetric])
  then show "ring (evict l) = drop (Suc n) (marks_of a)" by simp
  have "unat (mark_seq (mark_of (feed_base a) n (feed_writes a ! n))) = feed_base a + n + 1"
    using assms by (intro unat_mark_seq)
  then show "unat (log_horizon (evict l)) = feed_base a + Suc n"
    using c assms(3) by (simp add: evict_def max_def word_le_nat_alt)
qed

lemma evict_while_rel:
  assumes "n \<le> length (feed_writes a)" "ring l = drop n (marks_of a)"
    and "unat (log_horizon l) = feed_base a + n"
    and "unat (log_seq l) = feed_base a + length (feed_writes a)"
    and "feed_base a + length (feed_writes a) < 2 ^ 64" "cap = log_cap l" "0 < cap"
  shows "feed_rel a (evict_while cap l)"
  using assms
proof (induction cap l arbitrary: n rule: evict_while.induct)
  case (1 cap l)
  show ?case
  proof (cases "length (ring l) > cap")
    case True
    then have n: "n < length (feed_writes a)" using 1 by simp
    note e = evict_front [OF n 1(3,4) 1(6)]
    have "feed_rel a (evict_while cap (evict l))"
      by (rule "1.IH" [OF True, of "Suc n"]) (use n e 1 in simp_all)
    with True show ?thesis by (subst evict_while.simps) simp
  next
    case False
    with 1 show ?thesis by (subst evict_while.simps) (auto intro: feed_relI [of n])
  qed
qed

lemma set_capacity_rel: "feed_rel a l \<Longrightarrow> feed_rel a (set_capacity cap l)"
  unfolding set_capacity_def Let_def
  by (erule feed_relE) (rule evict_while_rel, auto)

lemma log_reset_rel:
  "0 < log_cap l \<Longrightarrow> feed_rel \<lparr>feed_base = unat s, feed_writes = []\<rparr> (log_reset s l)"
  by (rule feed_relI [of 0]) (simp_all add: log_reset_def marks_of_def)

lemma log_record_rel:
  assumes "feed_rel a l" and fits: "feed_base a + length (feed_writes a) + 1 < 2 ^ 64"
  shows "feed_rel (a\<lparr>feed_writes := feed_writes a @ [(cid, i)]\<rparr>) (fst (log_record cid i l))"
    and "unat (snd (log_record cid i l)) = feed_base a + length (feed_writes a) + 1"
proof -
  from assms(1) obtain n where n: "n \<le> length (feed_writes a)" "ring l = drop n (marks_of a)"
    "unat (log_horizon l) = feed_base a + n"
    and sq: "unat (log_seq l) = feed_base a + length (feed_writes a)"
    and cap: "length (feed_writes a) - n \<le> log_cap l" "0 < log_cap l"
    and lim: "feed_base a + length (feed_writes a) < 2 ^ 64" by (rule feed_relE)
  define s where "s = log_seq l + 1"
  have us: "unat s = feed_base a + length (feed_writes a) + 1"
    using sq fits unfolding s_def by (simp add: unat_word_ariths)
  have s: "s = word_of_nat (feed_base a + length (feed_writes a) + 1)"
    by (simp only: us [symmetric] of_nat_unat ucast_id)
  then show "unat (snd (log_record cid i l)) = feed_base a + length (feed_writes a) + 1"
    using us by (simp add: log_record_def Let_def s_def [symmetric])
  let ?m = "\<lparr>mark_seq = s, mark_cid = cid, mark_id = i\<rparr>"
  have m: "?m = mark_of (feed_base a) (length (feed_writes a)) (cid, i)" by (simp add: mark_of_def s)
  define l1 where "l1 = l\<lparr>log_seq := s\<rparr>"
  define l2 where "l2 = (if length (ring l1) = log_cap l1 then evict l1 else l1)"
  have r: "fst (log_record cid i l) = l2\<lparr>ring := ring l2 @ [?m]\<rparr>"
    by (simp add: log_record_def Let_def l1_def l2_def s_def)
  have l2: "\<exists>k\<le>length (feed_writes a). ring l2 = drop k (marks_of a)
      \<and> unat (log_horizon l2) = feed_base a + k \<and> length (feed_writes a) - k < log_cap l2"
  proof (cases "length (ring l1) = log_cap l1")
    case True
    with n cap have lt: "n < length (feed_writes a)" by (simp add: l1_def)
    have "ring l1 = drop n (marks_of a)" "unat (log_horizon l1) = feed_base a + n"
      using n by (simp_all add: l1_def)
    note e = evict_front [OF lt this lim]
    from True e lt cap n show ?thesis
      by (intro exI [of _ "Suc n"]) (auto simp: l2_def l1_def)
  next
    case False
    with n cap show ?thesis by (intro exI [of _ n]) (auto simp: l2_def l1_def)
  qed
  have f: "log_seq l2 = s" "log_cap l2 = log_cap l" by (auto simp: l2_def l1_def)
  from l2 obtain k where k: "k \<le> length (feed_writes a)" "ring l2 = drop k (marks_of a)"
    "unat (log_horizon l2) = feed_base a + k" "length (feed_writes a) - k < log_cap l2" by blast
  show "feed_rel (a\<lparr>feed_writes := feed_writes a @ [(cid, i)]\<rparr>) (fst (log_record cid i l))"
    unfolding r by (rule feed_relI [of k]) (use k f us fits in \<open>auto simp: marks_of_snoc m\<close>)
qed

lemma feed_step_rel:
  assumes "feed_rel a l" "feed_base (spec_step oper a) + length (feed_writes (spec_step oper a)) < 2 ^ 64"
  shows "feed_rel (spec_step oper a) (feed_step oper l)"
proof (cases oper)
  case (Record_write cid i)
  with assms show ?thesis by (simp add: log_record_rel)
next
  case (Set_capacity n)
  with assms show ?thesis by (simp add: set_capacity_rel)
next
  case (Reset_to s)
  from assms have "0 < log_cap l" by (rule_tac feed_relE)
  with Reset_to show ?thesis by (simp add: log_reset_rel)
qed

lemma feed_fold_rel:
  "feed_rel a l \<Longrightarrow> feed_fits ops a \<Longrightarrow> feed_rel (fold spec_step ops a) (fold feed_step ops l)"
  by (induction ops arbitrary: a l) (simp_all add: Let_def feed_step_rel)

lemma feed_run_ok:
  "feed_fits ops \<lparr>feed_base = 0, feed_writes = []\<rparr> \<Longrightarrow> feed_rel (spec_run ops) (feed_run ops (log_new cap))"
  unfolding feed_run_def spec_run_def
  by (rule feed_fold_rel) (auto intro!: feed_relI [of 0] simp: log_new_def marks_of_def)

section \<open>What a cursor is given\<close>

lemma remdups_adj_strict:
  fixes xs :: "'a::linorder list"
  shows "sorted xs \<Longrightarrow> sorted_wrt (<) (remdups_adj xs)"
  by (induction xs rule: remdups_adj.induct) (auto simp: order_less_le)

lemma sort_dedup_set: "sort_dedup xs = sorted_list_of_set (set xs)"
  by (rule strict_sorted_equal) (simp_all add: sort_dedup_def remdups_adj_strict)

lemma written_sets:
  "map mark_id (filter (\<lambda>m. mark_cid m = cid) (drop k (marks_of a)))
     = map snd (filter (\<lambda>w. fst w = cid) (drop k (feed_writes a)))"
  "map mark_cid (drop k (marks_of a)) = map fst (drop k (feed_writes a))"
proof -
  have "drop k (marks_of a)
      = map (\<lambda>j. mark_of (feed_base a) j (feed_writes a ! j)) [k..<length (feed_writes a)]"
    by (simp add: marks_of_def drop_map)
  moreover have "drop k (feed_writes a) = map (\<lambda>j. feed_writes a ! j) [k..<length (feed_writes a)]"
    by (rule nth_equalityI) auto
  ultimately show "map mark_id (filter (\<lambda>m. mark_cid m = cid) (drop k (marks_of a)))
     = map snd (filter (\<lambda>w. fst w = cid) (drop k (feed_writes a)))"
    and "map mark_cid (drop k (marks_of a)) = map fst (drop k (feed_writes a))"
    by (simp_all add: filter_map comp_def mark_of_def)
qed

lemma drop_served:
  assumes n: "n \<le> length (feed_writes a)" and c: "feed_base a + n \<le> unat c"
    and u: "unat c \<le> feed_base a + length (feed_writes a)"
    and lim: "feed_base a + length (feed_writes a) < 2 ^ 64"
  shows "drop (partition_point (\<lambda>m. mark_seq m \<le> c) (drop n (marks_of a))) (drop n (marks_of a))
     = drop (unat c - feed_base a) (marks_of a)"
proof -
  let ?P = "\<lambda>m. mark_seq m \<le> c" and ?xs = "drop n (marks_of a)"
  have iff: "?P (?xs ! j) \<longleftrightarrow> feed_base a + (n + j) < unat c" if "j < length ?xs" for j
    using that lim n unat_mark_seq [OF lim, of "n + j"] by (auto simp: word_le_nat_alt)
  have s: "sorted_wrt (\<lambda>x y. ?P y \<longrightarrow> ?P x) ?xs"
    unfolding sorted_wrt_iff_nth_less using iff by auto
  obtain k where k: "unat c = feed_base a + n + k" using c le_Suc_ex by blast
  have "partition_point ?P ?xs = k"
    by (rule partition_point_unique [OF s]) (use k u iff in auto)
  with k show ?thesis by (simp add: add.commute)
qed

lemma log_since_rel:
  assumes "feed_rel a l"
  shows "log_since c cid l =
     (if c \<le> log_seq l \<and> log_horizon l \<le> c
      then Ids (sorted_list_of_set {i. (cid, i) \<in> set (written_after (unat c) a)}) else Reseed)"
proof (cases "c \<le> log_seq l \<and> log_horizon l \<le> c")
  case True
  from assms obtain n where n: "n \<le> length (feed_writes a)" "ring l = drop n (marks_of a)"
    "unat (log_horizon l) = feed_base a + n"
    and sq: "unat (log_seq l) = feed_base a + length (feed_writes a)"
    and lim: "feed_base a + length (feed_writes a) < 2 ^ 64" by (rule feed_relE)
  from True n sq have c: "feed_base a + n \<le> unat c" "unat c \<le> feed_base a + length (feed_writes a)"
    by (auto simp: word_le_nat_alt)
  let ?k = "unat c - feed_base a"
  have "log_since c cid l = Ids (sort_dedup (map mark_id (filter (\<lambda>m. mark_cid m = cid)
      (drop ?k (marks_of a)))))"
    using True drop_served [OF n(1) c lim] n(2) by (simp add: log_since_def Let_def not_less)
  also have "\<dots> = Ids (sorted_list_of_set {i. (cid, i) \<in> set (written_after (unat c) a)})"
    unfolding sort_dedup_set written_sets
    by (rule arg_cong [where f = "\<lambda>S. Ids (sorted_list_of_set S)"])
       (force simp: written_after_def)
  finally show ?thesis using True by simp
next
  case False
  then show ?thesis by (auto simp: log_since_def)
qed

lemma ucast_u32 [simp]:
  "(ucast (ucast p :: u64) :: u32) = p"
  "(ucast p :: u64) < ucast q \<longleftrightarrow> p < q" for p q :: u32
proof -
  show "(ucast (ucast p :: u64) :: u32) = p" by (rule bit_word_eqI) (simp add: bit_ucast_iff)
  have u: "unat (ucast r :: u64) = unat r" for r :: u32
    by (simp add: unsigned_ucast_eq take_bit_nat_eq_self_iff less_trans [OF unat_u32_lt])
  show "(ucast p :: u64) < ucast q \<longleftrightarrow> p < q" by (simp add: word_less_nat_alt u)
qed

lemma map_ucast_sorted:
  "map ucast (sort_dedup (map (\<lambda>m. ucast (f m) :: u64) xs)) = sorted_list_of_set (set (map f xs))"
  (is "?l = _")
  for f :: "'a \<Rightarrow> u32"
proof (rule strict_sorted_equal)
  let ?w = "sort_dedup (map (\<lambda>m. ucast (f m) :: u64) xs)"
  have w: "set ?w = ucast ` f ` set xs" by (auto simp: sort_dedup_set)
  have "sorted_wrt (<) ?w" by (simp add: sort_dedup_set)
  moreover have "(ucast x :: u32) < ucast y" if "x \<in> set ?w" "y \<in> set ?w" "x < y" for x y
  proof -
    from that(1,2) w obtain p q :: u32 where "x = ucast p" "y = ucast q" by auto
    with that(3) show ?thesis by simp
  qed
  ultimately show "sorted_wrt (<) ?l" unfolding sorted_wrt_map by (auto intro: sorted_wrt_mono_rel [rotated])
  show "set ?l = set (sorted_list_of_set (set (map f xs)))"
    using w by (auto simp: image_image sort_dedup_set)
qed simp

lemma changed_collections_rel:
  assumes "feed_rel a l"
  shows "changed_collections c l =
     (if c \<le> log_seq l \<and> log_horizon l \<le> c
      then Some (sorted_list_of_set (fst ` set (written_after (unat c) a))) else None)"
proof (cases "c \<le> log_seq l \<and> log_horizon l \<le> c")
  case True
  from assms obtain n where n: "n \<le> length (feed_writes a)" "ring l = drop n (marks_of a)"
    "unat (log_horizon l) = feed_base a + n"
    and sq: "unat (log_seq l) = feed_base a + length (feed_writes a)"
    and lim: "feed_base a + length (feed_writes a) < 2 ^ 64" by (rule feed_relE)
  from True n sq have c: "feed_base a + n \<le> unat c" "unat c \<le> feed_base a + length (feed_writes a)"
    by (auto simp: word_le_nat_alt)
  have "changed_collections c l
      = Some (sorted_list_of_set (set (map mark_cid (drop (unat c - feed_base a) (marks_of a)))))"
    using True drop_served [OF n(1) c lim] n(2)
    by (simp only: changed_collections_def Let_def not_less [symmetric] if_False de_Morgan_disj
        map_ucast_sorted) simp
  with True show ?thesis unfolding written_sets by (simp add: written_after_def)
next
  case False
  then show ?thesis by (auto simp: changed_collections_def)
qed

section \<open>A subscriber that keeps up\<close>

text \<open>Writes recorded one after another, and the documents they leave.\<close>

definition record_all :: "(u32 \<times> docid) list \<Rightarrow> change_log \<Rightarrow> change_log" where
  "record_all ws l = fold (\<lambda>(cid, i). feed_step (Record_write cid i)) ws l"

type_synonym 'd doc_write = "u32 \<times> docid \<times> 'd option"

definition write_docs :: "'d doc_write list \<Rightarrow> (u32 \<Rightarrow> docid \<Rightarrow> 'd option) \<Rightarrow> u32 \<Rightarrow> docid \<Rightarrow> 'd option" where
  "write_docs ws docs = fold (\<lambda>(cid, i, d) h. h(cid := (h cid)(i := d))) ws docs"

text \<open>What a subscriber does with the ids: it takes each row as it now stands.\<close>

definition refresh :: "docid list \<Rightarrow> (docid \<Rightarrow> 'd option) \<Rightarrow> (docid \<Rightarrow> 'd option) \<Rightarrow> docid \<Rightarrow> 'd option" where
  "refresh ids now held = fold (\<lambda>i h. h(i := now i)) ids held"

lemma refresh_at: "refresh ids now held i = (if i \<in> set ids then now i else held i)"
  by (induction ids arbitrary: held) (auto simp: refresh_def)

lemma write_docs_frame: "\<forall>d. (cid, i, d) \<notin> set ws \<Longrightarrow> write_docs ws docs cid i = docs cid i"
  by (induction ws arbitrary: docs) (auto simp: write_docs_def)

lemma log_record_horizon:
  assumes "feed_rel a l"
  shows "unat (log_horizon (fst (log_record cid i l)))
      \<le> max (unat (log_horizon l)) (unat (log_seq l) + 1 - log_cap l)"
    and "log_cap (fst (log_record cid i l)) = log_cap l"
proof -
  from assms obtain n where n: "n \<le> length (feed_writes a)" "ring l = drop n (marks_of a)"
    "unat (log_horizon l) = feed_base a + n"
    and sq: "unat (log_seq l) = feed_base a + length (feed_writes a)"
    and cap: "length (feed_writes a) - n \<le> log_cap l" "0 < log_cap l"
    and lim: "feed_base a + length (feed_writes a) < 2 ^ 64" by (rule feed_relE)
  define l1 where "l1 = l\<lparr>log_seq := log_seq l + 1\<rparr>"
  have r: "log_horizon (fst (log_record cid i l))
      = (if length (ring l) = log_cap l then log_horizon (evict l1) else log_horizon l)"
    by (simp add: log_record_def Let_def l1_def)
  show "unat (log_horizon (fst (log_record cid i l)))
      \<le> max (unat (log_horizon l)) (unat (log_seq l) + 1 - log_cap l)"
  proof (cases "length (ring l) = log_cap l")
    case True
    with n cap have lt: "n < length (feed_writes a)" by simp
    have "ring l1 = drop n (marks_of a)" "unat (log_horizon l1) = feed_base a + n"
      using n by (simp_all add: l1_def)
    from evict_front(2) [OF lt this lim] True n sq show ?thesis unfolding r by simp
  next
    case False
    then show ?thesis unfolding r by simp
  qed
  show "log_cap (fst (log_record cid i l)) = log_cap l" by (simp add: log_record_def Let_def)
qed

lemma record_all_rel:
  assumes "feed_rel a l" "feed_base a + length (feed_writes a) + length ws < 2 ^ 64"
  shows "feed_rel (a\<lparr>feed_writes := feed_writes a @ ws\<rparr>) (record_all ws l)
     \<and> log_cap (record_all ws l) = log_cap l
     \<and> unat (log_horizon (record_all ws l))
         \<le> max (unat (log_horizon l)) (unat (log_seq l) + length ws - log_cap l)"
  using assms
proof (induction ws arbitrary: a l)
  case Nil
  then show ?case by (simp add: record_all_def)
next
  case (Cons w ws)
  obtain cid i where w: "w = (cid, i)" by (rule prod.exhaust)
  let ?l = "fst (log_record cid i l)" and ?a = "a\<lparr>feed_writes := feed_writes a @ [(cid, i)]\<rparr>"
  have e: "record_all (w # ws) l = record_all ws ?l" by (simp add: record_all_def w)
  have r: "feed_rel ?a ?l" using Cons.prems by (intro log_record_rel) auto
  have lim: "feed_base ?a + length (feed_writes ?a) + length ws < 2 ^ 64" using Cons.prems by simp
  have sq: "unat (log_seq ?l) = unat (log_seq l) + 1"
    using r Cons.prems(1) by (auto elim!: feed_relE)
  note h = log_record_horizon [OF Cons.prems(1), of cid i]
  from Cons.IH [OF r lim] h sq show ?case unfolding e by (auto simp: w)
qed

text \<open>
  C10: The ring stands for the whole write log. After any sequence of writes, resizes and
  resets, a cursor between the horizon and the counter is given exactly the ids written to its
  collection after it, in order and each once, and the collections written after it; any other
  cursor is told to start over. The horizon is the counter less the marks the ring still holds:
  a resize or an eviction gives up the oldest writes only, and never one a served cursor needs.
\<close>

theorem since_is_write_log:
  assumes "feed_fits ops \<lparr>feed_base = 0, feed_writes = []\<rparr>"
    and "l = feed_run ops (log_new cap)" and "a = spec_run ops"
  shows "unat (log_seq l) = feed_base a + length (feed_writes a)
     \<and> unat (log_horizon l) = unat (log_seq l) - length (ring l)
     \<and> feed_base a \<le> unat (log_horizon l)
     \<and> length (ring l) \<le> log_cap l
     \<and> log_since c cid l =
      (if c \<le> log_seq l \<and> log_horizon l \<le> c
       then Ids (sorted_list_of_set {i. (cid, i) \<in> set (written_after (unat c) a)}) else Reseed)
     \<and> changed_collections c l =
      (if c \<le> log_seq l \<and> log_horizon l \<le> c
       then Some (sorted_list_of_set (fst ` set (written_after (unat c) a))) else None)"
proof (intro conjI)
  have r: "feed_rel a l" using feed_run_ok [OF assms(1)] assms(2,3) by simp
  then show "unat (log_seq l) = feed_base a + length (feed_writes a)"
    and "unat (log_horizon l) = unat (log_seq l) - length (ring l)"
    and "feed_base a \<le> unat (log_horizon l)" and "length (ring l) \<le> log_cap l"
    by (auto simp: feed_rel_def)
qed (use feed_run_ok [OF assms(1)] assms(2,3) in \<open>simp_all add: log_since_rel changed_collections_rel\<close>)

theorem since_is_write_log_witness:
  "let ops = [Record_write 1 10, Record_write 1 11, Set_capacity 2, Record_write 2 99,
              Record_write 1 10, Record_write 1 7];
       l = feed_run ops (log_new 8)
   in log_since 3 1 l = Ids (sorted_list_of_set {i. (1, i) \<in> set (written_after 3 (spec_run ops))})
    \<and> log_since 2 1 l = Reseed \<and> unat (log_horizon l) = 3"
proof -
  define ops where "ops = [Record_write 1 10, Record_write 1 11, Set_capacity 2,
    Record_write 2 99, Record_write 1 10, Record_write 1 7]"
  have f: "feed_fits ops \<lparr>feed_base = 0, feed_writes = []\<rparr>" unfolding ops_def by code_simp
  have h: "log_horizon (feed_run ops (log_new 8)) = 3" "log_seq (feed_run ops (log_new 8)) = 5"
    unfolding ops_def by code_simp+
  from since_is_write_log [OF f refl refl, where c = 3 and cid = 1 and cap = 8]
    since_is_write_log [OF f refl refl, where c = 2 and cid = 1 and cap = 8] h
  show ?thesis unfolding ops_def [symmetric] Let_def by simp
qed

text \<open>
  C11: A subscriber that reads at least once every capacity's worth of writes is never told to
  start over. From any reachable log: after at most as many writes as the ring is long, to any
  collections, the cursor that had seen everything before them is served, and a replica of a
  collection that takes each of the ids it is given as the row now stands holds exactly the
  collection as it now is, however many times a row was written or deleted in between.
\<close>

theorem replica_catches_up:
  fixes ws :: "'d doc_write list"
  assumes "feed_fits ops \<lparr>feed_base = 0, feed_writes = []\<rparr>"
    and "l = feed_run ops (log_new cap)"
    and "unat (log_seq l) + length ws < 2 ^ 64" and "length ws \<le> log_cap l"
    and "l' = record_all (map (\<lambda>(cid, i, d). (cid, i)) ws) l"
  shows "\<exists>ids. log_since (log_seq l) cid l' = Ids ids \<and>
     refresh ids (write_docs ws docs cid) (docs cid) = write_docs ws docs cid"
proof -
  let ?a = "spec_run ops" and ?ms = "map (\<lambda>(cid, i, d). (cid, i)) ws"
  let ?b = "?a\<lparr>feed_writes := feed_writes ?a @ ?ms\<rparr>"
  have r: "feed_rel ?a l" using feed_run_ok [OF assms(1)] assms(2) by simp
  then have sq: "unat (log_seq l) = feed_base ?a + length (feed_writes ?a)"
    and hl: "unat (log_horizon l) \<le> unat (log_seq l)" by (auto simp: feed_rel_def)
  have r': "feed_rel ?b l'" and h: "unat (log_horizon l') \<le> unat (log_seq l)"
    using record_all_rel [OF r, of ?ms] assms(3,4,5) sq hl by auto
  then have "unat (log_seq l') = feed_base ?a + length (feed_writes ?a) + length ws"
    by (auto simp: feed_rel_def)
  then have "log_seq l \<le> log_seq l' \<and> log_horizon l' \<le> log_seq l"
    using h sq by (simp add: word_le_nat_alt)
  moreover have "written_after (unat (log_seq l)) ?b = ?ms" by (simp add: written_after_def sq)
  ultimately have s: "log_since (log_seq l) cid l'
      = Ids (sorted_list_of_set {i. (cid, i) \<in> set ?ms})"
    using log_since_rel [OF r'] by simp
  have fin: "finite {i. (cid, i) \<in> set ?ms}"
    by (rule finite_subset [of _ "snd ` set ?ms"]) force+
  have "write_docs ws docs cid i = docs cid i" if "(cid, i) \<notin> set ?ms" for i
    by (rule write_docs_frame) (use that in force)
  then have "refresh (sorted_list_of_set {i. (cid, i) \<in> set ?ms})
      (write_docs ws docs cid) (docs cid) = write_docs ws docs cid"
    using fin by (auto simp: refresh_at)
  with s show ?thesis by blast
qed

theorem replica_catches_up_witness:
  "\<exists>ids. log_since 3 1 (record_all [(1, 5), (2, 5)] (feed_run [Reset_to 3] (log_new 2))) = Ids ids \<and>
     refresh ids (write_docs [(1, 5, None), (2, 5, Some True)] (\<lambda>c i. Some False) 1) (\<lambda>i. Some False)
       = write_docs [(1, 5, None), (2, 5, Some True)] (\<lambda>c i. Some False) 1"
proof -
  let ?ops = "[Reset_to 3]" and ?ws = "[(1, 5, None), (2, 5, Some True)] :: bool doc_write list"
  have f: "feed_fits ?ops \<lparr>feed_base = 0, feed_writes = []\<rparr>" by code_simp
  have s: "log_seq (feed_run ?ops (log_new 2)) = 3" "log_cap (feed_run ?ops (log_new 2)) = 2"
    by code_simp+
  show ?thesis
    using replica_catches_up [OF f refl, of 2 ?ws _ 1 "\<lambda>c i. Some False", OF _ _ refl] s by simp
qed

end
