(* ===== verification/Fenec_Records.thy ===== *)
theory Fenec_Records
  imports Fenec_Store
begin

unbundle bit_operations_syntax

text \<open>
  The records of a database file (\<open>fenec-core/src/engine.rs\<close>, the record kinds, \<open>head\<close>,
  \<open>record_at\<close>, \<open>whole_record\<close>, \<open>Walk\<close>, \<open>each_inner\<close>, \<open>frames_in\<close>, \<open>land_parts\<close>, \<open>writes_in\<close>,
  \<open>landed_block\<close>, \<open>last_graphs\<close>): a file is its signature and then records
  \<open>[kind][collection][length][body]\<close>, one of them, the counter's, of fixed width. What a walk of
  the file finds is proved for a file written whole and for one whose last record a crash cut
  short at any byte.
\<close>

section \<open>Kinds\<close>

definition magic :: bytes where "magic = [70, 69, 78, 69, 67, 68, 66, 1]"

definition rec_create :: u8 where "rec_create = 1"
definition rec_drop :: u8 where "rec_drop = 2"
definition rec_data :: u8 where "rec_data = 3"
definition rec_graph :: u8 where "rec_graph = 4"
definition rec_alter :: u8 where "rec_alter = 5"
definition rec_seq :: u8 where "rec_seq = 6"
definition rec_seq_len :: usize where "rec_seq_len = 1 + 8 + 8"
definition rec_nextid :: u8 where "rec_nextid = 7"
definition rec_history :: u8 where "rec_history = 8"
definition rec_block :: u8 where "rec_block = 9"
definition rec_spill :: u8 where "rec_spill = 10"
definition rec_land :: u8 where "rec_land = 11"
definition rec_fields :: u8 where "rec_fields = 12"

lemmas rec_kinds = rec_create_def rec_drop_def rec_data_def rec_graph_def rec_alter_def rec_seq_def
  rec_nextid_def rec_history_def rec_block_def rec_spill_def rec_land_def rec_fields_def

text \<open>The kinds written with a length, and those a block holds: the arms of the code's \<open>matches!\<close>.\<close>

definition lengthed :: "u8 \<Rightarrow> bool" where
  "lengthed k \<longleftrightarrow> k \<in> {rec_create, rec_drop, rec_data, rec_graph, rec_alter, rec_fields, rec_nextid,
     rec_history, rec_block, rec_spill, rec_land}"

definition inner_kind :: "u8 \<Rightarrow> bool" where
  "inner_kind k \<longleftrightarrow> k \<in> {rec_data, rec_create, rec_drop, rec_alter, rec_fields}"

section \<open>Writing a record\<close>

definition head_room :: usize where "head_room = 16"

text \<open>
  \<open>head\<close> writes into an array of \<open>HEAD_ROOM\<close> bytes: the varint's loop over a place in it, which
  panics past its end.
\<close>

function head_put :: "bytes \<Rightarrow> usize \<Rightarrow> u64 \<Rightarrow> (bytes \<times> usize) result" where
  "head_put h n v =
     (if length h \<le> n then Panic
      else if 0x80 \<le> v then head_put (h[n := ucast v OR 0x80]) (n + 1) (drop_bit 7 v)
      else Ok (h[n := ucast v], n + 1))"
  by pat_completeness auto
termination
  by (relation "measure (\<lambda>(h, n, v). length h - n)") auto

declare head_put.simps [simp del]

definition rec_head :: "u8 \<Rightarrow> u32 \<Rightarrow> usize \<Rightarrow> (bytes \<times> usize) result" where
  "rec_head kind cid len =
     (let h = (replicate head_room 0)[0 := kind]
      in and_then (head_put h 1 (ucast cid)) (\<lambda>(h, n). head_put h n (word_of_nat len)))"

definition record_head :: "u8 \<Rightarrow> u32 \<Rightarrow> usize \<Rightarrow> bytes result" where
  "record_head kind cid len = map_ok (\<lambda>(h, n). take n h) (rec_head kind cid len)"

definition frame_into :: "bytes \<Rightarrow> u8 \<Rightarrow> u32 \<Rightarrow> bytes \<Rightarrow> bytes result" where
  "frame_into out kind cid body =
     map_ok (\<lambda>(h, n). out @ take n h @ body) (rec_head kind cid (length body))"

definition framed :: "u8 \<Rightarrow> u32 \<Rightarrow> bytes \<Rightarrow> bytes result" where
  "framed kind cid body = frame_into [] kind cid body"

definition image_head :: "u64 \<Rightarrow> bytes" where
  "image_head s = magic @ rec_seq # le_bytes 8 s @ le_bytes 8 (0 :: u64)"

section \<open>Reading records\<close>

record rec =
  rec_kind :: u8
  rec_cid :: u32
  rec_at :: usize
  rec_body_at :: usize
  rec_body :: bytes

definition usize_sat_add :: "usize \<Rightarrow> usize \<Rightarrow> usize" where
  "usize_sat_add a b = min (a + b) (2 ^ 64 - 1)"

definition e_counter :: error where "e_counter = Corrupt ''truncated counter header''"
definition e_record_cut :: error where "e_record_cut = Corrupt ''a record cut short''"
definition e_no_write :: error where "e_no_write = Corrupt ''a block holds a record that is no write''"
definition e_frame_past :: error where "e_frame_past = Corrupt ''a frame runs past its record''"
definition e_land_cut :: error where "e_land_cut = Corrupt ''a land cut short''"
definition e_not_land :: error where "e_not_land = Corrupt ''not a land''"

definition record_at :: "bytes \<Rightarrow> usize \<Rightarrow> (rec \<times> usize) result" where
  "record_at bs at =
     (case get_byte bs at of
        None \<Rightarrow> Panic
      | Some kind \<Rightarrow>
          if kind = rec_seq then
            map_ok (\<lambda>body. (\<lparr>rec_kind = kind, rec_cid = 0, rec_at = at, rec_body_at = at + 1, rec_body = body\<rparr>,
                at + rec_seq_len))
              (ok_or e_counter (get_range bs (at + 1) (at + rec_seq_len)))
          else
            and_then (get_uvarint bs (at + 1)) (\<lambda>(cid, p).
            and_then (get_usize bs p) (\<lambda>(len, p).
            map_ok (\<lambda>body. (\<lparr>rec_kind = kind, rec_cid = ucast cid, rec_at = at, rec_body_at = p, rec_body = body\<rparr>,
                p + len))
              (ok_or e_record_cut (get_range bs p (usize_sat_add p len))))))"

text \<open>Where \<open>get_uvarint\<close> leaves its position, a read that failed too.\<close>

function uvarint_stop :: "bytes \<Rightarrow> usize \<Rightarrow> nat \<Rightarrow> usize" where
  "uvarint_stop buf pos shift =
     (case get_byte buf pos of
        None \<Rightarrow> pos
      | Some b \<Rightarrow>
          if b AND 0x80 = 0 then pos + 1
          else if shift + 7 > 63 then pos + 1
          else uvarint_stop buf (pos + 1) (shift + 7))"
  by pat_completeness auto
termination
  by (relation "measure (\<lambda>(buf, pos, shift). 64 - shift)") auto

declare uvarint_stop.simps [simp del]

text \<open>One turn of the loop of \<open>whole_record\<close>: no value where the bytes end inside the number.\<close>

definition whole_read :: "bytes \<Rightarrow> usize \<Rightarrow> (u64 \<times> usize) option result" where
  "whole_read bs pos =
     (case get_uvarint bs pos of
        Ok vp \<Rightarrow> Ok (Some vp)
      | Err e \<Rightarrow> if length bs \<le> uvarint_stop bs pos 0 then Ok None else Err e
      | Panic \<Rightarrow> Panic)"

definition whole_record :: "bytes \<Rightarrow> usize \<Rightarrow> bool result" where
  "whole_record bs at =
     (case get_byte bs at of
        None \<Rightarrow> Panic
      | Some kind \<Rightarrow>
          if \<not> lengthed kind then Ok True
          else and_then (whole_read bs (at + 1)) (\<lambda>r. case r of None \<Rightarrow> Ok False | Some (_, p) \<Rightarrow>
               and_then (whole_read bs p) (\<lambda>r. case r of None \<Rightarrow> Ok False | Some (len, p) \<Rightarrow>
                 Ok (unat len \<le> length bs - p))))"

record walk =
  walk_bytes :: bytes
  walk_pos :: usize
  torn :: bool

definition walk_new :: "bytes \<Rightarrow> usize \<Rightarrow> walk" where
  "walk_new bs pos = \<lparr>walk_bytes = bs, walk_pos = pos, torn = False\<rparr>"

definition walk_next :: "walk \<Rightarrow> (rec option \<times> walk) result" where
  "walk_next w =
     (if length (walk_bytes w) \<le> walk_pos w then Ok (None, w)
      else and_then (whole_record (walk_bytes w) (walk_pos w)) (\<lambda>whole.
        if \<not> whole then Ok (None, w\<lparr>torn := True\<rparr>)
        else map_ok (\<lambda>(r, p). (Some r, w\<lparr>walk_pos := p\<rparr>)) (record_at (walk_bytes w) (walk_pos w))))"

lemma record_at_progress:
  "record_at bs at = Ok (r, p) \<Longrightarrow> at < p \<and> at < length bs"
  by (auto simp: record_at_def rec_seq_len_def result_simps get_range_Some_iff
      get_byte_Some_iff
      split: option.splits if_splits prod.splits
      dest!: get_uvarint_progress get_usize_progress)

lemma walk_next_progress:
  "walk_next w = Ok (Some r, w') \<Longrightarrow>
     walk_bytes w' = walk_bytes w \<and> walk_pos w < walk_pos w' \<and> walk_pos w < length (walk_bytes w)"
  by (auto simp: walk_next_def result_simps split: if_splits dest!: record_at_progress)

text \<open>The loop \<open>while let Some(r) = walk.next()?\<close> of a load: the records it meets, in order.\<close>

function walk_all :: "walk \<Rightarrow> (rec list \<times> walk) result" where
  "walk_all w =
     (case walk_next w of
        Ok (None, w') \<Rightarrow> Ok ([], w')
      | Ok (Some r, w') \<Rightarrow> map_ok (\<lambda>(rs, w''). (r # rs, w'')) (walk_all w')
      | Err e \<Rightarrow> Err e
      | Panic \<Rightarrow> Panic)"
  by pat_completeness auto
termination
  by (relation "measure (\<lambda>w. length (walk_bytes w) - walk_pos w)")
     (auto dest!: walk_next_progress)

declare walk_all.simps [simp del]

definition walk_file :: "bytes \<Rightarrow> usize \<Rightarrow> (rec list \<times> walk) result" where
  "walk_file bs pos = walk_all (walk_new bs pos)"

text \<open>
  The last graph of each index, by collection and field: the loop reads heads alone and stops at
  what a load would refuse.
\<close>

definition known_kind :: "u8 \<Rightarrow> bool" where
  "known_kind k \<longleftrightarrow> k = rec_seq \<or> lengthed k"

definition note_graph :: "u32 \<Rightarrow> bytes \<Rightarrow> usize \<Rightarrow> (u32 \<times> bytes \<times> usize) list \<Rightarrow> (u32 \<times> bytes \<times> usize) list" where
  "note_graph cid fld at xs =
     (if \<exists>x\<in>set xs. fst x = cid \<and> fst (snd x) = fld
      then (let (ys, zs) = (takeWhile (\<lambda>x. \<not> (fst x = cid \<and> fst (snd x) = fld)) xs,
                            dropWhile (\<lambda>x. \<not> (fst x = cid \<and> fst (snd x) = fld)) xs)
            in ys @ (cid, fld, at) # tl zs)
      else xs @ [(cid, fld, at)])"

function last_graphs_loop :: "walk \<Rightarrow> (u32 \<times> bytes \<times> usize) list \<Rightarrow> (u32 \<times> bytes \<times> usize) list result" where
  "last_graphs_loop w found =
     (if length (walk_bytes w) \<le> walk_pos w \<or> \<not> known_kind (walk_bytes w ! walk_pos w) then Ok found
      else (case walk_next w of
         Ok (None, w') \<Rightarrow> Ok found
       | Ok (Some r, w') \<Rightarrow>
           if rec_kind r = rec_graph then
             and_then (decode_str (rec_body r) 0) (\<lambda>(fld, _).
               last_graphs_loop w' (note_graph (rec_cid r) fld (rec_at r) found))
           else last_graphs_loop w' found
       | Err e \<Rightarrow> Err e
       | Panic \<Rightarrow> Panic))"
  by pat_completeness auto
termination
  by (relation "measure (\<lambda>(w, found). length (walk_bytes w) - walk_pos w)")
     (auto dest!: walk_next_progress)

declare last_graphs_loop.simps [simp del]

definition last_graphs :: "bytes \<Rightarrow> (u32 \<times> bytes \<times> usize) list result" where
  "last_graphs bs = last_graphs_loop (walk_new bs (length magic)) []"

section \<open>What a record holds\<close>

text \<open>
  A loop that may not end, then one that goes on with what it left: \<open>None\<close> is not returning.
\<close>

fun run_then :: "'a result option \<Rightarrow> ('a \<Rightarrow> 'b result option) \<Rightarrow> 'b result option" where
  "run_then None f = None"
| "run_then (Some (Ok x)) f = f x"
| "run_then (Some (Err e)) f = Some (Err e)"
| "run_then (Some Panic) f = Some Panic"

text \<open>
  \<open>each_inner\<close> calls its function on each record before it reads the next; the function's state
  is passed along.
\<close>

function each_inner :: "(u8 \<Rightarrow> u32 \<Rightarrow> bytes \<Rightarrow> 's \<Rightarrow> 's result option) \<Rightarrow> bytes \<Rightarrow> usize \<Rightarrow> 's \<Rightarrow> 's result option" where
  "each_inner f body pos st =
     (if pos < length body then
        (case record_at body pos of
           Ok (r, p) \<Rightarrow>
             if \<not> inner_kind (rec_kind r) then Some (Err e_no_write)
             else run_then (f (rec_kind r) (rec_cid r) (rec_body r) st) (each_inner f body p)
         | Err e \<Rightarrow> Some (Err e)
         | Panic \<Rightarrow> Some Panic)
      else Some (Ok st))"
  by pat_completeness auto
termination
  by (relation "measure (\<lambda>(f, body, pos, st). length body - pos)") (auto dest: record_at_progress)

declare each_inner.simps [simp del]

text \<open>
  \<open>frames_in\<close> steps over a payload by its length as read, which may wrap: whether the loop
  returns is part of what it means.
\<close>

partial_function (option) frames_loop :: "bytes \<Rightarrow> usize \<Rightarrow> u64 \<Rightarrow> u64 result option" where
  "frames_loop body pos n =
     (if pos < length body then
        (case and_then (get_uvarint body (pos + 1)) (\<lambda>(_, p). get_usize body p) of
           Ok lp \<Rightarrow> frames_loop body (usize_add (snd lp) (fst lp)) (n + 1)
         | Err e \<Rightarrow> Some (Err e)
         | Panic \<Rightarrow> Some Panic)
      else if pos > length body then Some (Err e_frame_past)
      else Some (Ok n))"

definition frames_in :: "bytes \<Rightarrow> u64 result option" where
  "frames_in body = frames_loop body 0 0"

definition count_inner :: "u8 \<Rightarrow> u32 \<Rightarrow> bytes \<Rightarrow> u64 \<Rightarrow> u64 result option" where
  "count_inner kind cid inner n =
     (if kind = rec_data then run_then (frames_in inner) (\<lambda>k. Some (Ok (n + k))) else Some (Ok (n + 1)))"

text \<open>The pairs a land names: each is two varints.\<close>

definition land_name :: "bytes \<Rightarrow> usize \<Rightarrow> ((u64 \<times> u64) \<times> usize) result" where
  "land_name body p =
     and_then (get_uvarint body p) (\<lambda>(at, p).
     and_then (get_uvarint body p) (\<lambda>(len, p). Ok ((at, len), p)))"

definition land_parts :: "bytes \<Rightarrow> ((u64 \<times> u64) list \<times> bytes) result" where
  "land_parts body =
     and_then (get_usize body 0) (\<lambda>(n, p).
     and_then (many (land_name body) n p) (\<lambda>(named, p).
       if p \<le> length body then Ok (named, drop p body) else Err e_land_cut))"

definition landed_block :: "bytes list \<Rightarrow> bytes \<Rightarrow> bytes result" where
  "landed_block spills lnd =
     and_then (record_at lnd 0) (\<lambda>(r, _).
       if rec_kind r \<noteq> rec_land then Err e_not_land
       else and_then (land_parts (rec_body r)) (\<lambda>(_, rest). framed rec_block 0 (concat spills @ rest)))"

definition writes_in :: "bytes \<Rightarrow> u64 result option" where
  "writes_in rcd =
     (case rcd of
        [] \<Rightarrow> Some (Ok 0)
      | kind # _ \<Rightarrow>
          run_then (Some (record_at rcd 0)) (\<lambda>(r, _).
            if kind = rec_data then frames_in (rec_body r)
            else if kind = rec_block then each_inner count_inner (rec_body r) 0 0
            else if kind \<in> {rec_create, rec_drop, rec_alter, rec_fields} then Some (Ok 1)
            else if kind = rec_land then
              run_then (Some (land_parts (rec_body r))) (\<lambda>(_, rest). each_inner count_inner rest 0 0)
            else Some (Ok 0)))"

section \<open>The bytes of a record\<close>

text \<open>A record as the format has it, which is what \<open>head\<close>'s writes into its array come to.\<close>

definition framed_bytes :: "u8 \<Rightarrow> u32 \<Rightarrow> bytes \<Rightarrow> bytes" where
  "framed_bytes kind cid body = kind # put_uvarint (ucast cid) @ put_len body @ body"

lemma framed_bytes_not_Nil [simp]: "framed_bytes k cid body \<noteq> []"
  by (simp add: framed_bytes_def)

lemma head_put_ok:
  "n + length (put_uvarint v) \<le> length h \<Longrightarrow>
   head_put h n v = Ok (take n h @ put_uvarint v @ drop (n + length (put_uvarint v)) h, n + length (put_uvarint v))"
proof (induction h n v rule: head_put.induct)
  case (1 h n v)
  show ?case
  proof (cases "0x80 \<le> v")
    case True
    let ?b = "ucast v OR 0x80 :: u8"
    have p: "put_uvarint v = ?b # put_uvarint (drop_bit 7 v)"
      using True by (subst put_uvarint.simps) simp
    have n: "n < length h" using 1(2) p by simp
    have t: "take (n + 1) (h[n := ?b]) = take n h @ [?b]"
      using n by (simp add: take_Suc_conv_app_nth)
    from 1(1) True n p 1(2) have
      "head_put (h[n := ?b]) (n + 1) (drop_bit 7 v)
        = Ok (take (n + 1) (h[n := ?b]) @ put_uvarint (drop_bit 7 v)
            @ drop (n + 1 + length (put_uvarint (drop_bit 7 v))) (h[n := ?b]),
            n + 1 + length (put_uvarint (drop_bit 7 v)))" by simp
    with True n p show ?thesis by (subst head_put.simps) (simp add: t [simplified])
  next
    case False
    then have p: "put_uvarint v = [ucast v]" by (subst put_uvarint.simps) simp
    with False 1(2) show ?thesis by (subst head_put.simps) (simp add: upd_conv_take_nth_drop)
  qed
qed

lemma uvarint_cid: "length (put_uvarint (ucast (cid :: u32))) \<le> 5"
proof -
  have "unat (ucast cid :: u64) \<le> unat cid" by (simp add: unsigned_ucast_eq)
  also have "unat cid < 2 ^ 35" using unat_u32_lt [of cid] by (rule less_trans) simp
  finally have "unat (ucast cid :: u64) < 2 ^ 35" .
  then show ?thesis using length_put_uvarint_le [of "ucast cid" 4] by simp
qed

lemma rec_head_ok:
  fixes kind :: u8 and cid :: u32 and n :: nat
  defines "bs \<equiv> kind # put_uvarint (ucast cid) @ put_uvarint (word_of_nat n)"
  obtains h where "rec_head kind cid n = Ok (h, length bs)" "take (length bs) h = bs"
proof -
  define v where "v = put_uvarint (ucast cid :: u64)"
  define u where "u = put_uvarint (word_of_nat n :: u64)"
  have l: "length v \<le> 5" "length u \<le> 10"
    unfolding v_def u_def using uvarint_cid length_put_uvarint by auto
  define h0 where "h0 = (replicate head_room 0)[0 := kind]"
  have h0: "length h0 = 16" "take (Suc 0) h0 = [kind]"
    by (simp_all add: h0_def head_room_def numeral_eq_Suc)
  define h1 where "h1 = take 1 h0 @ v @ drop (1 + length v) h0"
  have e1: "head_put h0 1 (ucast cid) = Ok (h1, 1 + length v)"
    unfolding v_def h1_def by (rule head_put_ok) (use h0 l in \<open>simp add: v_def\<close>)
  have h1: "length h1 = 16" using h0 l by (simp add: h1_def)
  define h2 where "h2 = take (1 + length v) h1 @ u @ drop (1 + length v + length u) h1"
  have e2: "head_put h1 (1 + length v) (word_of_nat n) = Ok (h2, 1 + length v + length u)"
    unfolding u_def h2_def by (rule head_put_ok) (use h1 l in \<open>simp add: u_def\<close>)
  have b: "bs = kind # v @ u" by (simp add: bs_def v_def u_def)
  show thesis
  proof
    show "rec_head kind cid n = Ok (h2, length bs)"
      unfolding rec_head_def Let_def h0_def [symmetric] e1 by (simp add: e2 [simplified] b)
    show "take (length bs) h2 = bs"
      unfolding b h2_def h1_def using h0 l by simp
  qed
qed

lemma frame_into_ok: "frame_into out kind cid body = Ok (out @ framed_bytes kind cid body)"
proof -
  obtain h where h: "rec_head kind cid (length body) = Ok (h, length (kind # put_uvarint (ucast cid) @ put_len body))"
    "take (length (kind # put_uvarint (ucast cid) @ put_len body)) h = kind # put_uvarint (ucast cid) @ put_len body"
    unfolding put_len_def by (rule rec_head_ok)
  show ?thesis unfolding frame_into_def h(1) by (simp only: map_ok.simps prod.case h(2)) (simp add: framed_bytes_def)
qed

lemma framed_ok: "framed kind cid body = Ok (framed_bytes kind cid body)"
  by (simp add: framed_def frame_into_ok)

section \<open>A record read back\<close>

lemma record_at_framed:
  assumes at: "at_pos bs pos (framed_bytes k cid body)" and k: "k \<noteq> rec_seq" and lim: "length bs < 2 ^ 63"
  shows "record_at bs pos = Ok (\<lparr>rec_kind = k, rec_cid = cid, rec_at = pos,
      rec_body_at = pos + (length (framed_bytes k cid body) - length body), rec_body = body\<rparr>,
      pos + length (framed_bytes k cid body))"
proof -
  let ?v = "put_uvarint (ucast cid :: u64)"
  from at have a: "get_byte bs pos = Some k" "at_pos bs (Suc pos) ?v"
    "at_pos bs (Suc pos + length ?v) (put_len body)"
    "at_pos bs (Suc pos + length ?v + length (put_len body)) body"
    unfolding framed_bytes_def by (simp_all add: at_simps)
  let ?p = "Suc pos + length ?v + length (put_len body)"
  have le: "?p + length body \<le> length bs" using at_pos_le [OF a(4)] .
  have b: "length body < 2 ^ 64" using le lim by simp
  have u: "get_uvarint bs (Suc pos) = Ok (ucast cid, Suc pos + length ?v)" by (rule get_put_uvarint [OF a(2)])
  have n: "get_usize bs (Suc pos + length ?v) = Ok (length body, ?p)"
    using get_put_usize [OF a(3) [unfolded put_len_def] b] by (simp add: put_len_def)
  have s: "usize_sat_add ?p (length body) = ?p + length body"
    using le lim by (simp add: usize_sat_add_def)
  have r: "get_range bs ?p (?p + length body) = Some body" by (rule at_pos_range [OF a(4) refl])
  have e: "pos + (length (framed_bytes k cid body) - length body) = ?p"
    "pos + length (framed_bytes k cid body) = ?p + length body"
    by (simp_all add: framed_bytes_def)
  have c: "(ucast (ucast cid :: u64) :: u32) = cid" by (rule bit_word_eqI) (simp add: bit_ucast_iff)
  show ?thesis
    unfolding record_at_def e
    by (simp only: a(1) option.case k if_False u n s r c add_Suc_right add_0_right
        and_then.simps prod.case ok_or.simps map_ok.simps Suc_eq_plus1 [symmetric])
qed

lemma stop_at_end:
  "get_uvarint_loop bs pos acc shift = Err e_varint_early \<Longrightarrow> length bs \<le> uvarint_stop bs pos shift"
proof (induction bs pos acc shift rule: get_uvarint_loop.induct)
  case (1 bs pos acc shift)
  show ?case
  proof (cases "get_byte bs pos")
    case None
    moreover from None have "length bs \<le> pos" by (simp add: get_byte_None_iff)
    ultimately show ?thesis by (subst uvarint_stop.simps) simp
  next
    case (Some b)
    with "1.prems" have l: "b AND 0x80 \<noteq> 0" "\<not> 63 < shift + 7"
      and e: "get_uvarint_loop bs (pos + 1) (acc OR push_bit shift (ucast (b AND 0x7f))) (shift + 7)
        = Err e_varint_early"
      by (simp_all add: get_uvarint_loop.simps [of bs pos] Let_def e_varint_early_def
          e_varint_overflow_def split: if_splits)
    from "1.IH" [OF Some refl refl l(1) refl l(2) e] Some l show ?thesis
      by (subst uvarint_stop.simps) simp
  qed
qed

lemma whole_read_put: "at_pos bs pos (put_uvarint v) \<Longrightarrow> whole_read bs pos = Ok (Some (v, pos + length (put_uvarint v)))"
  by (simp add: whole_read_def get_put_uvarint)

lemma whole_read_torn: "k < length (put_uvarint v) \<Longrightarrow> whole_read (pre @ take k (put_uvarint v)) (length pre) = Ok None"
  using stop_at_end [of "pre @ take k (put_uvarint v)" "length pre" 0 0] get_uvarint_torn [of k v pre]
  by (simp add: whole_read_def get_uvarint_def)

lemma whole_record_framed:
  assumes "at_pos bs pos (framed_bytes k cid body)" "length bs < 2 ^ 63"
  shows "whole_record bs pos = Ok True"
proof (cases "lengthed k")
  case True
  let ?v = "put_uvarint (ucast cid :: u64)"
  from assms(1) have a: "get_byte bs pos = Some k" "at_pos bs (Suc pos) ?v"
    "at_pos bs (Suc pos + length ?v) (put_len body)"
    "at_pos bs (Suc pos + length ?v + length (put_len body)) body"
    unfolding framed_bytes_def by (simp_all add: at_simps)
  have "unat (word_of_nat (length body) :: u64) = length body"
    using at_pos_le [OF a(4)] assms(2) by (intro unat_of_nat_u64) simp
  with True a at_pos_le [OF a(4)] whole_read_put [OF a(2)]
    whole_read_put [OF a(3) [unfolded put_len_def]] show ?thesis
    by (simp add: whole_record_def put_len_def)
next
  case False
  with assms(1) show ?thesis by (simp add: whole_record_def framed_bytes_def at_simps)
qed

text \<open>A record cut at any byte after its first is told apart from a whole one.\<close>

lemma whole_record_torn:
  assumes "0 < n" "n < length (framed_bytes k cid body)" "lengthed k" "length body < 2 ^ 63"
  shows "whole_record (pre @ take n (framed_bytes k cid body)) (length pre) = Ok False"
proof -
  define v where "v = put_uvarint (ucast cid :: u64)"
  define u where "u = put_uvarint (word_of_nat (length body) :: u64)"
  define m where "m = n - 1"
  have n: "n = Suc m" using assms(1) by (simp add: m_def)
  have fb: "framed_bytes k cid body = k # v @ u @ body" by (simp add: framed_bytes_def v_def u_def put_len_def)
  have m: "m < length v + length u + length body" using assms(2) n fb by simp
  let ?bs = "pre @ take n (framed_bytes k cid body)"
  have bs: "?bs = (pre @ [k]) @ take m (v @ u @ body)" by (simp add: n fb)
  have k: "get_byte ?bs (length pre) = Some k" by (simp add: n fb get_byte_def nth_append)
  consider "m < length v" | "length v \<le> m" "m < length v + length u" | "length v + length u \<le> m" by linarith
  then show ?thesis
  proof cases
    case 1
    then have "?bs = (pre @ [k]) @ take m v" using bs by simp
    with whole_read_torn [of m "ucast cid" "pre @ [k]"] 1 k assms(3) show ?thesis
      by (simp add: whole_record_def v_def)
  next
    case 2
    then have b: "?bs = (pre @ k # v) @ take (m - length v) u" using bs by simp
    have "at_pos ?bs (Suc (length pre)) v" unfolding b using at_pos_whole [of "pre @ [k]" v] by simp
    from whole_read_put [OF this [unfolded v_def]] have
      1: "whole_read ?bs (Suc (length pre)) = Ok (Some (ucast cid, length (pre @ k # v)))" by (simp add: v_def)
    have 2: "whole_read ?bs (length (pre @ k # v)) = Ok None"
      unfolding b unfolding u_def by (rule whole_read_torn) (use 2 in \<open>simp add: u_def\<close>)
    from 1 2 k assms(3) show ?thesis by (simp add: whole_record_def)
  next
    case 3
    define j where "j = m - length v - length u"
    have j: "j < length body" using m 3 by (simp add: j_def)
    have b: "?bs = (pre @ k # v) @ u @ take j body" using bs 3 by (simp add: j_def)
    have "at_pos ?bs (Suc (length pre)) v" unfolding b using at_pos_whole [of "pre @ [k]" v] by simp
    from whole_read_put [OF this [unfolded v_def]] have
      1: "whole_read ?bs (Suc (length pre)) = Ok (Some (ucast cid, length (pre @ k # v)))" by (simp add: v_def)
    have "at_pos ?bs (length (pre @ k # v)) u" unfolding b by (rule at_pos_whole)
    from whole_read_put [OF this [unfolded u_def]] have
      2: "whole_read ?bs (length (pre @ k # v)) = Ok (Some (word_of_nat (length body), length (pre @ k # v) + length u))"
      by (simp add: u_def)
    have u: "unat (word_of_nat (length body) :: u64) = length body" using assms(4) by (intro unat_of_nat_u64) simp
    have l: "length ?bs = length (pre @ k # v) + length u + j" unfolding b using j by simp
    show ?thesis unfolding whole_record_def k
      using assms(3) 1 2 u l j by simp
  qed
qed

section \<open>A walk of a file\<close>

text \<open>A record as it is written: kind, collection, body. Where a walk finds each of a run of them.\<close>

type_synonym written = "u8 \<times> u32 \<times> bytes"

fun written_bytes :: "written \<Rightarrow> bytes" where
  "written_bytes (k, cid, body) = framed_bytes k cid body"

fun found_at :: "usize \<Rightarrow> written list \<Rightarrow> rec list" where
  "found_at pos [] = []"
| "found_at pos ((k, cid, body) # ws) =
     \<lparr>rec_kind = k, rec_cid = cid, rec_at = pos,
       rec_body_at = pos + (length (framed_bytes k cid body) - length body), rec_body = body\<rparr>
     # found_at (pos + length (framed_bytes k cid body)) ws"

lemma found_at_parts: "map (\<lambda>r. (rec_kind r, rec_cid r, rec_body r)) (found_at pos ws) = ws"
  by (induction pos ws rule: found_at.induct) auto

definition all_bytes :: "written list \<Rightarrow> bytes" where
  "all_bytes ws = concat (map written_bytes ws)"

lemma lengthed_not_seq: "lengthed k \<Longrightarrow> k \<noteq> rec_seq"
  by (auto simp: lengthed_def rec_kinds)

lemma walk_prefix:
  assumes "\<forall>w\<in>set ws. lengthed (fst w)" "length (pre @ all_bytes ws @ rest) < 2 ^ 63"
  shows "walk_all (walk_new (pre @ all_bytes ws @ rest) (length pre))
     = map_ok (\<lambda>(rs, w). (found_at (length pre) ws @ rs, w))
         (walk_all (walk_new (pre @ all_bytes ws @ rest) (length pre + length (all_bytes ws))))"
  using assms
proof (induction ws arbitrary: pre)
  case Nil
  show ?case by (cases "walk_all (walk_new (pre @ rest) (length pre))") (auto simp: all_bytes_def)
next
  case (Cons w ws)
  obtain k cid body where w: "w = (k, cid, body)" by (metis prod_cases3)
  let ?f = "framed_bytes k cid body"
  have e: "pre @ all_bytes (w # ws) @ rest = (pre @ ?f) @ all_bytes ws @ rest"
    by (simp add: all_bytes_def w)
  let ?bs = "(pre @ ?f) @ all_bytes ws @ rest"
  have k: "lengthed k" using Cons.prems(1) w by simp
  have a: "at_pos ?bs (length pre) ?f" using at_pos_whole [of pre ?f "all_bytes ws @ rest"] by simp
  have lim: "length ?bs < 2 ^ 63" using Cons.prems(2) e by simp
  have "walk_next (walk_new ?bs (length pre))
      = Ok (Some (hd (found_at (length pre) (w # ws))), walk_new ?bs (length (pre @ ?f)))"
    using record_at_framed [OF a lengthed_not_seq [OF k] lim] whole_record_framed [OF a lim]
    by (simp add: walk_next_def walk_new_def w)
  moreover have "walk_all (walk_new ?bs (length (pre @ ?f)))
     = map_ok (\<lambda>(rs, w). (found_at (length (pre @ ?f)) ws @ rs, w))
         (walk_all (walk_new ?bs (length (pre @ ?f) + length (all_bytes ws))))"
    by (rule Cons.IH) (use Cons.prems(1) lim in simp_all)
  ultimately show ?case unfolding e
    by (subst walk_all.simps)
       (cases "walk_all (walk_new ?bs (length (pre @ ?f) + length (all_bytes ws)))";
        auto simp: w all_bytes_def add.assoc)
qed

lemma found_at_bodies:
  "at_pos bs pos (all_bytes ws) \<Longrightarrow> \<forall>r\<in>set (found_at pos ws).
     get_range bs (rec_body_at r) (rec_body_at r + length (rec_body r)) = Some (rec_body r)"
proof (induction pos ws rule: found_at.induct)
  case (2 pos k cid body ws)
  have e: "all_bytes ((k, cid, body) # ws) = framed_bytes k cid body @ all_bytes ws"
    by (simp add: all_bytes_def)
  from 2(2) have a: "at_pos bs pos (framed_bytes k cid body)"
    and r: "at_pos bs (pos + length (framed_bytes k cid body)) (all_bytes ws)"
    unfolding e by (simp_all add: at_simps)
  from a have "at_pos bs (pos + (length (framed_bytes k cid body) - length body)) body"
    by (simp add: framed_bytes_def at_simps add.assoc)
  from at_pos_range [OF this refl] 2(1) [OF r] show ?case by simp
qed simp

text \<open>
  C6: A crash in the middle of an append costs the record being appended and nothing else. A
  file of whole records and the start of one more, cut at any byte, is walked to exactly its
  whole records -- kinds, collections, bodies and places -- and the walk stops at the cut and
  says that it was one; the file cut there is walked to the same records and no tear.
\<close>

theorem walk_survives_crash:
  assumes "\<forall>w\<in>set ws. lengthed (fst w)" and "lengthed k" and "length body < 2 ^ 63"
    and "n < length (framed_bytes k cid body)"
    and "bs = pre @ all_bytes ws @ take n (framed_bytes k cid body)" and "length bs < 2 ^ 63"
  shows "walk_file bs (length pre)
      = Ok (found_at (length pre) ws,
            \<lparr>walk_bytes = bs, walk_pos = length pre + length (all_bytes ws), torn = (0 < n)\<rparr>)
     \<and> map (\<lambda>r. (rec_kind r, rec_cid r, rec_body r)) (found_at (length pre) ws) = ws
     \<and> (\<forall>r\<in>set (found_at (length pre) ws).
      get_range bs (rec_body_at r) (rec_body_at r + length (rec_body r)) = Some (rec_body r))"
proof (intro conjI)
  let ?e = "length pre + length (all_bytes ws)"
  have stop: "walk_all (walk_new bs ?e) = Ok ([], \<lparr>walk_bytes = bs, walk_pos = ?e, torn = (0 < n)\<rparr>)"
  proof (cases "n = 0")
    case True
    with assms(5) have "length bs \<le> ?e" by simp
    with True show ?thesis by (subst walk_all.simps) (simp add: walk_next_def walk_new_def)
  next
    case False
    have "whole_record bs ?e = Ok False"
      using whole_record_torn [of n k cid body "pre @ all_bytes ws"] assms False by simp
    moreover have "\<not> length bs \<le> ?e" using assms(4,5) False by simp
    ultimately show ?thesis using False by (subst walk_all.simps) (simp add: walk_next_def walk_new_def)
  qed
  from walk_prefix [of ws pre "take n (framed_bytes k cid body)"] assms(1,5,6) stop
  show "walk_file bs (length pre)
      = Ok (found_at (length pre) ws, \<lparr>walk_bytes = bs, walk_pos = ?e, torn = (0 < n)\<rparr>)"
    by (simp add: walk_file_def)
  show "map (\<lambda>r. (rec_kind r, rec_cid r, rec_body r)) (found_at (length pre) ws) = ws"
    by (rule found_at_parts)
  have "at_pos bs (length pre) (all_bytes ws)" using assms(5) by simp
  from found_at_bodies [OF this] show "\<forall>r\<in>set (found_at (length pre) ws).
      get_range bs (rec_body_at r) (rec_body_at r + length (rec_body r)) = Some (rec_body r)" .
qed

theorem walk_survives_crash_witness:
  "walk_file (magic @ all_bytes [(rec_create, 1, [7, 7]), (rec_data, 1, [1, 5, 0])]
        @ take 4 (framed_bytes rec_data 1 [1, 6, 1, 9])) (length magic)
     = Ok (found_at 8 [(rec_create, 1, [7, 7]), (rec_data, 1, [1, 5, 0])],
        \<lparr>walk_bytes = magic @ all_bytes [(rec_create, 1, [7, 7]), (rec_data, 1, [1, 5, 0])]
            @ take 4 (framed_bytes rec_data 1 [1, 6, 1, 9]),
          walk_pos = 19, torn = True\<rparr>)"
proof -
  let ?ws = "[(rec_create, 1, [7, 7]), (rec_data, 1, [1, 5, 0])] :: written list"
  have l: "length (framed_bytes rec_data 1 [1, 6, 1, 9]) = 7" "length (all_bytes ?ws) = 11"
    "length magic = 8" by code_simp+
  have k: "\<forall>w\<in>set ?ws. lengthed (fst w)" "lengthed rec_data" by (simp_all add: lengthed_def)
  from walk_survives_crash [OF k, of "[1, 6, 1, 9]" 4 1 _ magic, OF _ _ refl] l
  show ?thesis by simp
qed

end
