(* ===== verification/Fenec_Blocks.thy ===== *)
theory Fenec_Blocks
  imports Fenec_Records Fenec_Store_Laws
begin

text \<open>
  A block of writes that lands as one record (\<open>Block\<close> of \<open>fenec-core/src/engine.rs\<close>, and its
  spills, \<open>engine/handover.rs\<close>): the frames held back, the record they land as and its length,
  the spill of a block that outgrew its room and the land that names the spills, and the notes of
  where a record's frames went in the file. What the record holds is stated by the writes the
  block was handed, however often it spilled.

  Of \<open>Block\<close> the buffers of the record are modelled; the marks and undo log are the store's
  (\<open>Fenec_Store\<close>), the waiting vectors an index's.
\<close>

section \<open>Blocks\<close>

record block =
  b_frames :: bytes
  b_heads :: "(u8 \<times> u32 \<times> usize) list"
  b_notes :: "(u32 \<times> docid) list"
  b_spilled :: "(u64 \<times> u64) list"
  b_spilled_writes :: usize

definition block_cleared :: "block \<Rightarrow> block" where
  "block_cleared b = b\<lparr>b_frames := replicate head_room 0, b_heads := [], b_notes := [],
     b_spilled := [], b_spilled_writes := 0\<rparr>"

text \<open>\<open>wal\<close> and \<open>note\<close> inside a block: the write's bytes and its mark held back.\<close>

definition wal_held :: "u8 \<Rightarrow> u32 \<Rightarrow> bytes \<Rightarrow> block \<Rightarrow> block" where
  "wal_held kind cid p b =
     (let fr = b_frames b @ p
      in b\<lparr>b_frames := fr, b_heads := b_heads b @ [(kind, cid, length fr)]\<rparr>)"

definition note_held :: "u32 \<Rightarrow> docid \<Rightarrow> block \<Rightarrow> block" where
  "note_held cid i b = b\<lparr>b_notes := b_notes b @ [(cid, i)]\<rparr>"

section \<open>The record a block lands as\<close>

fun inner_loop :: "bytes \<Rightarrow> (u8 \<times> u32 \<times> usize) list \<Rightarrow> usize \<Rightarrow> bytes \<Rightarrow> bytes result" where
  "inner_loop fr [] start body = Ok body"
| "inner_loop fr ((kind, cid, e) # hs) start body =
     (case get_range fr start e of
        None \<Rightarrow> Panic
      | Some run \<Rightarrow> and_then (frame_into body kind cid run) (inner_loop fr hs e))"

definition one_record :: "block \<Rightarrow> bool" where
  "one_record b \<longleftrightarrow> (let (kind, cid, _) = hd (b_heads b) in
     length (b_heads b) = 1 \<or> (\<forall>h\<in>set (b_heads b). fst h = rec_data \<and> fst (snd h) = cid))"

text \<open>
  The record, and the block as the record leaves it: where one record holds every frame, its
  head is written into the room before them.
\<close>

definition block_record :: "block \<Rightarrow> (bytes \<times> block) result" where
  "block_record b =
     (if b_heads b = [] then Panic
      else let (kind, cid, _) = hd (b_heads b) in
        if one_record b then
          and_then (rec_head kind cid (usize_sub (length (b_frames b)) head_room)) (\<lambda>(h, n).
            if head_room < n \<or> length (b_frames b) < head_room then Panic
            else let fr = take (head_room - n) (b_frames b) @ take n h @ drop head_room (b_frames b)
                 in Ok (drop (head_room - n) fr, b\<lparr>b_frames := fr\<rparr>))
        else
          and_then (inner_loop (b_frames b) (b_heads b) head_room []) (\<lambda>body.
          map_ok (\<lambda>r. (r, b)) (framed rec_block 0 body)))"

fun inner_len :: "(u8 \<times> u32 \<times> usize) list \<Rightarrow> usize \<Rightarrow> usize \<Rightarrow> usize result" where
  "inner_len [] start body = Ok body"
| "inner_len ((kind, cid, e) # hs) start body =
     and_then (rec_head kind cid (usize_sub e start)) (\<lambda>(_, n).
       inner_len hs e (usize_add body (usize_sub (usize_add n e) start)))"

definition record_len :: "block \<Rightarrow> usize result" where
  "record_len b =
     (if b_heads b = [] then Panic
      else let (kind, cid, _) = hd (b_heads b) in
        if one_record b then
          (let len = usize_sub (length (b_frames b)) head_room
           in map_ok (\<lambda>(_, n). usize_add n len) (rec_head kind cid len))
        else
          and_then (inner_len (b_heads b) head_room 0) (\<lambda>body.
          map_ok (\<lambda>(_, n). usize_add n body) (rec_head rec_block 0 body)))"

section \<open>Spills and lands\<close>

function run_end :: "u8 \<Rightarrow> u32 \<Rightarrow> (u8 \<times> u32 \<times> usize) list \<Rightarrow> nat \<Rightarrow> usize \<Rightarrow> nat \<times> usize" where
  "run_end kind cid hs nxt e =
     (if kind = rec_data \<and> nxt < length hs \<and> fst (hs ! nxt) = rec_data \<and> fst (snd (hs ! nxt)) = cid
      then run_end kind cid hs (nxt + 1) (snd (snd (hs ! nxt)))
      else (nxt, e))"
  by pat_completeness auto
termination
  by (relation "measure (\<lambda>(kind, cid, hs, nxt, e). length hs - nxt)") auto

declare run_end.simps [simp del]

lemma run_end_le: "nxt \<le> fst (run_end kind cid hs nxt e)"
proof (induction kind cid hs nxt e rule: run_end.induct)
  case (1 kind cid hs nxt e)
  then show ?case by (subst run_end.simps) (auto simp del: One_nat_def dest: Suc_leD)
qed

function body_loop :: "bytes \<Rightarrow> (u8 \<times> u32 \<times> usize) list \<Rightarrow> nat \<Rightarrow> usize \<Rightarrow> bytes \<Rightarrow> bytes result" where
  "body_loop fr hs k start body =
     (if k < length hs then
        (let (kind, cid, e) = hs ! k; (nxt, e) = run_end kind cid hs (k + 1) e
         in case get_range fr start e of
              None \<Rightarrow> Panic
            | Some run \<Rightarrow> and_then (frame_into body kind cid run) (body_loop fr hs nxt e))
      else Ok body)"
  by pat_completeness auto
termination
proof (relation "measure (\<lambda>(fr, hs, k, start, body). length hs - k)", goal_cases)
  case (2 fr hs k start body kc kind ce cid e ne nxt e' run)
  have "k + 1 \<le> nxt" using run_end_le [of "k + 1" kind cid hs e] 2 by (metis fst_conv)
  with 2(1) show ?case by simp
qed simp

declare body_loop.simps [simp del]

definition body_from :: "nat \<Rightarrow> block \<Rightarrow> bytes result" where
  "body_from k b = body_loop (b_frames b) (b_heads b) k head_room []"

text \<open>
  What a spill leaves of its block, its record appended at \<open>at\<close>: where the record's body is, the
  buffer let go, the writes so far counted as spilled. The record comes with it.
\<close>

definition spill_held :: "nat \<Rightarrow> block \<Rightarrow> (bytes \<times> bytes \<times> block) result" where
  "spill_held at b =
     and_then (body_from (b_spilled_writes b) b) (\<lambda>body.
     and_then (framed rec_spill 0 body) (\<lambda>rcd.
       Ok (rcd, body, b\<lparr>b_spilled := b_spilled b
              @ [(word_of_nat (at + (length rcd - length body)), word_of_nat (length body))],
            b_frames := take head_room (b_frames b), b_spilled_writes := length (b_heads b)\<rparr>)))"

definition put_spills :: "(u64 \<times> u64) list \<Rightarrow> bytes" where
  "put_spills ss = put_len ss @ concat (map (\<lambda>(s, n). put_uvarint s @ put_uvarint n) ss)"

definition land_record :: "block \<Rightarrow> bytes result" where
  "land_record b =
     and_then (body_from (b_spilled_writes b) b) (\<lambda>rest.
       framed rec_land 0 (put_spills (b_spilled b) @ rest))"

section \<open>Where a record's frames went\<close>

record landed =
  landed_cid :: u32
  landed_len :: u64
  landed_at :: u64

definition note_run :: "u32 \<Rightarrow> usize \<Rightarrow> u64 \<Rightarrow> landed list \<times> u64 \<Rightarrow> landed list \<times> u64" where
  "note_run cid len at = (\<lambda>(ls, total).
     if 0 < len then (ls @ [\<lparr>landed_cid = cid, landed_len = word_of_nat len, landed_at = at\<rparr>],
                      total + word_of_nat len)
     else (ls, total))"

function note_inner :: "bytes \<Rightarrow> usize \<Rightarrow> u64 \<Rightarrow> usize \<Rightarrow> landed list \<times> u64 \<Rightarrow> (landed list \<times> u64) result" where
  "note_inner body from at p st =
     (if p < length body then
        (case record_at body p of
           Ok (r, q) \<Rightarrow>
             note_inner body from at q
               (if rec_kind r = rec_data
                then note_run (rec_cid r) (length (rec_body r)) (at + word_of_nat (from + rec_body_at r)) st
                else st)
         | Err e \<Rightarrow> Ok st
         | Panic \<Rightarrow> Panic)
      else Ok st)"
  by pat_completeness auto
termination
  by (relation "measure (\<lambda>(body, from, at, p, st). length body - p)") (auto dest: record_at_progress)

declare note_inner.simps [simp del]

definition note_record :: "u64 \<Rightarrow> bytes \<Rightarrow> landed list \<times> u64 \<Rightarrow> (landed list \<times> u64) result" where
  "note_record at rcd st =
     (case record_at rcd 0 of
        Err e \<Rightarrow> Ok st
      | Panic \<Rightarrow> Panic
      | Ok (r, _) \<Rightarrow>
          if rec_kind r = rec_data then
            Ok (note_run (rec_cid r) (length (rec_body r)) (at + word_of_nat (rec_body_at r)) st)
          else if rec_kind r = rec_block then note_inner (rec_body r) (rec_body_at r) at 0 st
          else if rec_kind r = rec_land then
            (case land_parts (rec_body r) of
               Ok (_, rest) \<Rightarrow>
                 note_inner rest (rec_body_at r + length (rec_body r) - length rest) at 0 st
             | Err e \<Rightarrow> Ok st
             | Panic \<Rightarrow> Panic)
          else Ok st)"

section \<open>The writes a block holds\<close>

text \<open>
  The writes are the records handed to \<open>wal\<close>: the heads name where each one's bytes end, from
  the room on. \<open>holds b done ws\<close>: the block has spilled \<open>done\<close> writes and holds \<open>ws\<close> since.
\<close>

fun heads_of :: "usize \<Rightarrow> written list \<Rightarrow> (u8 \<times> u32 \<times> usize) list" where
  "heads_of start [] = []"
| "heads_of start ((k, c, b) # ws) = (k, c, start + length b) # heads_of (start + length b) ws"

abbreviation bodies :: "written list \<Rightarrow> bytes" where
  "bodies ws \<equiv> concat (map (\<lambda>w. snd (snd w)) ws)"

definition holds :: "block \<Rightarrow> nat \<Rightarrow> written list \<Rightarrow> bool" where
  "holds b n ws \<longleftrightarrow> n = b_spilled_writes b \<and>
     (\<exists>hs rm. length hs = n \<and> b_heads b = hs @ heads_of head_room ws
        \<and> length rm = head_room \<and> b_frames b = rm @ bodies ws)"

lemma length_heads_of [simp]: "length (heads_of start ws) = length ws"
  by (induction start ws rule: heads_of.induct) auto

lemma heads_of_append: "heads_of start (xs @ ys) = heads_of start xs @ heads_of (start + length (bodies xs)) ys"
  by (induction start xs rule: heads_of.induct) (auto simp: add.assoc)

lemma heads_of_kinds: "map (\<lambda>h. (fst h, fst (snd h))) (heads_of start ws) = map (\<lambda>w. (fst w, fst (snd w))) ws"
  by (induction start ws rule: heads_of.induct) auto

lemma holds_cleared: "holds (block_cleared b) 0 []"
  by (auto simp: holds_def block_cleared_def)

lemma holds_wal: "holds b n ws \<Longrightarrow> holds (wal_held k c p b) n (ws @ [(k, c, p)])"
  by (auto simp: holds_def wal_held_def Let_def heads_of_append)

lemma holds_note: "holds (note_held c i b) n ws \<longleftrightarrow> holds b n ws"
  by (simp add: holds_def note_held_def)

text \<open>Neighbouring data records of one collection read as one: what \<open>body_from\<close> makes of them.\<close>

fun push_run :: "written \<Rightarrow> written list \<Rightarrow> written list" where
  "push_run w [] = [w]"
| "push_run (k, c, b) ((k', c', b') # ws) =
     (if k = rec_data \<and> k' = rec_data \<and> c = c' then (k, c, b @ b') # ws
      else (k, c, b) # (k', c', b') # ws)"

definition merge_runs :: "written list \<Rightarrow> written list" where
  "merge_runs ws = foldr push_run ws []"

lemma push_run_assoc:
  "foldr push_run (push_run x ms) zs = push_run x (foldr push_run ms zs)"
proof (cases ms)
  case (Cons m ms')
  obtain k c b where x: "x = (k, c, b)" by (metis prod_cases3)
  obtain k' c' b' where m: "m = (k', c', b')" by (metis prod_cases3)
  show ?thesis
  proof (cases "foldr push_run ms' zs")
    case Nil
    then show ?thesis by (simp add: Cons x m)
  next
    case (Cons r rs)
    obtain k'' c'' b'' where r: "r = (k'', c'', b'')" by (metis prod_cases3)
    from Cons r show ?thesis by (simp add: \<open>ms = m # ms'\<close> x m)
  qed
qed simp

lemma merge_merged: "foldr push_run (merge_runs xs) zs = foldr push_run xs zs"
  by (induction xs) (simp_all add: merge_runs_def push_run_assoc)

lemma merge_parts: "merge_runs (concat (map merge_runs xss)) = merge_runs (concat xss)"
proof -
  have "foldr push_run (concat (map merge_runs xss)) zs = foldr push_run (concat xss) zs" for zs
    by (induction xss) (simp_all add: merge_merged)
  then show ?thesis by (simp add: merge_runs_def)
qed

lemma merge_runs_Cons: "merge_runs (w # ws) = push_run w (merge_runs ws)"
  by (simp add: merge_runs_def)

lemma hd_merge_runs:
  "merge_runs ((k, c, b) # ws) \<noteq> [] \<and> fst (hd (merge_runs ((k, c, b) # ws))) = k
     \<and> fst (snd (hd (merge_runs ((k, c, b) # ws)))) = c"
  by (cases "merge_runs ws") (auto simp: merge_runs_Cons split: if_splits)

text \<open>A run of one collection's data records, up to the first record that is not one of them.\<close>

definition same_run :: "u32 \<Rightarrow> written \<Rightarrow> bool" where
  "same_run c w \<longleftrightarrow> fst w = rec_data \<and> fst (snd w) = c"

lemma push_run_apart:
  assumes "rest = [] \<or> k \<noteq> rec_data \<or> \<not> same_run c (hd rest)"
  shows "push_run (k, c, b) (merge_runs rest) = (k, c, b) # merge_runs rest"
proof (cases rest)
  case (Cons r rs)
  obtain k' c' b' where r: "r = (k', c', b')" by (metis prod_cases3)
  from hd_merge_runs [of k' c' b' rs] obtain b'' ms where
    "merge_runs rest = (k', c', b'') # ms" by (cases "merge_runs rest") (auto simp: Cons r)
  with assms Cons r show ?thesis by (auto simp: same_run_def)
qed (simp add: merge_runs_def)

lemma merge_run:
  "\<forall>w\<in>set same. same_run c w \<Longrightarrow> rest = [] \<or> \<not> same_run c (hd rest) \<Longrightarrow>
   merge_runs ((rec_data, c, b) # same @ rest) = (rec_data, c, b @ bodies same) # merge_runs rest"
proof (induction same arbitrary: b)
  case Nil
  then show ?case by (simp add: merge_runs_Cons push_run_apart)
next
  case (Cons s same)
  obtain k c' b' where s: "s = (k, c', b')" by (metis prod_cases3)
  with Cons.prems have "k = rec_data" "c' = c" by (simp_all add: same_run_def)
  with Cons s show ?case by (simp add: merge_runs_Cons)
qed

lemma drop_ConsD: "drop k xs = y # ys \<Longrightarrow> k < length xs \<and> xs ! k = y \<and> drop (k + 1) xs = ys"
  by (metis Cons_nth_drop_Suc Suc_eq_plus1 drop_eq_Nil2 linorder_not_less list.distinct(1) list.inject)

lemma run_end_run:
  "drop nxt hs = heads_of e ws \<Longrightarrow>
   run_end rec_data c hs nxt e
     = (nxt + length (takeWhile (same_run c) ws), e + length (bodies (takeWhile (same_run c) ws)))"
proof (induction ws arbitrary: nxt e)
  case Nil
  then have "length hs \<le> nxt" by simp
  then show ?case by (subst run_end.simps) simp
next
  case (Cons w ws)
  obtain k c' b where w: "w = (k, c', b)" by (metis prod_cases3)
  from Cons.prems have d: "drop nxt hs = (k, c', e + length b) # heads_of (e + length b) ws"
    by (simp add: w)
  then have n: "nxt < length hs" "hs ! nxt = (k, c', e + length b)"
    and d': "drop (nxt + 1) hs = heads_of (e + length b) ws"
    using drop_ConsD [OF d] by simp_all
  show ?case
  proof (cases "same_run c w")
    case True
    then have "run_end rec_data c hs nxt e = run_end rec_data c hs (nxt + 1) (e + length b)"
      using n by (subst run_end.simps) (simp add: same_run_def w)
    with Cons.IH [OF d'] True show ?thesis by (simp add: w add.assoc)
  next
    case False
    with n show ?thesis by (subst run_end.simps) (auto simp: same_run_def w)
  qed
qed

lemma body_loop_merges:
  "drop k hs = heads_of (length pre) ws \<Longrightarrow> fr = pre @ bodies ws \<Longrightarrow>
   body_loop fr hs k (length pre) out = Ok (out @ all_bytes (merge_runs ws))"
proof (induction "length ws" arbitrary: ws k pre out rule: less_induct)
  case less
  show ?case
  proof (cases ws)
    case Nil
    with less.prems have "length hs \<le> k" by simp
    with Nil show ?thesis by (subst body_loop.simps) (simp add: merge_runs_def all_bytes_def)
  next
    case (Cons w ws')
    obtain kd c b where w: "w = (kd, c, b)" by (metis prod_cases3)
    from less.prems have d: "drop k hs = (kd, c, length pre + length b) # heads_of (length pre + length b) ws'"
      by (simp add: Cons w)
    then have n: "k < length hs" "hs ! k = (kd, c, length pre + length b)"
      and d': "drop (k + 1) hs = heads_of (length pre + length b) ws'"
      using drop_ConsD [OF d] by simp_all
    define same where "same = (if kd = rec_data then takeWhile (same_run c) ws' else [])"
    define rest where "rest = drop (length same) ws'"
    have sr: "ws' = same @ rest"
      unfolding rest_def same_def by (simp add: takeWhile_dropWhile_id [symmetric] dropWhile_eq_drop [symmetric])
    have re: "run_end kd c hs (k + 1) (length pre + length b)
        = (k + 1 + length same, length pre + length b + length (bodies same))"
    proof (cases "kd = rec_data")
      case True
      with run_end_run [OF d', of c] show ?thesis by (simp add: same_def)
    next
      case False
      then show ?thesis by (subst run_end.simps) (simp add: same_def)
    qed
    let ?run = "b @ bodies same"
    have fr: "fr = (pre @ ?run) @ bodies rest" using less.prems(2) by (simp add: Cons w sr)
    have g: "get_range fr (length pre) (length pre + length b + length (bodies same)) = Some ?run"
      unfolding fr by (simp add: get_range_def)
    have dk: "drop (k + 1 + length same) hs = heads_of (length (pre @ ?run)) rest"
    proof -
      have "drop (k + 1 + length same) hs = drop (length same) (heads_of (length pre + length b) ws')"
        unfolding d' [symmetric] by (simp add: add.commute)
      then show ?thesis unfolding sr heads_of_append by (simp add: add.assoc)
    qed
    have IH: "body_loop fr hs (k + 1 + length same) (length (pre @ ?run)) (out @ framed_bytes kd c ?run)
        = Ok ((out @ framed_bytes kd c ?run) @ all_bytes (merge_runs rest))"
      by (rule less.hyps [OF _ dk fr]) (simp add: Cons sr)
    have m: "merge_runs ws = (kd, c, ?run) # merge_runs rest"
    proof (cases "kd = rec_data")
      case True
      have "rest = [] \<or> \<not> same_run c (hd rest)"
        using True hd_dropWhile [of "same_run c" ws'] unfolding rest_def same_def
        by (auto simp: dropWhile_eq_drop [of "same_run c" ws'])
      moreover have "\<forall>w\<in>set same. same_run c w" using True by (auto simp: same_def dest: set_takeWhileD)
      ultimately show ?thesis using True merge_run by (simp add: Cons w sr)
    next
      case False
      then show ?thesis by (simp add: Cons w sr same_def merge_runs_Cons push_run_apart)
    qed
    from n re g IH m show ?thesis
      by (subst body_loop.simps) (simp add: frame_into_ok all_bytes_def add.assoc)
  qed
qed

lemma body_from_holds: "holds b n ws \<Longrightarrow> body_from n b = Ok (all_bytes (merge_runs ws))"
proof -
  assume "holds b n ws"
  then obtain hs rm where b: "length hs = n" "b_heads b = hs @ heads_of (length rm) ws"
    "length rm = head_room" "b_frames b = rm @ bodies ws" by (auto simp: holds_def)
  from body_loop_merges [OF _ b(4), of n "b_heads b" "[]"] b(1-3) show ?thesis
    by (simp add: body_from_def)
qed

section \<open>The record of a block that did not spill\<close>

definition landed_as :: "written list \<Rightarrow> bytes" where
  "landed_as ws =
     (if length ws = 1 \<or> (\<forall>w\<in>set ws. same_run (fst (snd (hd ws))) w)
      then framed_bytes (fst (hd ws)) (fst (snd (hd ws))) (bodies ws)
      else framed_bytes rec_block 0 (all_bytes ws))"

lemma usize_sub_small: "b \<le> a \<Longrightarrow> a < 2 ^ 64 \<Longrightarrow> usize_sub a b = a - b"
proof -
  assume "b \<le> a" "a < 2 ^ 64"
  then have "(a + 2 ^ 64 - b) mod 2 ^ 64 = (a - b + 2 ^ 64) mod 2 ^ 64" by simp
  also have "\<dots> = a - b" using \<open>a < 2 ^ 64\<close> by (subst mod_add_self2) simp
  finally show ?thesis by (simp add: usize_sub_def)
qed

lemma holds_fresh:
  assumes "holds b 0 ws"
  obtains rm where "b_heads b = heads_of head_room ws" "length rm = head_room" "b_frames b = rm @ bodies ws"
  using assms by (auto simp: holds_def)

lemma one_record_heads:
  assumes "b_heads b = heads_of head_room ws" "ws \<noteq> []"
  shows "one_record b \<longleftrightarrow> length ws = 1 \<or> (\<forall>w\<in>set ws. same_run (fst (snd (hd ws))) w)"
proof -
  obtain k c d ws' where ws: "ws = (k, c, d) # ws'" using assms(2) by (metis neq_Nil_conv prod_cases3)
  have "(\<forall>h\<in>set (b_heads b). fst h = rec_data \<and> fst (snd h) = c)
      \<longleftrightarrow> (\<forall>x\<in>set (map (\<lambda>h. (fst h, fst (snd h))) (b_heads b)). fst x = rec_data \<and> snd x = c)" by auto
  also have "\<dots> \<longleftrightarrow> (\<forall>w\<in>set ws. same_run c w)"
    unfolding assms(1) heads_of_kinds by (auto simp: same_run_def)
  finally show ?thesis using assms(1) by (simp add: one_record_def ws)
qed

lemma inner_loop_all:
  "fr = pre @ bodies ws \<Longrightarrow> inner_loop fr (heads_of (length pre) ws) (length pre) out = Ok (out @ all_bytes ws)"
proof (induction ws arbitrary: pre out)
  case Nil
  then show ?case by (simp add: all_bytes_def)
next
  case (Cons w ws)
  obtain k c d where w: "w = (k, c, d)" by (metis prod_cases3)
  have fr: "fr = (pre @ d) @ bodies ws" using Cons.prems by (simp add: w)
  have "get_range fr (length pre) (length pre + length d) = Some d" by (simp add: fr get_range_def)
  with Cons.IH [OF fr, of "out @ framed_bytes k c d"] show ?case
    by (simp add: w frame_into_ok all_bytes_def)
qed

lemma block_record_ok:
  assumes h: "holds b 0 ws" and ne: "ws \<noteq> []" and lim: "length (b_frames b) < 2 ^ 64"
  shows "map_ok fst (block_record b) = Ok (landed_as ws)"
proof -
  from h obtain rm where b: "b_heads b = heads_of head_room ws" "length rm = head_room"
    "b_frames b = rm @ bodies ws" by (rule holds_fresh)
  obtain k c d ws' where ws: "ws = (k, c, d) # ws'" using ne by (metis neq_Nil_conv prod_cases3)
  show ?thesis
  proof (cases "one_record b")
    case True
    define body where "body = bodies ws"
    define hdr where "hdr = k # put_uvarint (ucast c) @ put_len body"
    have s: "usize_sub (length (b_frames b)) head_room = length body"
      using usize_sub_small [of head_room "length (b_frames b)"] lim b by (simp add: body_def)
    obtain hb where hb: "rec_head k c (length body) = Ok (hb, length hdr)" "take (length hdr) hb = hdr"
      unfolding hdr_def put_len_def by (rule rec_head_ok)
    have "length (put_len body) \<le> 10" unfolding put_len_def using length_put_uvarint by blast
    then have n: "length hdr \<le> head_room" using uvarint_cid [of c] by (simp add: head_room_def hdr_def)
    have hh: "hd (b_heads b) = (k, c, head_room + length d)" "b_heads b \<noteq> []" using b(1) ws by simp_all
    have fr: "b_frames b = rm @ body" "length rm = head_room" using b by (simp_all add: body_def)
    have "map_ok fst (block_record b) = Ok (hdr @ body)"
      unfolding block_record_def Let_def s using True hh n fr by (simp add: hb)
    then show ?thesis
      using True one_record_heads [OF b(1) ne]
      by (simp add: landed_as_def ws framed_bytes_def hdr_def body_def)
  next
    case False
    have i: "inner_loop (b_frames b) (b_heads b) head_room [] = Ok (all_bytes ws)"
      using inner_loop_all [OF b(3), of "[]"] b by simp
    have hh: "hd (b_heads b) = (k, c, head_room + length d)" "b_heads b \<noteq> []" using b(1) ws by simp_all
    have "map_ok fst (block_record b) = Ok (framed_bytes rec_block 0 (all_bytes ws))"
      unfolding block_record_def Let_def i using False hh by (simp add: framed_ok)
    moreover have "landed_as ws = framed_bytes rec_block 0 (all_bytes ws)"
      using False one_record_heads [OF b(1) ne] by (simp only: landed_as_def if_False)
    ultimately show ?thesis by simp
  qed
qed

lemma length_rec_head:
  obtains h where "rec_head k c (length body) = Ok (h, length (framed_bytes k c body) - length body)"
proof -
  obtain h where "rec_head k c (length body) = Ok (h, length (k # put_uvarint (ucast c) @ put_uvarint (word_of_nat (length body))))"
    by (rule rec_head_ok)
  then have "rec_head k c (length body) = Ok (h, length (framed_bytes k c body) - length body)"
    by (simp add: framed_bytes_def put_len_def)
  with that show thesis by blast
qed

lemma length_framed_ge: "length body \<le> length (framed_bytes k c body)"
  by (simp add: framed_bytes_def)

lemma length_framed_le: "length (framed_bytes k c body) \<le> length body + 16"
  using uvarint_cid [of c] length_put_uvarint [of "word_of_nat (length body)"]
  by (simp add: framed_bytes_def put_len_def)

lemma inner_len_all:
  assumes "start + length (bodies ws) + length (all_bytes ws) + acc + 64 < 2 ^ 64"
  shows "inner_len (heads_of start ws) start acc = Ok (acc + length (all_bytes ws))"
  using assms
proof (induction ws arbitrary: start acc)
  case Nil
  then show ?case by (simp add: all_bytes_def)
next
  case (Cons w ws)
  obtain k c d where w: "w = (k, c, d)" by (metis prod_cases3)
  let ?f = "length (framed_bytes k c d)"
  have a: "length (all_bytes (w # ws)) = ?f + length (all_bytes ws)" by (simp add: all_bytes_def w)
  have lim: "start + length d + length (bodies ws) + ?f + length (all_bytes ws) + acc + 64 < 2 ^ 64"
    using Cons.prems a by (simp add: w)
  obtain h where h: "rec_head k c (length d) = Ok (h, ?f - length d)" by (rule length_rec_head)
  have ge: "length d \<le> ?f" by (rule length_framed_ge)
  have s1: "usize_sub (start + length d) start = length d" using usize_sub_small [of start "start + length d"] lim by simp
  have s2: "usize_add (?f - length d) (start + length d) = ?f + start"
    using usize_add_small [of "?f - length d" "start + length d"] lim ge by simp
  have s3: "usize_sub (?f + start) start = ?f" using usize_sub_small [of start "?f + start"] lim by simp
  have s4: "usize_add acc ?f = acc + ?f" using usize_add_small [of acc ?f] lim by simp
  have "inner_len (heads_of (start + length d) ws) (start + length d) (acc + ?f)
      = Ok (acc + ?f + length (all_bytes ws))"
    by (rule Cons.IH) (use lim in simp)
  with h show ?case unfolding a by (simp add: w s1 s2 s3 s4)
qed

lemma record_len_ok:
  assumes h: "holds b 0 ws" and ne: "ws \<noteq> []"
    and lim: "length (b_frames b) + length (all_bytes ws) + 128 < 2 ^ 64"
  shows "record_len b = Ok (length (landed_as ws))"
proof -
  from h obtain rm where b: "b_heads b = heads_of head_room ws" "length rm = head_room"
    "b_frames b = rm @ bodies ws" by (rule holds_fresh)
  obtain k c d ws' where ws: "ws = (k, c, d) # ws'" using ne by (metis neq_Nil_conv prod_cases3)
  have hh: "hd (b_heads b) = (k, c, head_room + length d)" "b_heads b \<noteq> []" using b(1) ws by simp_all
  show ?thesis
  proof (cases "one_record b")
    case True
    define body where "body = bodies ws"
    have fr: "length (b_frames b) = head_room + length body" using b by (simp add: body_def)
    have s: "usize_sub (length (b_frames b)) head_room = length body"
      using usize_sub_small [of head_room "length (b_frames b)"] lim fr by simp
    obtain h where h: "rec_head k c (length body) = Ok (h, length (framed_bytes k c body) - length body)"
      by (rule length_rec_head)
    have "usize_add (length (framed_bytes k c body) - length body) (length body) = length (framed_bytes k c body)"
      using usize_add_small [of "length (framed_bytes k c body) - length body" "length body"]
        length_framed_ge [of body k c] length_framed_le [of k c body] lim fr by simp
    then have "record_len b = Ok (length (framed_bytes k c body))"
      unfolding record_len_def Let_def s using True hh h by simp
    moreover have "landed_as ws = framed_bytes k c body"
      using True one_record_heads [OF b(1) ne] by (simp add: landed_as_def ws body_def)
    ultimately show ?thesis by simp
  next
    case False
    define body where "body = all_bytes ws"
    have i: "inner_len (b_heads b) head_room 0 = Ok (length body)"
      using inner_len_all [of head_room ws 0] lim b by (simp add: body_def)
    obtain h where h: "rec_head rec_block 0 (length body) = Ok (h, length (framed_bytes rec_block 0 body) - length body)"
      by (rule length_rec_head)
    have "usize_add (length (framed_bytes rec_block 0 body) - length body) (length body)
        = length (framed_bytes rec_block 0 body)"
      using usize_add_small [of "length (framed_bytes rec_block 0 body) - length body" "length body"]
        length_framed_ge [of body rec_block 0] length_framed_le [of rec_block 0 body] lim by (simp add: body_def)
    then have "record_len b = Ok (length (framed_bytes rec_block 0 body))"
      unfolding record_len_def Let_def i using False hh h by simp
    moreover have "landed_as ws = framed_bytes rec_block 0 body"
      using False one_record_heads [OF b(1) ne] by (simp only: landed_as_def if_False body_def)
    ultimately show ?thesis by simp
  qed
qed

section \<open>The writes a record counts\<close>

lemma frames_loop_step:
  assumes at: "at_pos body pos (frame op doc p)" and lim: "length body < 2 ^ 63"
  shows "frames_loop body pos n = frames_loop body (pos + length (frame op doc p)) (n + 1)"
proof -
  let ?v = "put_uvarint (word_of_nat doc :: u64)"
  from at have a: "pos < length body" "at_pos body (pos + 1) ?v"
    "at_pos body (pos + 1 + length ?v) (put_len p)"
    "at_pos body (pos + 1 + length ?v + length (put_len p)) p"
    unfolding frame_def by (simp_all add: at_simps get_byte_Some_iff)
  let ?q = "pos + 1 + length ?v + length (put_len p)"
  have le: "?q + length p \<le> length body" using at_pos_le [OF a(4)] .
  have n: "get_usize body (pos + 1 + length ?v) = Ok (length p, ?q)"
    using get_put_usize [OF a(3) [unfolded put_len_def]] le lim by (simp add: put_len_def)
  have u: "usize_add ?q (length p) = pos + length (frame op doc p)"
    using usize_add_small [of ?q "length p"] le lim by (simp add: frame_def)
  show ?thesis
    by (subst frames_loop.simps)
       (simp only: a(1) if_True get_put_uvarint [OF a(2)] and_then.simps prod.case n u
          result.case fst_conv snd_conv)
qed

lemma frames_loop_log:
  "at_pos body pos (log_bytes fs) \<Longrightarrow> pos + length (log_bytes fs) = length body \<Longrightarrow> length body < 2 ^ 63 \<Longrightarrow>
   frames_loop body pos n = Some (Ok (n + word_of_nat (length fs)))"
proof (induction fs arbitrary: pos n)
  case Nil
  then show ?case by (subst frames_loop.simps) simp
next
  case (Cons f fs)
  obtain op doc p where f: "f = (op, doc, p)" by (metis prod_cases3)
  have a: "at_pos body pos (frame op doc p)" "at_pos body (pos + length (frame op doc p)) (log_bytes fs)"
    using Cons.prems(1) by (simp_all add: f at_simps)
  from Cons.IH [OF a(2), of "n + 1"] Cons.prems(2,3) frames_loop_step [OF a(1), of n] show ?case
    by (simp add: f add.assoc)
qed

lemma frames_in_log: "length (log_bytes fs) < 2 ^ 63 \<Longrightarrow> frames_in (log_bytes fs) = Some (Ok (word_of_nat (length fs)))"
  using frames_loop_log [of "log_bytes fs" 0 fs 0] by (simp add: frames_in_def)

fun run_all :: "(u8 \<Rightarrow> u32 \<Rightarrow> bytes \<Rightarrow> 's \<Rightarrow> 's result option) \<Rightarrow> written list \<Rightarrow> 's \<Rightarrow> 's result option" where
  "run_all f [] st = Some (Ok st)"
| "run_all f ((k, c, b) # ws) st = run_then (f k c b st) (run_all f ws)"

lemma inner_not_seq: "inner_kind k \<Longrightarrow> k \<noteq> rec_seq"
  by (auto simp: inner_kind_def rec_kinds)

lemma each_inner_all:
  "at_pos body pos (all_bytes ws) \<Longrightarrow> pos + length (all_bytes ws) = length body \<Longrightarrow> length body < 2 ^ 63 \<Longrightarrow>
   \<forall>w\<in>set ws. inner_kind (fst w) \<Longrightarrow> each_inner f body pos st = run_all f ws st"
proof (induction ws arbitrary: pos st)
  case Nil
  then show ?case by (subst each_inner.simps) (simp add: all_bytes_def)
next
  case (Cons w ws)
  obtain k c d where w: "w = (k, c, d)" by (metis prod_cases3)
  let ?f = "framed_bytes k c d"
  have e: "all_bytes (w # ws) = ?f @ all_bytes ws" by (simp add: all_bytes_def w)
  have a: "at_pos body pos ?f" "at_pos body (pos + length ?f) (all_bytes ws)"
    using Cons.prems(1) by (simp_all add: e at_simps)
  have k: "inner_kind k" using Cons.prems(4) w by simp
  have lt: "pos < length body" using a(1) by (simp add: framed_bytes_def at_simps get_byte_Some_iff)
  have "each_inner f body (pos + length ?f) = run_all f ws"
    using Cons.IH [OF a(2)] Cons.prems(2-4) e by (intro ext) simp
  with lt record_at_framed [OF a(1) inner_not_seq [OF k] Cons.prems(3)] k show ?case
    by (subst each_inner.simps) (simp add: w)
qed

text \<open>How many writes a record of a block holds: its frames, or the one schema change.\<close>

definition counted :: "written \<Rightarrow> nat \<Rightarrow> bool" where
  "counted w n \<longleftrightarrow> inner_kind (fst w) \<and>
     (if fst w = rec_data then \<exists>fs. snd (snd w) = log_bytes fs \<and> n = length fs else n = 1)"

lemma count_all:
  "list_all2 counted ws ns \<Longrightarrow> length (all_bytes ws) < 2 ^ 63 \<Longrightarrow>
   run_all count_inner ws n = Some (Ok (n + word_of_nat (sum_list ns)))"
proof (induction ws ns arbitrary: n rule: list_all2_induct)
  case Nil
  then show ?case by simp
next
  case (Cons w ws m ns)
  obtain k c d where w: "w = (k, c, d)" by (metis prod_cases3)
  have l: "length d \<le> length (all_bytes (w # ws))" "length (all_bytes ws) \<le> length (all_bytes (w # ws))"
    using length_framed_ge [of d k c] by (simp_all add: all_bytes_def w)
  have "count_inner k c d n = Some (Ok (n + word_of_nat m))"
    using Cons.hyps(1) l Cons.prems by (auto simp: count_inner_def counted_def w frames_in_log)
  with Cons.IH [of "n + word_of_nat m"] l Cons.prems show ?case by (simp add: w add.assoc)
qed

lemma counted_merge:
  "list_all2 counted ws ns \<Longrightarrow> \<exists>ms. list_all2 counted (merge_runs ws) ms \<and> sum_list ms = sum_list ns"
proof (induction ws ns rule: list_all2_induct)
  case Nil
  then show ?case by (simp add: merge_runs_def)
next
  case (Cons w ws n ns)
  then obtain ms where ms: "list_all2 counted (merge_runs ws) ms" "sum_list ms = sum_list ns" by blast
  obtain k c d where w: "w = (k, c, d)" by (metis prod_cases3)
  show ?case
  proof (cases "merge_runs ws")
    case Nil
    with ms Cons.hyps(1) show ?thesis by (intro exI [of _ "[n]"]) (simp add: merge_runs_Cons)
  next
    case (Cons m rs)
    obtain k' c' d' where m: "m = (k', c', d')" by (metis prod_cases3)
    from ms(1) Cons obtain n' ms' where n': "ms = n' # ms'" "counted m n'" "list_all2 counted rs ms'"
      by (auto simp: list_all2_Cons1)
    show ?thesis
    proof (cases "k = rec_data \<and> k' = rec_data \<and> c = c'")
      case True
      with \<open>counted w n\<close> n'(2) obtain fs fs' where
        "d = log_bytes fs" "n = length fs" "d' = log_bytes fs'" "n' = length fs'"
        by (auto simp: counted_def w m)
      then have "counted (k, c, d @ d') (n + n')"
        using True \<open>counted w n\<close> by (auto simp: counted_def w intro!: exI [of _ "fs @ fs'"])
      with True n' ms(2) Cons show ?thesis
        by (intro exI [of _ "(n + n') # ms'"]) (simp add: merge_runs_Cons w m add.assoc)
    next
      case False
      with n' ms Cons \<open>counted w n\<close> show ?thesis
        by (intro exI [of _ "n # ms"]) (auto simp: merge_runs_Cons w m)
    qed
  qed
qed

lemma counted_all2_append: "list_all2 counted xs ms \<Longrightarrow> list_all2 counted ys ns \<Longrightarrow>
   list_all2 counted (xs @ ys) (ms @ ns)"
  by (rule list_all2_appendI)

lemma all2_inner: "list_all2 counted ws ns \<Longrightarrow> \<forall>w\<in>set ws. inner_kind (fst w)"
  by (induction ws ns rule: list_all2_induct) (auto simp: counted_def)

lemma writes_in_framed:
  assumes "k \<noteq> rec_seq" "length (framed_bytes k c body) < 2 ^ 63"
  shows "writes_in (framed_bytes k c body) =
     (if k = rec_data then frames_in body
      else if k = rec_block then each_inner count_inner body 0 0
      else if k \<in> {rec_create, rec_drop, rec_alter, rec_fields} then Some (Ok 1)
      else if k = rec_land then
        run_then (Some (land_parts body)) (\<lambda>(_, rest). each_inner count_inner rest 0 0)
      else Some (Ok 0))"
proof -
  obtain t where t: "framed_bytes k c body = k # t" by (simp add: framed_bytes_def)
  note r = record_at_framed [of "framed_bytes k c body" 0 k c body, OF _ assms]
  from r [simplified] show ?thesis unfolding t by (simp add: writes_in_def)
qed

lemma writes_in_block:
  assumes "list_all2 counted ws ns" "length (framed_bytes rec_block 0 (all_bytes ws)) < 2 ^ 63"
  shows "writes_in (framed_bytes rec_block 0 (all_bytes ws)) = Some (Ok (word_of_nat (sum_list ns)))"
proof -
  have l: "length (all_bytes ws) < 2 ^ 63" using assms(2) length_framed_ge [of "all_bytes ws" rec_block 0] by simp
  have "each_inner count_inner (all_bytes ws) 0 0 = run_all count_inner ws 0"
    by (rule each_inner_all) (use l all2_inner [OF assms(1)] in simp_all)
  with count_all [OF assms(1) l, of 0] writes_in_framed [OF _ assms(2)] show ?thesis
    by (simp add: rec_kinds)
qed

section \<open>What a record says was written\<close>

text \<open>A reader's view of a landed record: a block's records in turn, or the one record it is.\<close>

definition keep_inner :: "u8 \<Rightarrow> u32 \<Rightarrow> bytes \<Rightarrow> written list \<Rightarrow> written list result option" where
  "keep_inner k c body ws = Some (Ok (ws @ [(k, c, body)]))"

definition record_writes :: "bytes \<Rightarrow> written list result option" where
  "record_writes rcd =
     run_then (Some (record_at rcd 0)) (\<lambda>(r, _).
       if rec_kind r = rec_block then each_inner keep_inner (rec_body r) 0 []
       else Some (Ok [(rec_kind r, rec_cid r, rec_body r)]))"

lemma keep_all: "run_all keep_inner ws acc = Some (Ok (acc @ ws))"
  by (induction keep_inner ws acc rule: run_all.induct) (auto simp: keep_inner_def)

lemma record_writes_block:
  assumes "\<forall>w\<in>set ws. inner_kind (fst w)" "length (framed_bytes rec_block 0 (all_bytes ws)) < 2 ^ 63"
  shows "record_writes (framed_bytes rec_block 0 (all_bytes ws)) = Some (Ok ws)"
proof -
  have l: "length (all_bytes ws) < 2 ^ 63" using assms(2) length_framed_ge [of "all_bytes ws" rec_block 0] by simp
  have "each_inner keep_inner (all_bytes ws) 0 [] = run_all keep_inner ws []"
    by (rule each_inner_all) (use l assms(1) in simp_all)
  with record_at_framed [of "framed_bytes rec_block 0 (all_bytes ws)" 0 rec_block 0 "all_bytes ws"] assms(2)
  show ?thesis by (simp add: record_writes_def keep_all rec_block_def rec_seq_def)
qed

lemma merge_one:
  "ws \<noteq> [] \<Longrightarrow> \<forall>w\<in>set ws. same_run c w \<Longrightarrow> merge_runs ws = [(rec_data, c, bodies ws)]"
  using merge_run [of "tl ws" c "[]" "snd (snd (hd ws))"]
  by (cases ws) (auto simp: same_run_def merge_runs_def)

lemma landed_as_reads:
  assumes ne: "ws \<noteq> []" and ok: "\<forall>w\<in>set ws. counted w 1" and lim: "length (landed_as ws) < 2 ^ 63"
  shows "\<exists>xs. record_writes (landed_as ws) = Some (Ok xs) \<and> merge_runs xs = merge_runs ws"
    and "writes_in (landed_as ws) = Some (Ok (word_of_nat (length ws)))"
proof -
  obtain k c d ws' where ws: "ws = (k, c, d) # ws'" using ne by (metis neq_Nil_conv prod_cases3)
  have all2: "list_all2 counted ws (replicate (length ws) 1)"
    using ok by (simp add: list_all2_conv_all_nth)
  have k: "inner_kind k" using ok ws by (auto simp: counted_def)
  have "(\<exists>xs. record_writes (landed_as ws) = Some (Ok xs) \<and> merge_runs xs = merge_runs ws)
     \<and> writes_in (landed_as ws) = Some (Ok (word_of_nat (length ws)))"
  proof (cases "length ws = 1 \<or> (\<forall>w\<in>set ws. same_run c w)")
    case True
    then have la: "landed_as ws = framed_bytes k c (bodies ws)" by (simp add: landed_as_def ws)
    have m: "merge_runs ws = [(k, c, bodies ws)]"
      using True merge_one [OF ne] ws by (auto simp: merge_runs_def same_run_def)
    have "record_writes (landed_as ws) = Some (Ok [(k, c, bodies ws)])"
      using record_at_framed [of "framed_bytes k c (bodies ws)" 0 k c "bodies ws"] inner_not_seq [OF k] lim k
      by (auto simp: la record_writes_def inner_kind_def rec_kinds)
    moreover have "writes_in (landed_as ws) = Some (Ok (word_of_nat (length ws)))"
    proof -
      obtain ms where ms: "list_all2 counted (merge_runs ws) ms" "sum_list ms = length ws"
        using counted_merge [OF all2] by (auto simp: sum_list_replicate)
      then obtain n where n: "counted (k, c, bodies ws) n" "n = length ws"
        unfolding m by (auto simp: list_all2_Cons1)
      have "length (bodies ws) < 2 ^ 63" using lim length_framed_ge [of "bodies ws" k c] by (simp add: la)
      with n writes_in_framed [OF inner_not_seq [OF k] lim [unfolded la]] k show ?thesis
        unfolding la by (auto simp: counted_def frames_in_log inner_kind_def rec_kinds)
    qed
    moreover have "merge_runs [(k, c, bodies ws)] = merge_runs ws" using m by (simp add: merge_runs_def)
    ultimately show ?thesis by blast
  next
    case False
    then have la: "landed_as ws = framed_bytes rec_block 0 (all_bytes ws)" by (auto simp: landed_as_def ws)
    from record_writes_block [OF all2_inner [OF all2] lim [unfolded la]] writes_in_block [OF all2 lim [unfolded la]]
    show ?thesis unfolding la by (simp add: sum_list_replicate)
  qed
  then show "\<exists>xs. record_writes (landed_as ws) = Some (Ok xs) \<and> merge_runs xs = merge_runs ws"
    and "writes_in (landed_as ws) = Some (Ok (word_of_nat (length ws)))" by blast+
qed

definition wal_all :: "written list \<Rightarrow> block \<Rightarrow> block" where
  "wal_all ws b = fold (\<lambda>(k, c, p). wal_held k c p) ws b"

lemma holds_wal_all: "holds b n ws \<Longrightarrow> holds (wal_all xs b) n (ws @ xs)"
proof (induction xs arbitrary: b ws)
  case (Cons x xs)
  obtain k c p where x: "x = (k, c, p)" by (metis prod_cases3)
  from Cons.IH [OF holds_wal [OF Cons.prems, of k c p]] show ?case by (simp add: wal_all_def x)
qed (simp add: wal_all_def)

text \<open>A block spilled after each of the runs of writes, at the places its records went.\<close>

fun spill_run :: "(nat \<times> written list) list \<Rightarrow> block \<Rightarrow> (bytes list \<times> block) result" where
  "spill_run [] b = Ok ([], b)"
| "spill_run ((at, ws) # parts) b =
     and_then (spill_held at (wal_all ws b)) (\<lambda>(_, body, b).
     map_ok (\<lambda>(bs, b). (body # bs, b)) (spill_run parts b))"

lemma spill_held_holds:
  assumes "holds b n ws"
  shows "\<exists>b'. spill_held at b = Ok (framed_bytes rec_spill 0 (all_bytes (merge_runs ws)), all_bytes (merge_runs ws), b')
     \<and> holds b' (n + length ws) []"
proof -
  have "body_from (b_spilled_writes b) b = Ok (all_bytes (merge_runs ws))"
    using assms body_from_holds [OF assms] by (simp add: holds_def)
  with assms show ?thesis by (auto simp: spill_held_def framed_ok holds_def)
qed

lemma spill_run_holds:
  "holds b n [] \<Longrightarrow> \<exists>b'. spill_run parts b = Ok (map (\<lambda>(_, ws). all_bytes (merge_runs ws)) parts, b')
     \<and> holds b' (n + length (concat (map snd parts))) []"
proof (induction parts arbitrary: b n)
  case Nil
  then show ?case by simp
next
  case (Cons part parts)
  obtain at ws where p: "part = (at, ws)" by (rule prod.exhaust)
  have "holds (wal_all ws b) n ws" using holds_wal_all [OF Cons.prems, of ws] by simp
  from spill_held_holds [OF this, of at] obtain b1 where
    b1: "spill_held at (wal_all ws b) = Ok (framed_bytes rec_spill 0 (all_bytes (merge_runs ws)), all_bytes (merge_runs ws), b1)"
      "holds b1 (n + length ws) []" by blast
  from Cons.IH [OF b1(2)] obtain b2 where
    "spill_run parts b1 = Ok (map (\<lambda>(_, ws). all_bytes (merge_runs ws)) parts, b2)"
    "holds b2 (n + length ws + length (concat (map snd parts))) []" by blast
  with b1(1) show ?case by (simp add: p add.assoc)
qed

lemma land_name_put:
  assumes "at_pos body p (put_uvarint s @ put_uvarint n)"
  shows "land_name body p = Ok ((s, n), p + length (put_uvarint s @ put_uvarint n))"
proof -
  from assms have "at_pos body p (put_uvarint s)" "at_pos body (p + length (put_uvarint s)) (put_uvarint n)"
    by (simp_all add: at_simps)
  then show ?thesis by (simp add: land_name_def get_put_uvarint)
qed

interpretation land_wire: wire "\<lambda>(s, n). put_uvarint s @ put_uvarint n" land_name "\<lambda>_. True"
  by unfold_locales (auto simp: land_name_put)

lemma land_parts_put:
  assumes "length (put_spills ss @ rest) < 2 ^ 63"
  shows "land_parts (put_spills ss @ rest) = Ok (ss, rest)"
proof -
  let ?body = "put_spills ss @ rest" and ?e = "\<lambda>(s, n). put_uvarint s @ put_uvarint n"
  have "length ss \<le> length (concat (map ?e ss))"
  proof (induction ss)
    case (Cons x ss)
    obtain a b where "x = (a, b)" by (rule prod.exhaust)
    with Cons length_put_uvarint [of a] show ?case by simp
  qed simp
  then have n: "length ss < 2 ^ 64" using assms by (simp add: put_spills_def)
  have "at_pos ?body 0 (put_len ss)" "at_pos ?body (length (put_len ss)) (concat (map ?e ss))"
    using at_pos_whole [of "[]" "put_spills ss" rest] by (simp_all add: put_spills_def at_simps)
  with get_put_usize [of ?body 0 "length ss"] n land_wire.run_at [of ss ?body "length (put_len ss)"] assms
  have "get_usize ?body 0 = Ok (length ss, length (put_len ss))"
    "many (land_name ?body) (length ss) (length (put_len ss)) = Ok (ss, length (put_spills ss))"
    by (simp_all add: put_len_def put_spills_def)
  then show ?thesis by (simp add: land_parts_def)
qed

lemma land_record_holds:
  assumes "holds b n ws"
  shows "land_record b = Ok (framed_bytes rec_land 0 (put_spills (b_spilled b) @ all_bytes (merge_runs ws)))"
proof -
  have "body_from (b_spilled_writes b) b = Ok (all_bytes (merge_runs ws))"
    using assms body_from_holds [OF assms] by (simp add: holds_def)
  then show ?thesis by (simp add: land_record_def framed_ok)
qed

lemma b_spilled_wal_all [simp]: "b_spilled (wal_all ws b) = b_spilled b"
  by (induction ws arbitrary: b) (auto simp: wal_all_def wal_held_def Let_def)

lemma spilled_count:
  "spill_run parts b = Ok (sp, b') \<Longrightarrow> length (b_spilled b') = length (b_spilled b) + length parts"
proof (induction parts arbitrary: b sp b')
  case (Cons part parts)
  obtain at ws where p: "part = (at, ws)" by (rule prod.exhaust)
  from Cons.prems obtain rcd body b1 sp' where
    1: "spill_held at (wal_all ws b) = Ok (rcd, body, b1)" "spill_run parts b1 = Ok (sp', b')"
    by (auto simp: p result_simps)
  from 1(1) have "length (b_spilled b1) = Suc (length (b_spilled b))"
    by (auto simp: spill_held_def result_simps)
  with Cons.IH [OF 1(2)] show ?case by (simp add: p)
qed simp

lemma length_put_spills: "length (put_spills ss) \<le> 10 + 20 * length ss"
proof -
  have "length (concat (map (\<lambda>(s, n). put_uvarint s @ put_uvarint n) ss)) \<le> 20 * length ss"
  proof (induction ss)
    case (Cons x ss)
    obtain a b where "x = (a, b)" by (rule prod.exhaust)
    with Cons length_put_uvarint [of a] length_put_uvarint [of b] show ?case by simp
  qed simp
  then show ?thesis using length_put_uvarint [of "word_of_nat (length ss)"] by (simp add: put_spills_def put_len_def)
qed

lemma landed_block_ok:
  assumes "length (framed_bytes rec_land 0 (put_spills ss @ rest)) < 2 ^ 63"
  shows "landed_block spills (framed_bytes rec_land 0 (put_spills ss @ rest))
     = Ok (framed_bytes rec_block 0 (concat spills @ rest))"
proof -
  have "length (put_spills ss @ rest) < 2 ^ 63"
    using assms length_framed_ge [of "put_spills ss @ rest" rec_land 0] by simp
  from land_parts_put [OF this]
    record_at_framed [of "framed_bytes rec_land 0 (put_spills ss @ rest)" 0 rec_land 0 "put_spills ss @ rest", OF _ _ assms]
  show ?thesis by (simp add: landed_block_def framed_ok rec_land_def rec_seq_def)
qed

lemma spilled_merges:
  "merge_runs (concat (map (\<lambda>(_, ws). merge_runs ws) parts) @ merge_runs ws) = merge_runs (concat (map snd parts) @ ws)"
proof -
  have "map (\<lambda>(_, ws). merge_runs ws) parts = map merge_runs (map snd parts)" by auto
  then show ?thesis using merge_parts [of "map snd parts @ [ws]"]
    by (simp only: map_append list.map concat_append concat.simps append_Nil2)
qed

lemma concat_all_bytes: "concat (map (\<lambda>(_, ws). all_bytes (merge_runs ws)) parts) @ all_bytes ws
   = all_bytes (concat (map (\<lambda>(_, ws). merge_runs ws) parts) @ ws)"
  by (induction parts) (auto simp: all_bytes_def)

lemma counted_parts:
  assumes "\<forall>w\<in>set (concat (map snd parts) @ ws). counted w 1"
  shows "\<exists>ns. list_all2 counted (concat (map (\<lambda>(_, ws). merge_runs ws) parts) @ merge_runs ws) ns
     \<and> sum_list ns = length (concat (map snd parts) @ ws)"
proof -
  have one: "\<exists>ns. list_all2 counted (merge_runs xs) ns \<and> sum_list ns = length xs"
    if "\<forall>w\<in>set xs. counted w 1" for xs
    using counted_merge [of xs "replicate (length xs) 1"] that
    by (simp add: list_all2_conv_all_nth sum_list_replicate)
  from assms show ?thesis
  proof (induction parts)
    case Nil
    then show ?case using one [of ws] by simp
  next
    case (Cons part parts)
    obtain at xs where p: "part = (at, xs)" by (rule prod.exhaust)
    obtain ns where ns: "list_all2 counted (concat (map (\<lambda>(_, ws). merge_runs ws) parts) @ merge_runs ws) ns"
      "sum_list ns = length (concat (map snd parts) @ ws)" using Cons by (auto simp: p)
    obtain ms where "list_all2 counted (merge_runs xs) ms" "sum_list ms = length xs"
      using one [of xs] Cons.prems by (auto simp: p)
    with ns show ?case by (intro exI [of _ "ms @ ns"]) (simp add: p list_all2_appendI)
  qed
qed

text \<open>
  C7: A block that never spilled lands as one record holding exactly its writes. Handed any
  writes -- frames of any collections and schema changes, in any order -- the record made of the
  buffer reads back as those writes in their order (neighbouring frames of one collection
  possibly in one data record, which is how the stores hold them), counts as many writes as the
  commit moves the change counter by, and is to the byte as long as the quota was told before
  any of it was written.
\<close>

theorem block_lands_its_writes:
  assumes "ws \<noteq> []" and "\<forall>w\<in>set ws. counted w 1"
    and "length (bodies ws) + length (all_bytes ws) < 2 ^ 62"
    and "b = wal_all ws (block_cleared b0)"
  shows "\<exists>rcd xs. map_ok fst (block_record b) = Ok rcd \<and> record_len b = Ok (length rcd)
     \<and> record_writes rcd = Some (Ok xs) \<and> merge_runs xs = merge_runs ws
     \<and> writes_in rcd = Some (Ok (word_of_nat (length (b_heads b)))) \<and> length (b_heads b) = length ws"
proof -
  have h: "holds b 0 ws" using holds_wal_all [OF holds_cleared, of ws b0] assms(4) by simp
  then have hl: "length (b_heads b) = length ws" and fl: "length (b_frames b) = head_room + length (bodies ws)"
    by (auto simp: holds_def)
  have "length (landed_as ws) \<le> 16 + length (bodies ws) + length (all_bytes ws)"
    using length_framed_le [of "fst (hd ws)" "fst (snd (hd ws))" "bodies ws"]
      length_framed_le [of rec_block 0 "all_bytes ws"] by (simp add: landed_as_def)
  then have lim: "length (landed_as ws) < 2 ^ 63" using assms(3) by simp
  from block_record_ok [OF h assms(1)] record_len_ok [OF h assms(1)] landed_as_reads [OF assms(1,2) lim]
    assms(3) fl hl show ?thesis by (simp add: head_room_def)
qed

theorem block_lands_its_writes_witness:
  "let ws = [(rec_data, 1, frame op_put 5 [7]), (rec_create, 2, [9]), (rec_data, 1, frame op_del 5 [])];
       b = wal_all ws (block_cleared \<lparr>b_frames = [], b_heads = [], b_notes = [], b_spilled = [], b_spilled_writes = 0\<rparr>)
   in \<exists>rcd xs. map_ok fst (block_record b) = Ok rcd \<and> record_len b = Ok (length rcd)
     \<and> record_writes rcd = Some (Ok xs) \<and> merge_runs xs = merge_runs ws
     \<and> writes_in rcd = Some (Ok 3)"
proof -
  let ?ws = "[(rec_data, 1, frame op_put 5 [7]), (rec_create, 2, [9]), (rec_data, 1, frame op_del 5 [])] :: written list"
  have one: "\<exists>fs. frame op d p = log_bytes fs \<and> Suc 0 = length fs" for op d p
    by (rule exI [of _ "[(op, d, p)]"]) simp
  have c: "\<forall>w\<in>set ?ws. counted w 1"
    using one by (auto simp: counted_def inner_kind_def rec_kinds)
  have l: "length (bodies ?ws) = 8" "length (all_bytes ?ws) = 17" by code_simp+
  define b0 where "b0 = \<lparr>b_frames = [], b_heads = [], b_notes = [], b_spilled = [], b_spilled_writes = 0\<rparr>"
  define b where "b = wal_all ?ws (block_cleared b0)"
  have lim: "length (bodies ?ws) + length (all_bytes ?ws) < 2 ^ 62" unfolding l by simp
  obtain rcd xs where r: "map_ok fst (block_record b) = Ok rcd" "record_len b = Ok (length rcd)"
    "record_writes rcd = Some (Ok xs)" "merge_runs xs = merge_runs ?ws"
    "writes_in rcd = Some (Ok (word_of_nat (length (b_heads b))))" "length (b_heads b) = length ?ws"
    using block_lands_its_writes [OF _ c lim b_def] by blast
  from r(5,6) have "writes_in rcd = Some (Ok 3)" by simp
  with r(1-4) show ?thesis unfolding Let_def b0_def [symmetric] b_def [symmetric] by blast
qed

text \<open>
  C8: A block that outgrew memory lands as the block it would have been. However its writes were
  cut into spills, none of the spills panics or fails, the land names each spill by where its
  body is and how long, and the block record a feed makes of the spills' bodies and the land
  reads back as all the block's writes in their order and counts all of them.
\<close>

theorem spilled_block_is_block:
  assumes "\<forall>w\<in>set (concat (map snd parts) @ ws). counted w 1"
    and "length (all_bytes (concat (map (\<lambda>(_, ws). merge_runs ws) parts) @ merge_runs ws))
           + 32 * length parts < 2 ^ 62"
  shows "\<exists>spills b lnd blk xs.
     spill_run parts (block_cleared b0) = Ok (spills, b)
     \<and> land_record (wal_all ws b) = Ok lnd
     \<and> landed_block spills lnd = Ok blk
     \<and> record_writes blk = Some (Ok xs)
     \<and> merge_runs xs = merge_runs (concat (map snd parts) @ ws)
     \<and> writes_in blk = Some (Ok (word_of_nat (length (concat (map snd parts) @ ws))))
     \<and> length (b_heads (wal_all ws b)) = length (concat (map snd parts) @ ws)"
proof -
  let ?xs = "concat (map (\<lambda>(_, ws). merge_runs ws) parts) @ merge_runs ws"
  let ?sp = "map (\<lambda>(_, ws). all_bytes (merge_runs ws)) parts"
  obtain b where b: "spill_run parts (block_cleared b0) = Ok (?sp, b)"
    "holds b (length (concat (map snd parts))) []"
    using spill_run_holds [OF holds_cleared, of parts b0] by auto
  let ?b = "wal_all ws b"
  have h: "holds ?b (length (concat (map snd parts))) ws" using holds_wal_all [OF b(2), of ws] by simp
  have sl: "length (b_spilled ?b) \<le> length parts"
    using spilled_count [OF b(1)] by (simp add: block_cleared_def b_spilled_wal_all)
  let ?lnd = "framed_bytes rec_land 0 (put_spills (b_spilled ?b) @ all_bytes (merge_runs ws))"
  let ?blk = "framed_bytes rec_block 0 (all_bytes ?xs)"
  have "length (all_bytes (merge_runs ws)) \<le> length (all_bytes ?xs)" by (simp add: all_bytes_def)
  then have "length ?lnd \<le> 32 + 20 * length parts + length (all_bytes ?xs)"
    using length_framed_le [of rec_land 0 "put_spills (b_spilled ?b) @ all_bytes (merge_runs ws)"]
      length_put_spills [of "b_spilled ?b"] sl by simp
  then have "length ?lnd < 2 ^ 63" using assms(2) by simp
  from landed_block_ok [OF this, of ?sp] have lb: "landed_block ?sp ?lnd = Ok ?blk"
    by (simp add: concat_all_bytes)
  have lim: "length ?blk < 2 ^ 63" using length_framed_le [of rec_block 0 "all_bytes ?xs"] assms(2) by simp
  obtain ns where ns: "list_all2 counted ?xs ns" "sum_list ns = length (concat (map snd parts) @ ws)"
    using counted_parts [OF assms(1)] by blast
  have hl: "length (b_heads ?b) = length (concat (map snd parts) @ ws)" using h by (auto simp: holds_def)
  show ?thesis
    using b(1) land_record_holds [OF h] lb record_writes_block [OF all2_inner [OF ns(1)] lim]
      writes_in_block [OF ns(1) lim] spilled_merges ns(2) hl by metis
qed

theorem spilled_block_is_block_witness:
  "\<exists>spills b lnd blk.
     spill_run [(100, [(rec_data, 1, frame op_put 5 [7])]), (300, [(rec_data, 1, frame op_put 6 [8])])]
       (block_cleared \<lparr>b_frames = [], b_heads = [], b_notes = [], b_spilled = [], b_spilled_writes = 0\<rparr>) = Ok (spills, b)
     \<and> land_record (wal_all [(rec_drop, 2, [])] b) = Ok lnd
     \<and> landed_block spills lnd = Ok blk \<and> writes_in blk = Some (Ok 3)"
proof -
  let ?parts = "[(100, [(rec_data, 1, frame op_put 5 [7])]), (300, [(rec_data, 1, frame op_put 6 [8])])]
    :: (nat \<times> written list) list"
  let ?ws = "[(rec_drop, 2, [])] :: written list"
  have one: "\<exists>fs. frame op d p = log_bytes fs \<and> Suc 0 = length fs" for op d p
    by (rule exI [of _ "[(op, d, p)]"]) simp
  have c: "\<forall>w\<in>set (concat (map snd ?parts) @ ?ws). counted w 1"
    using one by (auto simp: counted_def inner_kind_def rec_kinds)
  have "length (all_bytes (concat (map (\<lambda>(_, ws). merge_runs ws) ?parts) @ merge_runs ?ws))
      + 32 * length ?parts = 81" by code_simp
  then have l: "length (all_bytes (concat (map (\<lambda>(_, ws). merge_runs ws) ?parts) @ merge_runs ?ws))
      + 32 * length ?parts < 2 ^ 62" by simp
  have "length (concat (map snd ?parts) @ ?ws) = 3" by simp
  with spilled_block_is_block [OF c l] show ?thesis by (metis of_nat_numeral)
qed

section \<open>Where the frames went\<close>

definition run_bytes :: "bytes \<Rightarrow> landed \<Rightarrow> bytes" where
  "run_bytes file l = take (unat (landed_len l)) (drop (unat (landed_at l)) file)"

text \<open>The runs noted hold each collection's frames, in order, where the file has them.\<close>

definition finds :: "bytes \<Rightarrow> landed list \<Rightarrow> written list \<Rightarrow> bool" where
  "finds fl ns ws \<longleftrightarrow> (\<forall>c. concat (map (run_bytes fl) (filter (\<lambda>l. landed_cid l = c) ns))
     = bodies (filter (same_run c) ws))"

lemma note_run_finds:
  assumes "at_pos fl a body" "length fl < 2 ^ 63"
  shows "\<exists>ns. note_run c (length body) (word_of_nat a) (ls, t) = (ls @ ns, t + word_of_nat (length body))
     \<and> finds fl ns [(rec_data, c, body)]"
proof (cases "body = []")
  case True
  then show ?thesis by (auto simp: note_run_def finds_def)
next
  case False
  have le: "a + length body \<le> length fl" using at_pos_le [OF assms(1)] .
  define l where "l = \<lparr>landed_cid = c, landed_len = word_of_nat (length body), landed_at = word_of_nat a\<rparr>"
  have "unat (landed_len l) = length body" "unat (landed_at l) = a"
    using le assms(2) by (simp_all add: l_def unat_of_nat)
  then have "run_bytes fl l = body" using assms(1) by (simp add: run_bytes_def at_pos_def)
  then have "finds fl [l] [(rec_data, c, body)]" by (auto simp: finds_def l_def same_run_def)
  with False show ?thesis by (auto simp: note_run_def l_def)
qed

lemma finds_append: "finds fl ns xs \<Longrightarrow> finds fl ms ys \<Longrightarrow> finds fl (ns @ ms) (xs @ ys)"
  by (simp add: finds_def)

lemma note_inner_finds:
  assumes "at_pos body p (all_bytes ws)" "p + length (all_bytes ws) = length body"
    and "at_pos fl (a + from + p) (all_bytes ws)" "length fl < 2 ^ 63" "length body < 2 ^ 63"
    and "\<forall>w\<in>set ws. inner_kind (fst w)"
  shows "\<exists>ns. note_inner body from (word_of_nat a) p (ls, t)
      = Ok (ls @ ns, t + word_of_nat (length (bodies (filter (\<lambda>w. fst w = rec_data) ws))))
      \<and> finds fl ns ws"
  using assms
proof (induction ws arbitrary: p ls t)
  case Nil
  then show ?case by (subst note_inner.simps) (simp add: all_bytes_def finds_def)
next
  case (Cons w ws)
  obtain k c d where w: "w = (k, c, d)" by (metis prod_cases3)
  let ?f = "framed_bytes k c d" and ?m = "\<lambda>ws. length (bodies (filter (\<lambda>w. fst w = rec_data) ws))"
  have e: "all_bytes (w # ws) = ?f @ all_bytes ws" by (simp add: all_bytes_def w)
  have a: "at_pos body p ?f" "at_pos body (p + length ?f) (all_bytes ws)"
    "at_pos fl (a + from + p) ?f" "at_pos fl (a + from + (p + length ?f)) (all_bytes ws)"
    using Cons.prems(1,3) by (simp_all add: e at_simps add.assoc)
  have k: "inner_kind k" using Cons.prems(6) w by simp
  have lt: "p < length body" using a(1) by (simp add: framed_bytes_def at_simps get_byte_Some_iff)
  note IH = Cons.IH [OF a(2) _ a(4) Cons.prems(4,5)]
  define at' where "at' = a + from + (p + (length ?f - length d))"
  have d: "at_pos fl at' d" using a(3) by (simp add: framed_bytes_def at_simps at'_def add.assoc)
  have w': "word_of_nat a + word_of_nat (from + (p + (length ?f - length d))) = (word_of_nat at' :: u64)"
    by (simp add: at'_def add.assoc)
  show ?case
  proof (cases "k = rec_data")
    case True
    from note_run_finds [OF d Cons.prems(4), of c ls t] obtain n1 where
      n1: "note_run c (length d) (word_of_nat at') (ls, t) = (ls @ n1, t + word_of_nat (length d))"
        "finds fl n1 [w]" using True by (auto simp: w)
    obtain n2 where n2: "note_inner body from (word_of_nat a) (p + length ?f) (ls @ n1, t + word_of_nat (length d))
        = Ok ((ls @ n1) @ n2, t + word_of_nat (length d) + word_of_nat (?m ws))" "finds fl n2 ws"
      using IH [of "ls @ n1" "t + word_of_nat (length d)"] Cons.prems(2,6) e by auto
    have "note_inner body from (word_of_nat a) p (ls, t)
        = note_inner body from (word_of_nat a) (p + length ?f) (note_run c (length d) (word_of_nat at') (ls, t))"
      using lt record_at_framed [OF a(1) inner_not_seq [OF k] Cons.prems(5)] True
      by (subst note_inner.simps) (simp add: w' [symmetric] del: of_nat_add)
    then have "note_inner body from (word_of_nat a) p (ls, t) = Ok (ls @ n1 @ n2, t + word_of_nat (?m (w # ws)))"
      using True unfolding n1(1) n2(1) by (simp add: w add.assoc)
    with finds_append [OF n1(2) n2(2)] show ?thesis by auto
  next
    case False
    obtain n2 where n2: "note_inner body from (word_of_nat a) (p + length ?f) (ls, t)
        = Ok (ls @ n2, t + word_of_nat (?m ws))" "finds fl n2 ws"
      using IH [of ls t] Cons.prems(2,6) e by auto
    moreover have "finds fl n2 (w # ws)" using n2(2) False by (simp add: finds_def same_run_def w)
    ultimately show ?thesis
      using lt record_at_framed [OF a(1) inner_not_seq [OF k] Cons.prems(5)] False
      by (subst note_inner.simps) (simp add: w)
  qed
qed

lemma inner_merge: "\<forall>w\<in>set ws. inner_kind (fst w) \<Longrightarrow> \<forall>w\<in>set (merge_runs ws). inner_kind (fst w)"
proof (induction ws)
  case (Cons w ws)
  obtain k c d where w: "w = (k, c, d)" by (metis prod_cases3)
  show ?case
  proof (cases "merge_runs ws")
    case Nil
    with Cons show ?thesis by (auto simp: merge_runs_Cons)
  next
    case (Cons m ms)
    obtain k' c' d' where m: "m = (k', c', d')" by (metis prod_cases3)
    from Cons.IH Cons.prems Cons show ?thesis by (auto simp: merge_runs_Cons w m)
  qed
qed (simp add: merge_runs_def)

lemma filter_same_merge: "bodies (filter (same_run c) (merge_runs ws)) = bodies (filter (same_run c) ws)"
proof (induction ws)
  case (Cons w ws)
  obtain k c' d where w: "w = (k, c', d)" by (metis prod_cases3)
  show ?case
  proof (cases "merge_runs ws")
    case Nil
    with Cons show ?thesis by (auto simp: merge_runs_Cons)
  next
    case (Cons m ms)
    obtain k' c'' d' where m: "m = (k', c'', d')" by (metis prod_cases3)
    from Cons.IH [unfolded Cons] show ?thesis
      unfolding merge_runs_Cons Cons by (auto simp: w m same_run_def)
  qed
qed (simp add: merge_runs_def)

lemma finds_merge: "finds fl ns (merge_runs ws) \<longleftrightarrow> finds fl ns ws"
  by (simp add: finds_def filter_same_merge)

lemma body_in_file:
  "at_pos fl a (framed_bytes k c body) \<Longrightarrow> at_pos fl (a + (length (framed_bytes k c body) - length body)) body"
  by (simp add: framed_bytes_def at_simps add.assoc)

lemma framed_front:
  assumes "k \<noteq> rec_seq" "length (framed_bytes k c body) < 2 ^ 63"
  shows "record_at (framed_bytes k c body) 0 = Ok (\<lparr>rec_kind = k, rec_cid = c, rec_at = 0,
      rec_body_at = length (framed_bytes k c body) - length body, rec_body = body\<rparr>,
      length (framed_bytes k c body))"
  using record_at_framed [of "framed_bytes k c body" 0 k c body] assms by simp

lemma note_one_record:
  assumes ne: "ws \<noteq> []" and one: "length ws = 1 \<or> (\<forall>w\<in>set ws. same_run c w)"
    and ws: "ws = (k, c, d) # ws'" and k: "inner_kind k"
    and at: "at_pos fl a (framed_bytes k c (bodies ws))" and lim: "length fl < 2 ^ 63"
  shows "\<exists>ns total. note_record (word_of_nat a) (framed_bytes k c (bodies ws)) ([], 0) = Ok (ns, total)
     \<and> finds fl ns ws"
proof -
  have "length (framed_bytes k c (bodies ws)) < 2 ^ 63" using at_pos_le [OF at] lim by simp
  note rd = framed_front [OF inner_not_seq [OF k] this]
  show ?thesis
  proof (cases "k = rec_data")
    case True
    then have same: "\<forall>w\<in>set ws. same_run c w" using one ws by (auto simp: same_run_def)
    have "finds fl ns ws \<longleftrightarrow> finds fl ns [(rec_data, c, bodies ws)]" for ns
      using finds_merge [of fl ns ws] merge_one [OF ne same] by simp
    with note_run_finds [OF body_in_file [OF at] lim, of c "[]" 0] rd True show ?thesis
      by (auto simp: note_record_def)
  next
    case False
    then have "length ws = 1" using one ws by (auto simp: same_run_def)
    with False ws have "finds fl [] ws" by (simp add: finds_def same_run_def)
    with rd False k show ?thesis by (auto simp: note_record_def inner_kind_def rec_kinds)
  qed
qed

lemma note_block_record:
  assumes "\<forall>w\<in>set ws. inner_kind (fst w)" and at: "at_pos fl a (framed_bytes rec_block 0 (all_bytes ws))"
    and lim: "length fl < 2 ^ 63"
  shows "\<exists>ns total. note_record (word_of_nat a) (framed_bytes rec_block 0 (all_bytes ws)) ([], 0) = Ok (ns, total)
     \<and> finds fl ns ws"
proof -
  have rl: "length (framed_bytes rec_block 0 (all_bytes ws)) < 2 ^ 63" using at_pos_le [OF at] lim by simp
  have l: "length (all_bytes ws) < 2 ^ 63" using rl length_framed_ge [of "all_bytes ws" rec_block 0] by simp
  have s: "at_pos (all_bytes ws) 0 (all_bytes ws)" by simp
  from note_inner_finds [OF s _ _ lim l assms(1), of a
      "length (framed_bytes rec_block 0 (all_bytes ws)) - length (all_bytes ws)" "[]" 0]
    body_in_file [OF at] framed_front [OF _ rl] show ?thesis
    by (auto simp: note_record_def rec_kinds)
qed

lemma note_land_record:
  assumes "\<forall>w\<in>set ws. inner_kind (fst w)" and lim: "length fl < 2 ^ 63"
    and at: "at_pos fl a (framed_bytes rec_land 0 (put_spills ss @ all_bytes ws))"
  shows "\<exists>ns total. note_record (word_of_nat a) (framed_bytes rec_land 0 (put_spills ss @ all_bytes ws)) ([], 0)
       = Ok (ns, total) \<and> finds fl ns ws"
proof -
  let ?body = "put_spills ss @ all_bytes ws"
  let ?from = "length (framed_bytes rec_land 0 ?body) - length ?body"
  have rl: "length (framed_bytes rec_land 0 ?body) < 2 ^ 63" using at_pos_le [OF at] lim by simp
  have l: "length ?body < 2 ^ 63" using rl length_framed_ge [of ?body rec_land 0] by simp
  have from': "?from + length ?body - length (all_bytes ws) = ?from + length (put_spills ss)" by simp
  have a: "at_pos fl (a + (?from + length (put_spills ss)) + 0) (all_bytes ws)"
    using body_in_file [OF at] by (simp add: at_simps add.assoc)
  have lm: "length (all_bytes ws) < 2 ^ 63" using l by simp
  have s: "at_pos (all_bytes ws) 0 (all_bytes ws)" by simp
  from note_inner_finds [OF s _ a lim lm assms(1), of "[]" 0] framed_front [OF _ rl] land_parts_put [OF l] from'
  show ?thesis by (auto simp: note_record_def rec_kinds)
qed

text \<open>
  C9: Where a landed record's frames are is known without reading the file. Of the record a block
  lands as, and of the land of a block that spilled, the runs noted give each collection exactly
  its frames, in the order they were written, at places of the file that hold those bytes --
  which is what a store is handed over to read from.
\<close>

theorem notes_find_frames:
  assumes "\<forall>w\<in>set ws. inner_kind (fst w)" and "ws \<noteq> []"
    and "rcd = landed_as ws \<or> rcd = framed_bytes rec_land 0 (put_spills ss @ all_bytes (merge_runs ws))"
    and "fl = pre @ rcd @ post" and "length fl < 2 ^ 63"
  shows "\<exists>ns total. note_record (word_of_nat (length pre)) rcd ([], 0) = Ok (ns, total) \<and>
     (\<forall>c. concat (map (run_bytes fl) (filter (\<lambda>l. landed_cid l = c) ns)) = bodies (filter (same_run c) ws))"
proof -
  have at: "at_pos fl (length pre) rcd" using assms(4) by simp
  obtain k c d ws' where ws: "ws = (k, c, d) # ws'" using assms(2) by (metis neq_Nil_conv prod_cases3)
  have k: "inner_kind k" using assms(1) ws by simp
  have "\<exists>ns total. note_record (word_of_nat (length pre)) rcd ([], 0) = Ok (ns, total) \<and> finds fl ns ws"
    using assms(3)
  proof
    assume r: "rcd = landed_as ws"
    show ?thesis
    proof (cases "length ws = 1 \<or> (\<forall>w\<in>set ws. same_run c w)")
      case True
      then have "rcd = framed_bytes k c (bodies ws)" by (simp add: r landed_as_def ws)
      with note_one_record [OF assms(2) True ws k _ assms(5)] at show ?thesis by simp
    next
      case False
      then have "rcd = framed_bytes rec_block 0 (all_bytes ws)" by (auto simp: r landed_as_def ws)
      with note_block_record [OF assms(1) _ assms(5)] at show ?thesis by simp
    qed
  next
    assume "rcd = framed_bytes rec_land 0 (put_spills ss @ all_bytes (merge_runs ws))"
    with note_land_record [OF inner_merge [OF assms(1)] assms(5)] at show ?thesis
      by (simp add: finds_merge)
  qed
  then show ?thesis by (simp add: finds_def)
qed

theorem notes_find_frames_witness:
  "\<exists>ns total. note_record 8 (landed_as [(rec_data, 1, [1, 5, 1, 9]), (rec_drop, 2, []), (rec_data, 1, [2, 5, 0])]) ([], 0)
       = Ok (ns, total) \<and>
     concat (map (run_bytes (magic @ landed_as [(rec_data, 1, [1, 5, 1, 9]), (rec_drop, 2, []), (rec_data, 1, [2, 5, 0])]))
       (filter (\<lambda>l. landed_cid l = 1) ns)) = [1, 5, 1, 9, 2, 5, 0]"
proof -
  let ?ws = "[(rec_data, 1, [1, 5, 1, 9]), (rec_drop, 2, []), (rec_data, 1, [2, 5, 0])] :: written list"
  have k: "\<forall>w\<in>set ?ws. inner_kind (fst w)" by (simp add: inner_kind_def)
  have m: "length magic = 8" by (simp add: magic_def)
  have "length (magic @ landed_as ?ws) = 27" by code_simp
  then have l: "length (magic @ landed_as ?ws @ []) < 2 ^ 63" by simp
  obtain ns total where n: "note_record (word_of_nat (length magic)) (landed_as ?ws) ([], 0) = Ok (ns, total)"
    "\<forall>c. concat (map (run_bytes (magic @ landed_as ?ws @ [])) (filter (\<lambda>l. landed_cid l = c) ns))
       = bodies (filter (same_run c) ?ws)"
    using notes_find_frames [OF k _ _ refl l] by blast
  from n(2) [rule_format, of 1] have
    "concat (map (run_bytes (magic @ landed_as ?ws)) (filter (\<lambda>l. landed_cid l = 1) ns)) = [1, 5, 1, 9, 2, 5, 0]"
    by (simp add: same_run_def rec_kinds)
  with n(1) m show ?thesis by auto
qed

end
