(* ===== verification/Fenec_History.thy ===== *)
theory Fenec_History
  imports Fenec_Records
begin

text \<open>
  Which history a database's writes belong to (\<open>fenec-core/src/history.rs\<close>): the lineage of
  forks, its record in the file, and \<open>continues\<close>, which says whether a replica may be sent the
  writes after its own. The last section is the system these are made for: databases that write,
  fork, take images of one another and stream one another's writes (\<open>Database::fork\<close>, \<open>follow\<close>;
  the replica's side of \<open>fenec-http/src/replication.rs\<close>). Under the fork rule the code means to
  have, a replica that is let go on holds a prefix of what its primary holds; the rule the code
  has does not give that.
\<close>

section \<open>Histories\<close>

definition history_record_kind :: u8 where "history_record_kind = 8"

record history =
  lineage :: "(u64 \<times> u64) list"
  following :: bool

definition history_default :: history where
  "history_default = \<lparr>lineage = [], following = False\<rparr>"

definition current :: "history \<Rightarrow> u64" where
  "current h = (if lineage h = [] then 0 else fst (last (lineage h)))"

text \<open>\<open>Iterator::position\<close>.\<close>

fun position :: "('a \<Rightarrow> bool) \<Rightarrow> 'a list \<Rightarrow> nat option" where
  "position P [] = None"
| "position P (x # xs) = (if P x then Some 0 else map_option Suc (position P xs))"

definition continues :: "history \<Rightarrow> u64 \<Rightarrow> u64 \<Rightarrow> u64 \<Rightarrow> bool" where
  "continues h i s now =
     (if s > now then False
      else if i = 0 then s = 0
      else case position (\<lambda>e. fst e = i) (lineage h) of
             None \<Rightarrow> False
           | Some k \<Rightarrow> s \<le> (if k + 1 < length (lineage h) then snd (lineage h ! (k + 1)) else now))"

definition history_encode :: "history \<Rightarrow> bytes" where
  "history_encode h =
     (if following h then 1 else 0) # put_len (lineage h)
       @ concat (map (\<lambda>(i, at). le_bytes 8 i @ put_uvarint at) (lineage h))"

definition history_record :: "history \<Rightarrow> bytes result" where
  "history_record h =
     (let body = history_encode h
      in map_ok (\<lambda>hd. hd @ body) (record_head history_record_kind 0 (length body)))"

definition forked :: "u64 \<Rightarrow> u64 \<Rightarrow> history \<Rightarrow> history" where
  "forked i at h = \<lparr>lineage = lineage h @ [(i, at)], following = False\<rparr>"

definition parse_entry :: "bytes \<Rightarrow> usize \<Rightarrow> ((u64 \<times> u64) \<times> usize) option" where
  "parse_entry bs pos =
     (case get_range bs pos (pos + 8) of
        None \<Rightarrow> None
      | Some ib \<Rightarrow>
          (case get_uvarint bs (pos + 8) of
             Ok (at, p) \<Rightarrow> Some ((of_le_bytes ib, at), p)
           | _ \<Rightarrow> None))"

fun parse_loop :: "nat \<Rightarrow> bytes \<Rightarrow> usize \<Rightarrow> (u64 \<times> u64) list \<Rightarrow> (u64 \<times> u64) list option" where
  "parse_loop n bs pos acc =
     (if n = 0 then Some acc
      else case parse_entry bs pos of
             None \<Rightarrow> None
           | Some (e, p) \<Rightarrow> parse_loop (n - 1) bs p (acc @ [e]))"

declare parse_loop.simps [simp del]

definition history_parse :: "bytes \<Rightarrow> history option" where
  "history_parse bs =
     (case bs of
        [] \<Rightarrow> None
      | b # _ \<Rightarrow>
          (case get_uvarint bs 1 of
             Ok (n, p) \<Rightarrow>
               map_option (\<lambda>l. \<lparr>lineage = l, following = (b \<noteq> 0)\<rparr>) (parse_loop (unat n) bs p [])
           | _ \<Rightarrow> None))"

definition e_history :: error where "e_history = Corrupt ''history record''"

definition history_decode :: "bytes \<Rightarrow> history result" where
  "history_decode bs = ok_or e_history (history_parse bs)"

section \<open>The record read back\<close>

lemma parse_entry_at:
  assumes "at_pos bs pos (le_bytes 8 i @ put_uvarint at)"
  shows "parse_entry bs pos = Some ((i, at), pos + length (le_bytes 8 i @ put_uvarint at))"
proof -
  from assms have a: "at_pos bs pos (le_bytes 8 i)" "at_pos bs (pos + 8) (put_uvarint at)"
    by (simp_all add: at_simps)
  from at_pos_range [OF a(1), of 8] get_put_uvarint [OF a(2)] show ?thesis
    by (simp add: parse_entry_def)
qed

abbreviation entries :: "(u64 \<times> u64) list \<Rightarrow> bytes" where
  "entries l \<equiv> concat (map (\<lambda>(i, at). le_bytes 8 i @ put_uvarint at) l)"

lemma parse_loop_at:
  "at_pos bs pos (entries l) \<Longrightarrow> parse_loop (length l) bs pos acc = Some (acc @ l)"
proof (induction l arbitrary: pos acc)
  case Nil
  then show ?case by (simp add: parse_loop.simps)
next
  case (Cons e l)
  obtain i at where e: "e = (i, at)" by (rule prod.exhaust)
  have a: "at_pos bs pos (le_bytes 8 i @ put_uvarint at)"
    "at_pos bs (pos + length (le_bytes 8 i @ put_uvarint at)) (entries l)"
    using Cons.prems by (simp_all add: e at_simps add.assoc)
  from parse_entry_at [OF a(1)] Cons.IH [OF a(2)] show ?case
    by (subst parse_loop.simps) (simp add: e)
qed

lemma history_parse_encode:
  assumes "length (lineage h) < 2 ^ 64"
  shows "history_parse (history_encode h @ rest) = Some h"
proof -
  let ?bs = "history_encode h @ rest"
  have "at_pos ?bs 0 (history_encode h)" using at_pos_whole [of "[]" "history_encode h" rest] by simp
  then have a: "at_pos ?bs 1 (put_len (lineage h))" "at_pos ?bs (1 + length (put_len (lineage h))) (entries (lineage h))"
    by (simp_all add: history_encode_def [of h] at_simps)
  have n: "unat (word_of_nat (length (lineage h)) :: u64) = length (lineage h)"
    using assms by (rule unat_of_nat_u64)
  have u: "get_uvarint ?bs 1 = Ok (word_of_nat (length (lineage h)), 1 + length (put_len (lineage h)))"
    using get_put_uvarint [OF a(1) [unfolded put_len_def]] by (simp add: put_len_def)
  have b: "(case ?bs of [] \<Rightarrow> None | b # _ \<Rightarrow> f b) = f (if following h then 1 else 0)" for f :: "u8 \<Rightarrow> history option"
    by (simp add: history_encode_def)
  have "history_parse ?bs = map_option (\<lambda>l. \<lparr>lineage = l, following = ((if following h then 1 else 0) \<noteq> (0 :: u8))\<rparr>)
      (parse_loop (length (lineage h)) ?bs (1 + length (put_len (lineage h))) [])"
    unfolding history_parse_def b u by (simp add: n)
  with parse_loop_at [OF a(2), of "[]"] show ?thesis by simp
qed

lemma record_head_ok:
  "record_head k c (length body) = Ok (k # put_uvarint (ucast c) @ put_len body)"
proof -
  obtain h where h: "rec_head k c (length body) = Ok (h, length (k # put_uvarint (ucast c) @ put_len body))"
    "take (length (k # put_uvarint (ucast c) @ put_len body)) h = k # put_uvarint (ucast c) @ put_len body"
    unfolding put_len_def by (rule rec_head_ok)
  show ?thesis unfolding record_head_def h(1) by (simp only: map_ok.simps prod.case h(2))
qed

lemma length_entries: "length (entries l) \<le> 18 * length l"
proof (induction l)
  case (Cons e l)
  obtain i at where "e = (i, at)" by (rule prod.exhaust)
  with Cons length_put_uvarint [of at] show ?case by simp
qed simp

text \<open>
  The history record of a file reads back. Whatever stands before and after it in the file,
  the record made of a history is found there whole, under its own kind, and its body is the
  history again: the lineage in its order, and whether the database was following.
\<close>

lemma history_roundtrip:
  assumes "length (lineage h) < 2 ^ 32" and "length pre + length post < 2 ^ 40"
  shows "\<exists>rcd r. history_record h = Ok rcd \<and>
     record_at (pre @ rcd @ post) (length pre) = Ok (r, length pre + length rcd)
     \<and> whole_record (pre @ rcd @ post) (length pre) = Ok True
     \<and> rec_kind r = rec_history \<and> history_decode (rec_body r) = Ok h"
proof -
  let ?body = "history_encode h"
  let ?rcd = "framed_bytes rec_history 0 ?body"
  have k: "history_record_kind = rec_history" by (simp add: history_record_kind_def rec_history_def)
  have r: "history_record h = Ok ?rcd"
    by (simp add: history_record_def Let_def record_head_ok framed_bytes_def k)
  have "length ?body \<le> 11 + 18 * length (lineage h)"
    using length_entries [of "lineage h"] length_put_uvarint [of "word_of_nat (length (lineage h))"]
    by (simp add: history_encode_def put_len_def)
  moreover have "length ?rcd \<le> length ?body + 16"
    using uvarint_cid [of 0] length_put_uvarint [of "word_of_nat (length ?body)"]
    by (simp add: framed_bytes_def put_len_def)
  ultimately have "length (pre @ ?rcd @ post) < 2 ^ 63" using assms by simp
  note l = this
  have a: "at_pos (pre @ ?rcd @ post) (length pre) ?rcd" by simp
  have d: "history_decode ?body = Ok h"
    using history_parse_encode [of h "[]"] assms(1) by (simp add: history_decode_def)
  from record_at_framed [OF a _ l] whole_record_framed [OF a l] r d show ?thesis
    by (simp add: rec_history_def rec_seq_def)
qed

section \<open>Databases that replicate\<close>

text \<open>
  A node is a database as replication sees it: its history, and its writes in the order of the
  change counter. What happens: a node that is not following writes; a node forks under a fresh
  id (\<open>Database::fork\<close>, a promotion); a node is told to follow (\<open>settle_history\<close>); a node takes
  the image of another, or is let go on from where it is and takes writes up to the \<open>m\<close>th --
  either way taking the other's lineage first, as the replica's side does on a hello.
\<close>

record 'w node =
  node_history :: history
  node_writes :: "'w list"

definition node_seq :: "'w node \<Rightarrow> u64" where
  "node_seq n = word_of_nat (length (node_writes n))"

definition lets_go_on :: "'w node \<Rightarrow> 'w node \<Rightarrow> bool" where
  "lets_go_on p r = continues (node_history p) (current (node_history r)) (node_seq r) (node_seq p)"

datatype 'w event = Wrote nat 'w | Forked nat u64 | Told_to_follow nat | Imaged nat nat | Streamed nat nat nat

record 'w world =
  nodes :: "nat \<Rightarrow> 'w node"
  ids_used :: "u64 list"

definition world_init :: "'w world" where
  "world_init = \<lparr>nodes = (\<lambda>_. \<lparr>node_history = history_default, node_writes = []\<rparr>), ids_used = [0]\<rparr>"

definition set_node :: "nat \<Rightarrow> 'w node \<Rightarrow> 'w world \<Rightarrow> 'w world" where
  "set_node i n w = w\<lparr>nodes := (nodes w)(i := n)\<rparr>"

definition follow :: "(u64 \<times> u64) list \<Rightarrow> history" where
  "follow l = \<lparr>lineage = l, following = True\<rparr>"

text \<open>
  Whether a node has all the writes its lineage names: it forked nothing it is still behind. The
  code does not ask this of a fork; \<open>asked\<close> says whether the step does.
\<close>

definition caught_up :: "'w node \<Rightarrow> bool" where
  "caught_up n = (\<forall>e\<in>set (lineage (node_history n)). snd e \<le> node_seq n)"

fun event_ok :: "bool \<Rightarrow> 'w event \<Rightarrow> 'w world \<Rightarrow> bool" where
  "event_ok asked (Wrote i x) w =
     (\<not> following (node_history (nodes w i)) \<and> length (node_writes (nodes w i)) + 1 < 2 ^ 64)"
| "event_ok asked (Forked i d) w = (d \<notin> set (ids_used w) \<and> (asked \<longrightarrow> caught_up (nodes w i)))"
| "event_ok asked (Told_to_follow i) w = True"
| "event_ok asked (Imaged i j) w = (i \<noteq> j)"
| "event_ok asked (Streamed i j m) w =
     (i \<noteq> j \<and> lets_go_on (nodes w j) (nodes w i)
      \<and> length (node_writes (nodes w i)) \<le> m \<and> m \<le> length (node_writes (nodes w j)))"

fun event_does :: "'w event \<Rightarrow> 'w world \<Rightarrow> 'w world" where
  "event_does (Wrote i x) w = set_node i ((nodes w i)\<lparr>node_writes := node_writes (nodes w i) @ [x]\<rparr>) w"
| "event_does (Forked i d) w =
     (set_node i ((nodes w i)\<lparr>node_history := forked d (node_seq (nodes w i)) (node_history (nodes w i))\<rparr>) w)
       \<lparr>ids_used := d # ids_used w\<rparr>"
| "event_does (Told_to_follow i) w =
     set_node i ((nodes w i)\<lparr>node_history := follow (lineage (node_history (nodes w i)))\<rparr>) w"
| "event_does (Imaged i j) w =
     set_node i \<lparr>node_history = follow (lineage (node_history (nodes w j))), node_writes = node_writes (nodes w j)\<rparr> w"
| "event_does (Streamed i j m) w =
     set_node i \<lparr>node_history = follow (lineage (node_history (nodes w j))),
       node_writes = node_writes (nodes w i)
         @ drop (length (node_writes (nodes w i))) (take m (node_writes (nodes w j)))\<rparr> w"

inductive reaches :: "bool \<Rightarrow> 'w world \<Rightarrow> bool" for asked where
  init: "reaches asked world_init"
| step: "reaches asked w \<Longrightarrow> event_ok asked e w \<Longrightarrow> reaches asked (event_does e w)"

inductive_cases reachesE: "reaches asked w"

section \<open>Whose write a change is\<close>

text \<open>
  The id of the history that made the write of a number: the last entry the number is past, or
  the first entry's, which names the root it forked off as its own.
\<close>

definition owner :: "(u64 \<times> u64) list \<Rightarrow> nat \<Rightarrow> u64" where
  "owner l s = (let es = filter (\<lambda>e. unat (snd e) < s) l in if es = [] then fst (hd l) else fst (last es))"

lemma owner_mem: "l \<noteq> [] \<Longrightarrow> owner l s \<in> fst ` set l"
  unfolding owner_def Let_def by (cases l) (auto dest!: last_in_set)

lemma owner_append_later: "l \<noteq> [] \<Longrightarrow> \<forall>e\<in>set l'. s \<le> unat (snd e) \<Longrightarrow> owner (l @ l') s = owner l s"
  by (auto simp: owner_def Let_def filter_empty_conv linorder_not_less)

lemma owner_past: "l \<noteq> [] \<Longrightarrow> \<forall>e\<in>set l. unat (snd e) < s \<Longrightarrow> owner l s = fst (last l)"
  by (simp add: owner_def Let_def filter_True)

abbreviation lin :: "'w world \<Rightarrow> nat \<Rightarrow> (u64 \<times> u64) list" where
  "lin w i \<equiv> lineage (node_history (nodes w i))"

abbreviation wr :: "'w world \<Rightarrow> nat \<Rightarrow> 'w list" where
  "wr w i \<equiv> node_writes (nodes w i)"

abbreviation writer :: "'w world \<Rightarrow> nat \<Rightarrow> bool" where
  "writer w i \<equiv> \<not> following (node_history (nodes w i)) \<and> lin w i \<noteq> []"

text \<open>
  What every reachable world keeps, for some account \<open>ln\<close> of which lineage each id ends and \<open>g\<close>
  of which write each history has under each number: lineages are their ids' accounts, oldest
  fork first; each node's writes are those of the histories it names; a history has one writer,
  who has got furthest in it.
\<close>

definition lineages_ok :: "(u64 \<Rightarrow> (u64 \<times> u64) list) \<Rightarrow> 'w world \<Rightarrow> bool" where
  "lineages_ok ln w \<longleftrightarrow> 0 \<in> set (ids_used w) \<and> (\<forall>i. length (wr w i) < 2 ^ 64
     \<and> sorted (map (\<lambda>e. unat (snd e)) (lin w i))
     \<and> (\<forall>k<length (lin w i). ln (fst (lin w i ! k)) = take (Suc k) (lin w i)
          \<and> fst (lin w i ! k) \<in> set (ids_used w) \<and> fst (lin w i ! k) \<noteq> 0))"

definition writes_ok :: "(u64 \<Rightarrow> nat \<Rightarrow> 'w) \<Rightarrow> 'w world \<Rightarrow> bool" where
  "writes_ok g w \<longleftrightarrow> (\<forall>i s. lin w i \<noteq> [] \<longrightarrow> s < length (wr w i) \<longrightarrow> wr w i ! s = g (owner (lin w i) (Suc s)) (Suc s))"

definition writers_ok :: "'w world \<Rightarrow> bool" where
  "writers_ok w \<longleftrightarrow> (\<forall>i. writer w i \<longrightarrow> (\<forall>e\<in>set (lin w i). unat (snd e) \<le> length (wr w i))
     \<and> (\<forall>j. j \<noteq> i \<longrightarrow> (writer w j \<longrightarrow> fst (last (lin w j)) \<noteq> fst (last (lin w i)))
          \<and> (\<forall>s<length (wr w j). lin w j \<noteq> [] \<longrightarrow> owner (lin w j) (Suc s) = fst (last (lin w i))
               \<longrightarrow> s < length (wr w i))))"

lemma lineages_ids:
  assumes "lineages_ok ln w" "e \<in> set (lin w i)"
  shows "fst e \<in> set (ids_used w)" "fst e \<noteq> 0"
proof -
  from assms(2) obtain k where "k < length (lin w i)" "lin w i ! k = e" by (auto simp: in_set_conv_nth)
  with assms(1) show "fst e \<in> set (ids_used w)" "fst e \<noteq> 0" by (auto simp: lineages_ok_def)
qed

lemma owner_used: "lineages_ok ln w \<Longrightarrow> lin w i \<noteq> [] \<Longrightarrow> owner (lin w i) s \<in> set (ids_used w)"
  using owner_mem [of "lin w i" s] by (auto dest: lineages_ids)

lemma position_Some:
  "position P xs = Some k \<Longrightarrow> k < length xs \<and> P (xs ! k)"
  by (induction xs arbitrary: k) (auto split: if_splits)

lemma node_seq_unat: "lineages_ok ln w \<Longrightarrow> unat (node_seq (nodes w i)) = length (wr w i)"
  by (simp add: node_seq_def lineages_ok_def unat_of_nat)

lemma lineage_account:
  assumes "lineages_ok ln w" "lin w i \<noteq> []"
  shows "ln (fst (last (lin w i))) = lin w i"
proof -
  have "length (lin w i) - 1 < length (lin w i)" using assms(2) by simp
  with assms(1) have "ln (fst (lin w i ! (length (lin w i) - 1))) = take (Suc (length (lin w i) - 1)) (lin w i)"
    unfolding lineages_ok_def by blast
  with assms(2) show ?thesis by (simp add: last_conv_nth)
qed

text \<open>
  A primary that lets a replica go on has the replica's lineage, and forked off it no earlier
  than the replica has got.
\<close>

lemma go_on_lineage:
  assumes l: "lineages_ok ln w" and go: "lets_go_on (nodes w p) (nodes w r)"
    and rn: "lin w r \<noteq> []"
  shows "\<exists>l'. lin w p = lin w r @ l' \<and> (\<forall>e\<in>set l'. length (wr w r) \<le> unat (snd e))"
proof -
  define d where "d = fst (last (lin w r))"
  have d: "current (node_history (nodes w r)) = d" "d \<noteq> 0"
    using rn lineages_ids(2) [OF l, of "last (lin w r)" r] by (simp_all add: current_def d_def)
  from go d obtain k where pos: "position (\<lambda>e. fst e = d) (lin w p) = Some k"
    and lim: "node_seq (nodes w r) \<le> (if k + 1 < length (lin w p) then snd (lin w p ! (k + 1)) else node_seq (nodes w p))"
    by (auto simp: lets_go_on_def continues_def split: if_splits option.splits)
  from position_Some [OF pos] have k: "k < length (lin w p)" "fst (lin w p ! k) = d" by auto
  then have "ln d = take (Suc k) (lin w p)" using l by (auto simp: lineages_ok_def)
  then have lr: "lin w p = lin w r @ drop (Suc k) (lin w p)"
    using lineage_account [OF l rn] by (metis append_take_drop_id d_def)
  have "length (wr w r) \<le> unat (snd e)" if "e \<in> set (drop (Suc k) (lin w p))" for e
  proof -
    from that obtain m where "m < length (drop (Suc k) (lin w p))" "e = drop (Suc k) (lin w p) ! m"
      unfolding in_set_conv_nth by blast
    then have m: "Suc k + m < length (lin w p)" "e = lin w p ! (Suc k + m)" by simp_all
    have "unat (snd (lin w p ! Suc k)) \<le> unat (snd (lin w p ! (Suc k + m)))"
      using sorted_nth_mono [of "map (\<lambda>e. unat (snd e)) (lin w p)" "Suc k" "Suc k + m"] l m(1)
      by (simp add: lineages_ok_def)
    moreover have "length (wr w r) \<le> unat (snd (lin w p ! Suc k))"
      using lim m(1) node_seq_unat [OF l, of r] by (simp add: word_le_nat_alt)
    ultimately show ?thesis using m(2) by simp
  qed
  with lr show ?thesis by blast
qed

text \<open>A replica that is let go on holds a prefix of what the primary holds.\<close>

lemma go_on_prefix:
  assumes l: "lineages_ok ln w" and g: "writes_ok g w" and go: "lets_go_on (nodes w p) (nodes w r)"
  shows "wr w r = take (length (wr w r)) (wr w p)"
proof (cases "lin w r = []")
  case True
  then have "node_seq (nodes w r) = 0"
    using go by (simp add: lets_go_on_def continues_def current_def split: if_splits)
  then have "wr w r = []" using node_seq_unat [OF l, of r] by simp
  then show ?thesis by simp
next
  case False
  have le: "length (wr w r) \<le> length (wr w p)"
    using go node_seq_unat [OF l, of r] node_seq_unat [OF l, of p]
    by (auto simp: lets_go_on_def continues_def word_less_nat_alt not_less split: if_splits)
  obtain l' where l': "lin w p = lin w r @ l'" "\<forall>e\<in>set l'. length (wr w r) \<le> unat (snd e)"
    using go_on_lineage [OF l go False] by blast
  have "wr w r ! s = wr w p ! s" if s: "s < length (wr w r)" for s
  proof -
    have "owner (lin w p) (Suc s) = owner (lin w r) (Suc s)"
      unfolding l'(1) by (rule owner_append_later [OF False]) (use l'(2) s in auto)
    with g False s le l'(1) show ?thesis by (simp add: writes_ok_def)
  qed
  then show ?thesis using le by (intro nth_equalityI) auto
qed

section \<open>Every step keeps the account\<close>

lemma nodes_set_node [simp]: "nodes (set_node i n w) k = (if k = i then n else nodes w k)"
  and ids_used_set_node [simp]: "ids_used (set_node i n w) = ids_used w"
  by (simp_all add: set_node_def)

text \<open>A node takes another's lineage and the first of its writes: what every kind of following does.\<close>

lemma copy_lineages:
  "lineages_ok ln w \<Longrightarrow>
   lineages_ok ln (set_node i \<lparr>node_history = follow (lin w j), node_writes = take m (wr w j)\<rparr> w)"
  by (auto simp: lineages_ok_def follow_def min_less_iff_disj)

lemma copy_writes:
  "writes_ok g w \<Longrightarrow>
   writes_ok g (set_node i \<lparr>node_history = follow (lin w j), node_writes = take m (wr w j)\<rparr> w)"
  by (auto simp: writes_ok_def follow_def)

lemma copy_writers:
  assumes "writers_ok w"
  shows "writers_ok (set_node i \<lparr>node_history = follow (lin w j), node_writes = take m (wr w j)\<rparr> w)"
    (is "writers_ok ?w")
  unfolding writers_ok_def
proof (intro allI impI)
  fix k assume k: "writer ?w k"
  then have ki: "k \<noteq> i" and wk: "writer w k" by (auto simp: follow_def split: if_splits)
  have old: "\<forall>e\<in>set (lin w k). unat (snd e) \<le> length (wr w k)"
    "\<And>j. j \<noteq> k \<Longrightarrow> writer w j \<Longrightarrow> fst (last (lin w j)) \<noteq> fst (last (lin w k))"
    "\<And>j s. j \<noteq> k \<Longrightarrow> s < length (wr w j) \<Longrightarrow> lin w j \<noteq> [] \<Longrightarrow> owner (lin w j) (Suc s) = fst (last (lin w k))
       \<Longrightarrow> s < length (wr w k)"
    using assms wk unfolding writers_ok_def by blast+
  have new: "s < length (wr w k)"
    if "s < length (take m (wr w j))" "lin w j \<noteq> []" "owner (lin w j) (Suc s) = fst (last (lin w k))" for s
    using that old(3) [of j s] by (cases "j = k") auto
  show "(\<forall>e\<in>set (lin ?w k). unat (snd e) \<le> length (wr ?w k)) \<and>
     (\<forall>j. j \<noteq> k \<longrightarrow> (writer ?w j \<longrightarrow> fst (last (lin ?w j)) \<noteq> fst (last (lin ?w k))) \<and>
        (\<forall>s<length (wr ?w j). lin ?w j \<noteq> [] \<longrightarrow> owner (lin ?w j) (Suc s) = fst (last (lin ?w k)) \<longrightarrow> s < length (wr ?w k)))"
    using ki old new by (auto simp: follow_def)
qed

definition world_inv :: "'w world \<Rightarrow> bool" where
  "world_inv w \<longleftrightarrow> (\<exists>ln g. lineages_ok ln w \<and> writes_ok g w) \<and> writers_ok w"

lemma copy_inv:
  "world_inv w \<Longrightarrow> world_inv (set_node i \<lparr>node_history = follow (lin w j), node_writes = take m (wr w j)\<rparr> w)"
  unfolding world_inv_def using copy_lineages copy_writes copy_writers by blast

text \<open>A writer adds a write: its history's next.\<close>

lemma wrote_inv:
  assumes inv: "world_inv w" and ok: "event_ok asked (Wrote i x) w"
  shows "world_inv (event_does (Wrote i x) w)" (is "world_inv ?w")
proof -
  from inv obtain ln g where l: "lineages_ok ln w" and g: "writes_ok g w" and a: "writers_ok w"
    unfolding world_inv_def by blast
  have L: "lin ?w k = lin w k" "following (node_history (nodes ?w k)) = following (node_history (nodes w k))" for k by auto
  have W: "wr ?w k = (if k = i then wr w i @ [x] else wr w k)" for k by simp
  have l': "lineages_ok ln ?w" using l ok unfolding lineages_ok_def L W by auto
  show ?thesis
  proof (cases "lin w i = []")
    case True
    have "writes_ok g ?w" using g True unfolding writes_ok_def L W by auto
    moreover have "writers_ok ?w" using a True unfolding writers_ok_def L W by auto
    ultimately show ?thesis using l' unfolding world_inv_def by blast
  next
    case False
    then have wi: "writer w i" using ok by simp
    define c where "c = fst (last (lin w i))"
    define n where "n = length (wr w i)"
    have far: "\<And>j s. j \<noteq> i \<Longrightarrow> s < length (wr w j) \<Longrightarrow> lin w j \<noteq> [] \<Longrightarrow> owner (lin w j) (Suc s) = c \<Longrightarrow> s < n"
      and up: "\<forall>e\<in>set (lin w i). unat (snd e) \<le> n"
      and one: "\<And>j. j \<noteq> i \<Longrightarrow> writer w j \<Longrightarrow> fst (last (lin w j)) \<noteq> c"
      using a wi unfolding writers_ok_def c_def n_def by blast+
    have own: "owner (lin w i) (Suc n) = c" unfolding c_def by (rule owner_past [OF False]) (use up in auto)
    have "writes_ok (g(c := (g c)(Suc n := x))) ?w"
      using g own far unfolding writes_ok_def L W n_def
      by (auto simp: nth_append less_Suc_eq)
    moreover have "writers_ok ?w"
    proof -
      have "s < length (wr w k)" if "k \<noteq> i" "writer w k" "s < Suc n" "owner (lin w i) (Suc s) = fst (last (lin w k))" for k s
        using that a wi own one [of k] unfolding writers_ok_def n_def by (metis False less_Suc_eq)
      then show ?thesis using a unfolding writers_ok_def L W n_def by (auto simp: less_Suc_eq le_Suc_eq)
    qed
    ultimately show ?thesis using l' unfolding world_inv_def by blast
  qed
qed

text \<open>A fork: the new id's history starts where the node stands.\<close>

lemma forked_inv:
  assumes inv: "world_inv w" and ok: "event_ok True (Forked i d) w"
  shows "world_inv (event_does (Forked i d) w)" (is "world_inv ?w")
proof -
  from inv obtain ln g where l: "lineages_ok ln w" and g: "writes_ok g w" and a: "writers_ok w"
    unfolding world_inv_def by blast
  define n where "n = length (wr w i)"
  have un: "unat (node_seq (nodes w i)) = n" using node_seq_unat [OF l] by (simp add: n_def)
  have d: "d \<notin> set (ids_used w)" "d \<noteq> 0" using ok l by (auto simp: lineages_ok_def)
  have up: "\<forall>e\<in>set (lin w i). unat (snd e) \<le> n" using ok un by (auto simp: caught_up_def word_le_nat_alt)
  define L where "L = lin w i @ [(d, node_seq (nodes w i))]"
  have lw: "lin ?w k = (if k = i then L else lin w k)" "wr ?w k = wr w k"
    "ids_used ?w = d # ids_used w" "following (node_history (nodes ?w k)) \<longleftrightarrow> k \<noteq> i \<and> following (node_history (nodes w k))"
    for k by (auto simp: forked_def L_def)
  have l': "lineages_ok (ln(d := L)) ?w"
  proof -
    have fresh: "fst (lin w k ! m) \<noteq> d" if "m < length (lin w k)" for k m
      using l that d(1) by (auto simp: lineages_ok_def)
    have "sorted (map (\<lambda>e. unat (snd e)) L)"
      using l up by (auto simp: L_def sorted_append un lineages_ok_def)
    moreover have "(ln(d := L)) (fst (L ! m)) = take (Suc m) L \<and> fst (L ! m) \<in> set (d # ids_used w) \<and> fst (L ! m) \<noteq> 0"
      if "m < length L" for m
      using that l fresh [of m i] d(2) unfolding L_def
      by (cases "m < length (lin w i)") (auto simp: lineages_ok_def nth_append less_Suc_eq)
    ultimately show ?thesis using l fresh unfolding lineages_ok_def lw by auto
  qed
  have own: "owner L (Suc s) = (if lin w i = [] then d else owner (lin w i) (Suc s))" if "s < n" for s
    using that owner_append_later [of "lin w i" "[(d, node_seq (nodes w i))]" "Suc s"] un
    by (auto simp: L_def owner_def)
  have other: "owner (lin w k) s \<noteq> d" if "lin w k \<noteq> []" for k s using owner_used [OF l that] d(1) by auto
  have lst: "last L = (d, node_seq (nodes w i))" "L \<noteq> []" by (simp_all add: L_def)
  define g' where "g' = (if lin w i = [] then g(d := (\<lambda>s. wr w i ! (s - 1))) else g)"
  have "writes_ok g' ?w"
    using g own other unfolding writes_ok_def lw g'_def n_def by auto
  moreover have "writers_ok ?w"
  proof -
    have "fst (last (lin w k)) \<noteq> d" if "writer w k" for k
      using that lineages_ids(1) [OF l, of "last (lin w k)" k] d(1) by auto
    moreover have "s < length (wr w k)" if "writer w k" "k \<noteq> i" "s < length (wr w i)" "lin w i \<noteq> []"
      "owner (lin w i) (Suc s) = fst (last (lin w k))" for k s
      using a that unfolding writers_ok_def by metis
    ultimately show ?thesis
      using a own other lst up un unfolding writers_ok_def lw n_def by (auto simp: L_def)
  qed
  ultimately show ?thesis using l' unfolding world_inv_def by blast
qed

lemma event_inv:
  assumes inv: "world_inv w" and ok: "event_ok True e w"
  shows "world_inv (event_does e w)"
proof (cases e)
  case (Wrote i x)
  with wrote_inv [OF inv] ok show ?thesis by blast
next
  case (Forked i d)
  with forked_inv [OF inv] ok show ?thesis by blast
next
  case (Told_to_follow i)
  have "event_does e w = set_node i \<lparr>node_history = follow (lin w i), node_writes = take (length (wr w i)) (wr w i)\<rparr> w"
    by (cases "nodes w i") (simp add: Told_to_follow)
  with copy_inv [OF inv] show ?thesis by metis
next
  case (Imaged i j)
  have "event_does e w = set_node i \<lparr>node_history = follow (lin w j), node_writes = take (length (wr w j)) (wr w j)\<rparr> w"
    by (simp add: Imaged)
  with copy_inv [OF inv] show ?thesis by metis
next
  case (Streamed i j m)
  from inv obtain ln g where "lineages_ok ln w" "writes_ok g w" unfolding world_inv_def by blast
  from go_on_prefix [OF this, of j i] ok Streamed
  have p: "wr w i = take (length (wr w i)) (wr w j)" "length (wr w i) \<le> m" by auto
  have "take m (wr w j) = wr w i @ drop (length (wr w i)) (take m (wr w j))"
  proof -
    have "take (length (wr w i)) (take m (wr w j)) = wr w i" using p by (simp add: min_def)
    then show ?thesis using append_take_drop_id [of "length (wr w i)" "take m (wr w j)"] by simp
  qed
  with copy_inv [OF inv, of i j m] show ?thesis by (simp add: Streamed)
qed

lemma init_inv: "world_inv (world_init :: 'w world)"
proof -
  have "lineages_ok (\<lambda>_. []) (world_init :: 'w world)" "writes_ok g (world_init :: 'w world)" "writers_ok (world_init :: 'w world)" for g
    by (auto simp: lineages_ok_def writes_ok_def writers_ok_def world_init_def history_default_def)
  then show ?thesis unfolding world_inv_def by blast
qed

lemma reaches_inv: "reaches True w \<Longrightarrow> world_inv w"
  by (induction rule: reaches.induct) (auto intro: init_inv event_inv)

text \<open>Runs of events, each checked as it comes.\<close>

fun run_events :: "bool \<Rightarrow> 'w event list \<Rightarrow> 'w world \<Rightarrow> 'w world option" where
  "run_events asked [] w = Some w"
| "run_events asked (e # es) w = (if event_ok asked e w then run_events asked es (event_does e w) else None)"

lemma run_events_reaches: "reaches asked w \<Longrightarrow> run_events asked es w = Some w' \<Longrightarrow> reaches asked w'"
  by (induction es arbitrary: w) (auto split: if_splits intro: reaches.step)

text \<open>
  C13: A replica that is let go on never holds a write its primary does not. In every state that
  databases reach by writing, forking, being told to follow, taking images and streaming one
  another's writes, where a database forks only once it has all the writes its lineage names: a
  node whose position another's history continues holds exactly the first writes of that other,
  so streaming it the rest leaves the two the same.
\<close>

theorem replica_holds_prefix:
  assumes "reaches True w" and "lets_go_on (nodes w p) (nodes w r)"
  shows "prefix (node_writes (nodes w r)) (node_writes (nodes w p))"
proof -
  from reaches_inv [OF assms(1)] obtain ln g where "lineages_ok ln w" "writes_ok g w"
    unfolding world_inv_def by blast
  from go_on_prefix [OF this assms(2)] show ?thesis by (metis take_is_prefix)
qed

definition promotion_run :: "nat event list" where
  "promotion_run = [Forked 0 7, Wrote 0 1, Imaged 2 0, Wrote 0 2, Imaged 1 0, Imaged 3 0, Forked 1 9, Wrote 1 3]"

theorem replica_holds_prefix_witness:
  "\<exists>w. run_events True promotion_run world_init = Some w
     \<and> lets_go_on (nodes w 1) (nodes w 3)
     \<and> prefix (node_writes (nodes w 3)) (node_writes (nodes w 1))
     \<and> node_writes (nodes w 3) = [1, 2] \<and> node_writes (nodes w 1) = [1, 2, 3]"
proof -
  have "map_option (\<lambda>w. (lets_go_on (nodes w 1) (nodes w 3), node_writes (nodes w 3), node_writes (nodes w 1)))
      (run_events True promotion_run world_init) = Some (True, [1, 2], [1, 2, 3])"
    by code_simp
  then obtain w where w: "run_events True promotion_run world_init = Some w"
    "lets_go_on (nodes w 1) (nodes w 3)" "node_writes (nodes w 3) = [1, 2]" "node_writes (nodes w 1) = [1, 2, 3]"
    by (auto simp: map_option_eq_Some)
  have "reaches True w" by (rule run_events_reaches [OF reaches.init w(1)])
  from replica_holds_prefix [OF this w(2)] w show ?thesis by blast
qed

text \<open>
  C14: The fork rule of the code does not give that. A replica takes its primary's whole lineage as
  it connects, before it has the writes up to the last fork; promoted then, it forks at a change
  before the fork its lineage already names, and \<open>continues\<close> reads the earlier fork's place as
  where the old history was left. The run: node 0 writes two changes of history 7; node 1, a
  replica at change 2, is promoted to 9; node 2, a replica of 0 at change 1, connects to 1 and is
  promoted to 11 before anything is sent; it writes its own change 2. Node 3, a replica of 0 at
  change 2, is then let go on from node 2, and the two hold different writes under change 2.
\<close>

theorem fork_behind_lineage_diverges:
  "\<exists>w. run_events False (promotion_run @ [Streamed 2 1 1, Forked 2 11, Wrote 2 4]) world_init = Some w
     \<and> reaches False w
     \<and> lineage (node_history (nodes w 2)) = [(7, 0), (9, 2), (11, 1)]
     \<and> lets_go_on (nodes w 2) (nodes w 3)
     \<and> node_writes (nodes w 2) = [1, 4] \<and> node_writes (nodes w 3) = [1, 2]"
proof -
  let ?es = "promotion_run @ [Streamed 2 1 1, Forked 2 11, Wrote 2 4]"
  have "map_option (\<lambda>w. (lineage (node_history (nodes w 2)), lets_go_on (nodes w 2) (nodes w 3),
      node_writes (nodes w 2), node_writes (nodes w 3)))
      (run_events False ?es world_init) = Some ([(7, 0), (9, 2), (11, 1)], True, [1, 4], [1, 2])"
    by code_simp
  then obtain w where w: "run_events False ?es world_init = Some w"
    "lineage (node_history (nodes w 2)) = [(7, 0), (9, 2), (11, 1)]"
    "lets_go_on (nodes w 2) (nodes w 3)" "node_writes (nodes w 2) = [1, 4]" "node_writes (nodes w 3) = [1, 2]"
    by (auto simp: map_option_eq_Some)
  with run_events_reaches [OF reaches.init w(1)] show ?thesis by blast
qed

end
