(* ===== verification/Fenec_Synclog.thy ===== *)
theory Fenec_Synclog
  imports Fenec_Std
begin

unbundle bit_operations_syntax

text \<open>
  The sync log (\<open>fenec-core/src/synclog.rs\<close>): the file of fixed size beside the database, into
  which a sync writes what the database's file took since the last one, and which an open applies
  to that file before it reads it. A file is its bytes; the device and inode that name it are
  handed in, as is the clock the first generation is drawn from. Reads and writes of the two
  files succeed: a disk's own errors are passed on by the code as they come.

  The claims are about a crash: what the file lost of the bytes it took is put back, whatever it
  holds in their place, and a log that does not name the file leaves it alone.
\<close>

section \<open>Constants and hashes\<close>

definition log_head :: nat where "log_head = 4096"
definition log_room :: nat where "log_room = 256 * 2 ^ 10"
definition entry_max :: usize where "entry_max = 64 * 2 ^ 10"
definition print_len :: nat where "print_len = 4096"
definition log_magic :: bytes where "log_magic = [70, 69, 78, 69, 67, 83, 89, 78]"
definition entry_magic :: u32 where "entry_magic = 0x4E595346"
definition entry_head :: usize where "entry_head = 32"
definition header_len :: usize where "header_len = 64"

text \<open>\<open>u64::rotate_left\<close>.\<close>

definition rotate_left :: "nat \<Rightarrow> u64 \<Rightarrow> u64" where
  "rotate_left n w = push_bit n w OR drop_bit (64 - n) w"

definition mix :: "u64 \<Rightarrow> u64" where
  "mix h = (let h = h XOR drop_bit 33 h; h = h * 0xFF51AFD7ED558CCD;
                h = h XOR drop_bit 33 h; h = h * 0xC4CEB9FE1A85EC53
            in h XOR drop_bit 33 h)"

definition log_hash :: "u64 \<Rightarrow> bytes \<Rightarrow> u64" where
  "log_hash seed bs =
     (let k = 0x9E3779B97F4A7C15 :: u64;
          h = seed XOR (word_of_nat (length bs) * 0xA0761D6478BD642F);
          h = fold (\<lambda>w h. rotate_left 29 ((h XOR of_le_bytes w) * k)) (chunks 8 bs) h;
          rest = drop (8 * length (chunks 8 bs)) bs;
          tail = rest @ replicate (8 - length rest) 0;
          h = (h XOR of_le_bytes tail) * k
      in mix h)"

section \<open>Files\<close>

text \<open>\<open>write_all_at\<close>: a write past the end leaves zeros between, as the system does.\<close>

definition write_at :: "bytes \<Rightarrow> nat \<Rightarrow> bytes \<Rightarrow> bytes" where
  "write_at bs at fl = take at (fl @ replicate (at - length fl) 0) @ bs @ drop (at + length bs) fl"

text \<open>\<open>read_exact_at\<close>: an error where the file ends first.\<close>

definition read_at :: "nat \<Rightarrow> nat \<Rightarrow> bytes \<Rightarrow> bytes result" where
  "read_at at n fl = ok_or (Io ''failed to fill whole buffer'') (get_range fl at (at + n))"

definition fingerprint :: "bytes \<Rightarrow> nat \<Rightarrow> u64 result" where
  "fingerprint main base =
     (let start = base - print_len
      in map_ok (\<lambda>buf. log_hash (word_of_nat base) buf) (read_at start (base - start) main))"

section \<open>Headers and entries\<close>

record log_header =
  hd_generation :: u64
  hd_base :: u64
  hd_print :: u64
  hd_file :: "u64 \<times> u64"

definition header_front :: "log_header \<Rightarrow> bytes" where
  "header_front h =
     log_magic @ le_bytes 4 (2 :: u32) @ [0, 0, 0, 0] @ le_bytes 8 (hd_generation h) @ le_bytes 8 (hd_base h)
       @ le_bytes 8 (hd_print h) @ le_bytes 8 (fst (hd_file h)) @ le_bytes 8 (snd (hd_file h))"

definition header_encode :: "log_header \<Rightarrow> bytes" where
  "header_encode h = header_front h @ le_bytes 8 (log_hash 0 (header_front h))"

definition word_at :: "bytes \<Rightarrow> nat \<Rightarrow> u64" where
  "word_at b at = of_le_bytes (take 8 (drop at b))"

definition header_decode :: "bytes \<Rightarrow> log_header option" where
  "header_decode bs =
     (if length bs < header_len then None
      else let b = take header_len bs in
        if take 8 b \<noteq> log_magic \<or> take 4 (drop 8 b) \<noteq> le_bytes 4 (2 :: u32)
           \<or> word_at b 56 \<noteq> log_hash 0 (take 56 b)
        then None
        else Some \<lparr>hd_generation = word_at b 16, hd_base = word_at b 24, hd_print = word_at b 32,
                   hd_file = (word_at b 40, word_at b 48)\<rparr>)"

definition entry_hash :: "u64 \<Rightarrow> u64 \<Rightarrow> bytes \<Rightarrow> u64" where
  "entry_hash gen at bs = log_hash (gen XOR rotate_left 17 at) bs"

definition entry_encode :: "u64 \<Rightarrow> u64 \<Rightarrow> bytes \<Rightarrow> bytes" where
  "entry_encode gen at bs =
     le_bytes 4 entry_magic @ le_bytes 4 (word_of_nat (length bs) :: u32) @ le_bytes 8 gen @ le_bytes 8 at
       @ le_bytes 8 (entry_hash gen at bs) @ bs"

definition entry_at :: "bytes \<Rightarrow> u64 \<Rightarrow> u64 \<Rightarrow> bytes option" where
  "entry_at lg gen at =
     (if length lg < entry_head then None
      else if (of_le_bytes (take 4 lg) :: u32) \<noteq> entry_magic \<or> word_at lg 8 \<noteq> gen \<or> word_at lg 16 \<noteq> at then None
      else let n = unat (of_le_bytes (take 4 (drop 4 lg)) :: u32) in
        case get_range lg entry_head (entry_head + n) of
          None \<Rightarrow> None
        | Some bs \<Rightarrow> if word_at lg 24 = entry_hash gen at bs then Some bs else None)"

section \<open>Recovery\<close>

text \<open>
  The loop of \<open>recover\<close>: \<open>len\<close> is the file's length as the open found it. An entry the file
  already holds is not written again.
\<close>

function recover_loop :: "bytes \<Rightarrow> u64 \<Rightarrow> nat \<Rightarrow> bytes \<Rightarrow> nat \<Rightarrow> nat \<Rightarrow> bytes" where
  "recover_loop lg gen len main at pos =
     (if length lg < pos then main
      else case entry_at (drop pos lg) gen (word_of_nat at) of
        None \<Rightarrow> main
      | Some bs \<Rightarrow>
          (let e = at + length bs;
               same = (e \<le> len \<and> get_range main at e = Some bs)
           in recover_loop lg gen len (if same then main else write_at bs at main) e (pos + (entry_head + length bs))))"
  by pat_completeness auto
termination
proof (relation "measure (\<lambda>(lg, gen, len, main, at, pos). length lg - pos)", goal_cases)
  case (2 lg gen len main at pos bs e same)
  then have "entry_head \<le> length (drop pos lg)" by (auto simp: entry_at_def split: if_splits)
  then show ?case by (simp add: entry_head_def)
qed simp

declare recover_loop.simps [simp del]

text \<open>
  \<open>recover\<close>, where the log is there: the file and the log after it. The header is wiped once the
  file is synced.
\<close>

definition recover :: "u64 \<times> u64 \<Rightarrow> bytes \<Rightarrow> bytes \<Rightarrow> (bytes \<times> bytes) result" where
  "recover ident main lg =
     (case header_decode lg of
        None \<Rightarrow> Ok (main, lg)
      | Some h \<Rightarrow>
          if hd_file h \<noteq> ident \<or> length main < unat (hd_base h) then Ok (main, lg)
          else and_then (fingerprint main (unat (hd_base h))) (\<lambda>print.
            if print \<noteq> hd_print h then Ok (main, lg)
            else Ok (recover_loop lg (hd_generation h) (length main) main (unat (hd_base h)) log_head,
                     write_at (replicate header_len 0) 0 lg)))"

section \<open>The log as a sink writes it\<close>

record sync_log =
  sl_file :: bytes
  sl_generation :: u64
  sl_pos :: nat
  sl_at :: nat
  sl_begun :: "bytes option"

definition sl_open :: "u64 \<Rightarrow> bytes \<Rightarrow> sync_log" where
  "sl_open clock fl =
     (let fl = (if length fl < log_head + log_room
                then write_at (replicate (log_head + log_room - length fl) 0) (length fl) fl else fl);
          gen = (case header_decode (take header_len fl) of
                   Some h \<Rightarrow> hd_generation h + 1
                 | None \<Rightarrow> clock)
      in \<lparr>sl_file = fl, sl_generation = gen, sl_pos = log_head, sl_at = 0, sl_begun = None\<rparr>)"

definition sl_begin :: "u64 \<times> u64 \<Rightarrow> bytes \<Rightarrow> nat \<Rightarrow> sync_log \<Rightarrow> sync_log result" where
  "sl_begin ident main base l =
     (let gen = sl_generation l + 1
      in map_ok (\<lambda>print. l\<lparr>sl_generation := gen,
            sl_begun := Some (header_encode \<lparr>hd_generation = gen, hd_base = word_of_nat base,
              hd_print = print, hd_file = ident\<rparr>),
            sl_pos := log_head, sl_at := base\<rparr>)
          (fingerprint main base))"

definition sl_takes :: "nat \<Rightarrow> usize \<Rightarrow> sync_log \<Rightarrow> bool" where
  "sl_takes at n l \<longleftrightarrow> n \<le> entry_max \<and> at = sl_at l
     \<and> sl_pos l + (entry_head + n) \<le> log_head + log_room \<and> (sl_begun l \<noteq> None \<or> sl_pos l > log_head)"

definition sl_append :: "nat \<Rightarrow> bytes \<Rightarrow> sync_log \<Rightarrow> sync_log" where
  "sl_append at bs l =
     (let fl = (case sl_begun l of Some hdr \<Rightarrow> write_at hdr 0 (sl_file l) | None \<Rightarrow> sl_file l);
          e = entry_encode (sl_generation l) (word_of_nat at) bs
      in l\<lparr>sl_file := write_at e (sl_pos l) fl, sl_begun := None,
           sl_pos := sl_pos l + length e, sl_at := at + length bs\<rparr>)"

section \<open>What is written is read\<close>

lemma write_at_inside: "at \<le> length fl \<Longrightarrow> write_at bs at fl = take at fl @ bs @ drop (at + length bs) fl"
  by (simp add: write_at_def)

lemma length_write_at [simp]: "length (write_at bs at fl) = max (length fl) (at + length bs)"
  by (auto simp: write_at_def max_def min_def)

lemma take_write_at: "n \<le> at \<Longrightarrow> at \<le> length fl \<Longrightarrow> take n (write_at bs at fl) = take n fl"
  by (simp add: write_at_inside min_def)

lemma drop_write_at: "at + length bs \<le> n \<Longrightarrow> at \<le> length fl \<Longrightarrow> drop n (write_at bs at fl) = drop n fl"
  by (simp add: write_at_inside add.commute)

lemma length_header_front [simp]: "length (header_front h) = 56"
  by (simp add: header_front_def log_magic_def)

lemma length_header_encode [simp]: "length (header_encode h) = header_len"
  by (simp add: header_encode_def header_len_def)

lemma header_fields:
  "take 8 (header_front h) = log_magic" "take 4 (drop 8 (header_front h)) = le_bytes 4 (2 :: u32)"
  "take 8 (drop 16 (header_front h)) = le_bytes 8 (hd_generation h)"
  "take 8 (drop 24 (header_front h)) = le_bytes 8 (hd_base h)"
  "take 8 (drop 32 (header_front h)) = le_bytes 8 (hd_print h)"
  "take 8 (drop 40 (header_front h)) = le_bytes 8 (fst (hd_file h))"
  "take 8 (drop 48 (header_front h)) = le_bytes 8 (snd (hd_file h))"
proof -
  have m: "length log_magic = 8" by (simp add: log_magic_def)
  show "take 8 (header_front h) = log_magic" "take 4 (drop 8 (header_front h)) = le_bytes 4 (2 :: u32)"
    "take 8 (drop 16 (header_front h)) = le_bytes 8 (hd_generation h)"
    "take 8 (drop 24 (header_front h)) = le_bytes 8 (hd_base h)"
    "take 8 (drop 32 (header_front h)) = le_bytes 8 (hd_print h)"
    "take 8 (drop 40 (header_front h)) = le_bytes 8 (fst (hd_file h))"
    "take 8 (drop 48 (header_front h)) = le_bytes 8 (snd (hd_file h))"
    unfolding header_front_def by (simp_all add: m)
qed

lemma word_at_front: "at + 8 \<le> 56 \<Longrightarrow> word_at (header_encode h @ rest) at = of_le_bytes (take 8 (drop at (header_front h)))"
  by (simp add: word_at_def header_encode_def)

lemma header_decode_encode: "header_decode (header_encode h @ rest) = Some h"
proof -
  have t: "take header_len (header_encode h @ rest) = header_encode h" by simp
  have w: "word_at (header_encode h) at = of_le_bytes (take 8 (drop at (header_front h)))" if "at + 8 \<le> 56" for at
    using word_at_front [OF that, of h "[]"] by simp
  have f: "take 8 (header_encode h) = log_magic" "take 4 (drop 8 (header_encode h)) = le_bytes 4 (2 :: u32)"
    "take 56 (header_encode h) = header_front h" "word_at (header_encode h) 56 = log_hash 0 (header_front h)"
    using header_fields [of h] by (simp_all add: header_encode_def word_at_def)
  show ?thesis
    unfolding header_decode_def Let_def t by (simp add: f w header_fields)
qed

lemma header_wiped: "header_decode (replicate header_len 0 @ rest) = None"
proof -
  have "take 8 (replicate header_len (0 :: u8)) \<noteq> log_magic" by code_simp
  then show ?thesis by (simp add: header_decode_def Let_def header_len_def)
qed

lemma length_entry_encode [simp]: "length (entry_encode gen at bs) = entry_head + length bs"
  by (simp add: entry_encode_def entry_head_def)

lemma entry_at_encode:
  assumes "length bs < 2 ^ 32"
  shows "entry_at (entry_encode gen at bs @ rest) gen at = Some bs"
proof -
  let ?lg = "entry_encode gen at bs @ rest"
  have f: "take 4 ?lg = le_bytes 4 entry_magic" "take 4 (drop 4 ?lg) = le_bytes 4 (word_of_nat (length bs) :: u32)"
    "word_at ?lg 8 = gen" "word_at ?lg 16 = at" "word_at ?lg 24 = entry_hash gen at bs"
    by (simp_all add: entry_encode_def word_at_def)
  have n: "unat (word_of_nat (length bs) :: u32) = length bs" using assms by (rule unat_of_nat_u32)
  have r: "get_range ?lg entry_head (entry_head + length bs) = Some bs"
    by (simp add: get_range_def entry_encode_def entry_head_def)
  have l: "\<not> length ?lg < entry_head" by simp
  show ?thesis unfolding entry_at_def Let_def f le_bytes_roundtrip n r using l by simp
qed

text \<open>A run of entries, each the bytes of the file right after the last's.\<close>

fun log_entries :: "u64 \<Rightarrow> nat \<Rightarrow> bytes list \<Rightarrow> bytes" where
  "log_entries gen at [] = []"
| "log_entries gen at (c # cs) = entry_encode gen (word_of_nat at) c @ log_entries gen (at + length c) cs"

lemma log_entries_snoc:
  "log_entries gen at (cs @ [c]) = log_entries gen at cs @ entry_encode gen (word_of_nat (at + length (concat cs))) c"
  by (induction cs arbitrary: at) (auto simp: add.assoc)

lemma recover_loop_entries:
  assumes "drop pos lg = log_entries gen at cs @ rest" "entry_at rest gen (word_of_nat (at + length (concat cs))) = None"
    and "at \<le> length main" "\<forall>c\<in>set cs. length c < 2 ^ 32" "pos \<le> length lg"
  shows "recover_loop lg gen len main at pos = take at main @ concat cs @ drop (at + length (concat cs)) main"
  using assms
proof (induction cs arbitrary: pos at main)
  case Nil
  then show ?case by (subst recover_loop.simps) simp
next
  case (Cons c cs)
  let ?e = "entry_encode gen (word_of_nat at) c"
  have d: "drop pos lg = ?e @ log_entries gen (at + length c) cs @ rest" using Cons.prems(1) by simp
  then have en: "entry_at (drop pos lg) gen (word_of_nat at) = Some c"
    using entry_at_encode [of c] Cons.prems(4) by simp
  have d': "drop (pos + (entry_head + length c)) lg = log_entries gen (at + length c) cs @ rest"
  proof -
    have "drop (pos + (entry_head + length c)) lg = drop (length ?e) (drop pos lg)" by (simp add: add.commute)
    also have "\<dots> = log_entries gen (at + length c) cs @ rest" unfolding d by simp
    finally show ?thesis .
  qed
  have pl: "pos + (entry_head + length c) \<le> length lg"
    using arg_cong [OF d, of length] Cons.prems(5) by simp
  define m where "m = (if at + length c \<le> len \<and> get_range main at (at + length c) = Some c then main else write_at c at main)"
  have m: "m = take at main @ c @ drop (at + length c) main"
  proof (cases "get_range main at (at + length c) = Some c")
    case True
    then have "main = take at main @ c @ drop (at + length c) main"
      by (auto simp: get_range_Some_iff) (metis append_take_drop_id drop_drop add.commute)
    with True show ?thesis by (auto simp: m_def write_at_inside Cons.prems(3))
  next
    case False
    with Cons.prems(3) show ?thesis by (simp add: m_def write_at_inside)
  qed
  have "recover_loop lg gen len m (at + length c) (pos + (entry_head + length c))
      = take (at + length c) m @ concat cs @ drop (at + length c + length (concat cs)) m"
    by (rule Cons.IH [OF d' _ _ _ pl]) (use Cons.prems(2-4) m in \<open>auto simp: add.assoc\<close>)
  also have "\<dots> = take at main @ concat (c # cs) @ drop (at + length (concat (c # cs))) main"
    unfolding m using Cons.prems(3) by (simp add: add.assoc add.commute add.left_commute)
  finally show ?case
    using en Cons.prems(5) by (subst recover_loop.simps) (simp add: Let_def m_def)
qed

section \<open>A log written\<close>

text \<open>Appends one after another, each asked of \<open>takes\<close> first, as a sync does.\<close>

fun sl_run :: "nat \<Rightarrow> bytes list \<Rightarrow> sync_log \<Rightarrow> sync_log option" where
  "sl_run at [] l = Some l"
| "sl_run at (c # cs) l = (if sl_takes at (length c) l then sl_run (at + length c) cs (sl_append at c l) else None)"

lemma sl_run_snoc: "sl_run at (cs @ [c]) l =
   (case sl_run at cs l of None \<Rightarrow> None
    | Some l' \<Rightarrow> if sl_takes (at + length (concat cs)) (length c) l'
                then Some (sl_append (at + length (concat cs)) c l') else None)"
  by (induction cs arbitrary: at l) (auto simp: add.assoc split: option.split)

text \<open>What the log holds once a generation's entries are in it.\<close>

definition sl_holds :: "log_header \<Rightarrow> bytes list \<Rightarrow> sync_log \<Rightarrow> bool" where
  "sl_holds h cs l \<longleftrightarrow> log_head + log_room \<le> length (sl_file l) \<and> sl_generation l = hd_generation h
     \<and> sl_pos l = log_head + length (log_entries (hd_generation h) (unat (hd_base h)) cs)
     \<and> sl_pos l \<le> log_head + log_room
     \<and> (\<forall>c\<in>set cs. length c \<le> entry_max)
     \<and> (if cs = [] then sl_begun l = Some (header_encode h)
        else sl_begun l = None \<and> take header_len (sl_file l) = header_encode h
          \<and> take (length (log_entries (hd_generation h) (unat (hd_base h)) cs)) (drop log_head (sl_file l))
              = log_entries (hd_generation h) (unat (hd_base h)) cs)"

lemmas log_sizes = log_head_def log_room_def header_len_def

lemma sl_begin_holds:
  assumes "sl_begin ident main base l = Ok l'" "log_head + log_room \<le> length (sl_file l)" "base < 2 ^ 64"
  shows "\<exists>h. sl_holds h [] l' \<and> hd_file h = ident \<and> unat (hd_base h) = base \<and> fingerprint main base = Ok (hd_print h)"
proof -
  from assms(1) obtain print where f: "fingerprint main base = Ok print"
    and l': "l' = l\<lparr>sl_generation := sl_generation l + 1,
            sl_begun := Some (header_encode \<lparr>hd_generation = sl_generation l + 1, hd_base = word_of_nat base,
              hd_print = print, hd_file = ident\<rparr>), sl_pos := log_head, sl_at := base\<rparr>"
    by (auto simp: sl_begin_def Let_def result_simps)
  have "unat (word_of_nat base :: u64) = base" using assms(3) by (rule unat_of_nat_u64)
  then show ?thesis
    using f assms(2) unfolding l'
    by (intro exI [of _ "\<lparr>hd_generation = sl_generation l + 1, hd_base = word_of_nat base,
              hd_print = print, hd_file = ident\<rparr>"]) (simp add: sl_holds_def)
qed

lemma sl_append_holds:
  assumes "sl_holds h cs l" "sl_takes at (length c) l" "at = unat (hd_base h) + length (concat cs)"
  shows "sl_holds h (cs @ [c]) (sl_append at c l)"
proof -
  let ?es = "log_entries (hd_generation h) (unat (hd_base h)) cs"
  let ?e = "entry_encode (hd_generation h) (word_of_nat at) c"
  have len: "log_head + log_room \<le> length (sl_file l)" and gen: "sl_generation l = hd_generation h"
    and pos: "sl_pos l = log_head + length ?es" and cs: "\<forall>c\<in>set cs. length c \<le> entry_max"
    using assms(1) by (simp_all add: sl_holds_def)
  have room: "sl_pos l + (entry_head + length c) \<le> log_head + log_room" "length c \<le> entry_max"
    using assms(2) by (auto simp: sl_takes_def)
  define fl where "fl = (case sl_begun l of Some hdr \<Rightarrow> write_at hdr 0 (sl_file l) | None \<Rightarrow> sl_file l)"
  have big: "header_len \<le> log_head" by (simp add: log_sizes)
  have fl: "length fl = length (sl_file l)" "take header_len fl = header_encode h" "take (length ?es) (drop log_head fl) = ?es"
  proof -
    show "length fl = length (sl_file l)"
      using assms(1) len by (auto simp: sl_holds_def fl_def log_sizes split: if_splits option.splits)
    show "take header_len fl = header_encode h"
      using assms(1) by (auto simp: sl_holds_def fl_def write_at_inside split: if_splits)
    show "take (length ?es) (drop log_head fl) = ?es"
      using assms(1) by (auto simp: sl_holds_def fl_def split: if_splits)
  qed
  have in': "sl_pos l \<le> length fl" using room len fl(1) by simp
  have d: "drop log_head (write_at ?e (sl_pos l) fl) = ?es @ ?e @ drop (sl_pos l + length ?e) fl"
    using fl(3) in' pos by (simp add: write_at_inside drop_take)
  show ?thesis
    using room cs len big fl(1,2) pos in' gen d take_write_at [of header_len "sl_pos l" fl ?e]
    by (simp add: sl_holds_def sl_append_def Let_def fl_def [symmetric] assms(3) [symmetric] log_entries_snoc max_def)
qed

lemma sl_run_holds:
  "sl_holds h [] l \<Longrightarrow> sl_run (unat (hd_base h)) cs l = Some l' \<Longrightarrow> sl_holds h cs l'"
proof (induction cs arbitrary: l' rule: rev_induct)
  case (snoc c cs)
  then show ?case
    by (auto simp: sl_run_snoc split: option.splits if_splits intro: sl_append_holds)
qed simp

lemma fingerprint_prefix:
  "base \<le> length m \<Longrightarrow> base \<le> length m' \<Longrightarrow> take base m' = take base m \<Longrightarrow> fingerprint m' base = fingerprint m base"
proof -
  assume a: "base \<le> length m" "base \<le> length m'" "take base m' = take base m"
  have "take (base - s) (drop s m') = take (base - s) (drop s m)" for s
    using a(3) by (metis drop_take)
  with a(1,2) show ?thesis by (simp add: fingerprint_def read_at_def get_range_def Let_def)
qed

text \<open>
  C12: What a sync made durable survives a crash. A generation begun over a file synced up to
  \<open>base\<close>, and entries appended to it, each one the log said it would take: if the machine then
  goes down and the file keeps its first \<open>base\<close> bytes and anything at all after them -- nothing,
  zeros, older or half-written bytes -- and the log keeps what was synced, whatever an append
  under way left after it that does not read as an entry, the open puts back every byte of every
  entry in its place, keeps the file beyond them as it is, and spends the log.
\<close>

theorem recover_restores:
  assumes "log_head + log_room \<le> length (sl_file l0)" and "base \<le> length main" and "base < 2 ^ 64"
    and "sl_begin ident main base l0 = Ok l1" and "sl_run base cs l1 = Some l" and "cs \<noteq> []"
    and "base \<le> length main'" and "take base main' = take base main"
    and "length lg = length (sl_file l)" and "take (sl_pos l) lg = take (sl_pos l) (sl_file l)"
    and "entry_at (drop (sl_pos l) lg) (sl_generation l) (word_of_nat (base + length (concat cs))) = None"
  shows "\<exists>lg'. recover ident main' lg
      = Ok (take base main @ concat cs @ drop (base + length (concat cs)) main', lg') \<and> header_decode lg' = None"
proof -
  obtain h where h: "sl_holds h [] l1" "hd_file h = ident" "unat (hd_base h) = base" "fingerprint main base = Ok (hd_print h)"
    using sl_begin_holds [OF assms(4,1,3)] by blast
  have hold: "sl_holds h cs l" using sl_run_holds [OF h(1)] assms(5) h(3) by simp
  let ?es = "log_entries (hd_generation h) base cs"
  have pos: "sl_pos l = log_head + length ?es" "sl_pos l \<le> length (sl_file l)" "sl_generation l = hd_generation h"
    "\<forall>c\<in>set cs. length c < 2 ^ 32"
    using hold h(3) by (auto simp: sl_holds_def entry_max_def)
  have hd': "take header_len lg = header_encode h"
  proof -
    have "header_len \<le> sl_pos l" using pos by (simp add: log_sizes)
    then have "take header_len lg = take header_len (take (sl_pos l) lg)" by (simp add: min_def)
    also have "\<dots> = take header_len (sl_file l)" unfolding assms(10) using \<open>header_len \<le> sl_pos l\<close> by (simp add: min_def)
    finally show ?thesis using hold assms(6) by (simp add: sl_holds_def)
  qed
  have dec: "header_decode lg = Some h"
    using header_decode_encode [of h "drop header_len lg"] hd' by (metis append_take_drop_id)
  have es: "drop log_head lg = ?es @ drop (sl_pos l) lg"
  proof -
    have "take (length ?es) (drop log_head lg) = drop log_head (take (sl_pos l) lg)" by (simp add: drop_take pos)
    also have "\<dots> = take (length ?es) (drop log_head (sl_file l))" unfolding assms(10) by (simp add: drop_take pos)
    also have "\<dots> = ?es" using hold assms(6) h(3) by (simp add: sl_holds_def)
    finally show ?thesis by (metis append_take_drop_id drop_drop add.commute pos(1))
  qed
  have fp: "fingerprint main' base = Ok (hd_print h)"
    using fingerprint_prefix [OF assms(2,7,8)] h(4) by simp
  have "recover_loop lg (hd_generation h) (length main') main' base log_head
      = take base main' @ concat cs @ drop (base + length (concat cs)) main'"
    by (rule recover_loop_entries [OF es]) (use assms(7,9,11) pos in auto)
  moreover have "header_decode (write_at (replicate header_len 0) 0 lg) = None"
    using header_wiped by (simp add: write_at_inside)
  ultimately show ?thesis
    using dec h(2,3) fp assms(7,8) by (simp add: recover_def)
qed

text \<open>A tail of zeros is no entry: the log as it was made.\<close>

lemma entry_at_zeros: "entry_at (replicate n 0) gen at = None"
proof (cases "n < 32")
  case True
  then show ?thesis by (simp add: entry_at_def entry_head_def)
next
  case False
  have "(of_le_bytes (replicate 4 0) :: u32) \<noteq> entry_magic" by code_simp
  with False show ?thesis by (simp add: entry_at_def min_def)
qed

theorem recover_restores_witness:
  "\<exists>lg'. recover (7, 8) [1, 2, 9, 9, 9, 9] (sl_file (sl_append 4 [5] (sl_append 2 [3, 4]
        (case sl_begin (7, 8) [1, 2] 2 (sl_open 1 []) of Ok l \<Rightarrow> l | _ \<Rightarrow> sl_open 1 []))))
      = Ok ([1, 2, 3, 4, 5, 9], lg') \<and> header_decode lg' = None"
proof -
  define l0 where "l0 = sl_open 1 []"
  have f0: "sl_file l0 = replicate (log_head + log_room) 0"
    by (simp add: l0_def sl_open_def write_at_def Let_def)
  obtain p where p: "fingerprint [1, 2] 2 = Ok p"
    by (auto simp: fingerprint_def print_len_def read_at_def get_range_def)
  then obtain l1 where l1: "sl_begin (7, 8) [1, 2] 2 l0 = Ok l1" by (simp add: sl_begin_def Let_def)
  then have g: "sl_file l1 = sl_file l0" "sl_pos l1 = log_head" "sl_at l1 = 2" "sl_begun l1 \<noteq> None"
    "\<And>hd. sl_begun l1 = Some hd \<Longrightarrow> length hd = header_len"
    using p by (auto simp: sl_begin_def Let_def)
  define l where "l = sl_append 4 [5] (sl_append 2 [3, 4] l1)"
  have run: "sl_run 2 [[3, 4], [5]] l1 = Some l"
    using g by (simp add: sl_takes_def sl_append_def Let_def l_def entry_max_def entry_head_def log_sizes)
  have pos: "sl_pos l = log_head + 67" using g by (simp add: l_def sl_append_def Let_def entry_head_def)
  have tail: "drop (sl_pos l) (sl_file l) = replicate (log_room - 67) 0"
    using g by (auto simp: l_def sl_append_def Let_def entry_head_def f0 log_sizes drop_write_at split: option.split)
  have "\<exists>lg'. recover (7, 8) [1, 2, 9, 9, 9, 9] (sl_file l)
      = Ok (take 2 [1, 2] @ concat [[3, 4], [5]] @ drop (2 + length (concat [[3, 4], [5 :: u8]])) [1, 2, 9, 9, 9, 9], lg')
      \<and> header_decode lg' = None"
    by (rule recover_restores [OF _ _ _ l1 run]) (simp_all add: f0 tail entry_at_zeros)
  then show ?thesis using l1 by (simp add: l_def l0_def)
qed

end
