(* ===== verification/Fenec_Chunked.thy ===== *)
theory Fenec_Chunked
  imports Fenec_Std
begin

text \<open>
  The sorted sequence behind the ordered indexes (\<open>Chunked\<close> of \<open>fenec-core/src/sorted.rs\<close>):
  chunks of at most 256 entries, each chunk sorted, with the chunks' first entries side by side
  for the search. An index or a slice out of range panics, as do the places the code expects
  never to be reached; none of it happens to a sequence the operations made.

  What an entry's order promises is the locale \<open>entry_order\<close>, the trait \<open>Entry\<close> of the code; the
  laws of the sequence -- a set, walked in order, its ranges cut out by two searches -- are proved
  in it once, and \<open>Fenec_Sorted\<close> interprets it on the entries an index holds.
\<close>

section \<open>Vectors\<close>

definition vec_get :: "'a list \<Rightarrow> nat \<Rightarrow> 'a result" where
  "vec_get xs i = (if i < length xs then Ok (xs ! i) else Panic)"

definition vec_insert :: "nat \<Rightarrow> 'a \<Rightarrow> 'a list \<Rightarrow> 'a list result" where
  "vec_insert i x xs = (if i \<le> length xs then Ok (take i xs @ x # drop i xs) else Panic)"

definition vec_remove :: "nat \<Rightarrow> 'a list \<Rightarrow> 'a list result" where
  "vec_remove i xs = (if i < length xs then Ok (take i xs @ drop (Suc i) xs) else Panic)"

definition vec_set :: "nat \<Rightarrow> 'a \<Rightarrow> 'a list \<Rightarrow> 'a list result" where
  "vec_set i x xs = (if i < length xs then Ok (xs[i := x]) else Panic)"

section \<open>The sequence\<close>

definition chunk_max :: nat where "chunk_max = 256"

record 'a chunked =
  ch_chunks :: "'a list list"
  ch_firsts :: "'a list"
  ch_len :: nat

definition ch_new :: "'a chunked" where
  "ch_new = \<lparr>ch_chunks = [], ch_firsts = [], ch_len = 0\<rparr>"

text \<open>Chunks half full, until the entries run out.\<close>

function cut_chunks :: "'a list \<Rightarrow> 'a list list" where
  "cut_chunks xs =
     (let chunk = take (chunk_max div 2) xs
      in if chunk = [] then [] else chunk # cut_chunks (drop (chunk_max div 2) xs))"
  by pat_completeness auto
termination
  by (relation "measure length") (auto simp: chunk_max_def)

declare cut_chunks.simps [simp del]

definition ch_from_sorted :: "'a list \<Rightarrow> 'a chunked" where
  "ch_from_sorted v =
     (let cs = cut_chunks v in \<lparr>ch_chunks = cs, ch_firsts = map hd cs, ch_len = length v\<rparr>)"

definition chunk_for :: "('a \<Rightarrow> 'a \<Rightarrow> ordering) \<Rightarrow> 'a \<Rightarrow> 'a chunked \<Rightarrow> nat" where
  "chunk_for ord x c = partition_point (\<lambda>f. ord f x \<noteq> Greater) (ch_firsts c) - 1"

text \<open>An entry past the last: pushed onto the last chunk, or the first of a new one.\<close>

definition past_last :: "('a \<Rightarrow> 'a \<Rightarrow> ordering) \<Rightarrow> 'a \<Rightarrow> 'a chunked \<Rightarrow> bool result" where
  "past_last ord x c =
     (if ch_chunks c = [] then Ok True
      else if last (ch_chunks c) = [] then Panic
      else Ok (ord (last (last (ch_chunks c))) x = Less))"

definition push_last :: "'a \<Rightarrow> 'a chunked \<Rightarrow> 'a chunked" where
  "push_last x c =
     (if ch_chunks c \<noteq> [] \<and> length (last (ch_chunks c)) < chunk_max
      then c\<lparr>ch_chunks := butlast (ch_chunks c) @ [last (ch_chunks c) @ [x]], ch_len := ch_len c + 1\<rparr>
      else c\<lparr>ch_chunks := ch_chunks c @ [[x]], ch_firsts := ch_firsts c @ [x], ch_len := ch_len c + 1\<rparr>)"

text \<open>A full chunk split in two, and where the entry's place then is.\<close>

definition split_chunk :: "nat \<Rightarrow> nat \<Rightarrow> 'a list \<Rightarrow> 'a chunked \<Rightarrow> ('a chunked \<times> nat \<times> nat) result" where
  "split_chunk ci pos chunk c =
     (if length chunk < chunk_max then Ok (c, ci, pos)
      else let tail = drop (chunk_max div 2) chunk in
        and_then (vec_get tail 0) (\<lambda>f.
        and_then (vec_insert (ci + 1) f (ch_firsts c)) (\<lambda>fs.
        and_then (vec_insert (ci + 1) tail ((ch_chunks c)[ci := take (chunk_max div 2) chunk])) (\<lambda>cs.
          Ok (c\<lparr>ch_chunks := cs, ch_firsts := fs\<rparr>,
              if pos \<le> chunk_max div 2 then (ci, pos) else (ci + 1, pos - chunk_max div 2))))))"

definition ch_insert :: "('a \<Rightarrow> 'a \<Rightarrow> ordering) \<Rightarrow> 'a \<Rightarrow> 'a chunked \<Rightarrow> ('a chunked \<times> bool) result" where
  "ch_insert ord x c =
     and_then (past_last ord x c) (\<lambda>past.
       if past then Ok (push_last x c, True)
       else let ci = chunk_for ord x c in
         and_then (vec_get (ch_chunks c) ci) (\<lambda>chunk.
         case binary_search_by (\<lambda>e. ord e x) chunk of
           Inl _ \<Rightarrow> Ok (c, False)
         | Inr pos \<Rightarrow>
             and_then (split_chunk ci pos chunk c) (\<lambda>(c, ci, pos).
             and_then (if pos = 0 then vec_set ci x (ch_firsts c) else Ok (ch_firsts c)) (\<lambda>fs.
             and_then (vec_get (ch_chunks c) ci) (\<lambda>chunk.
             and_then (vec_insert pos x chunk) (\<lambda>chunk.
               Ok (c\<lparr>ch_chunks := (ch_chunks c)[ci := chunk], ch_firsts := fs, ch_len := ch_len c + 1\<rparr>, True)))))))"

definition ch_remove :: "('a \<Rightarrow> 'a \<Rightarrow> ordering) \<Rightarrow> 'a \<Rightarrow> 'a chunked \<Rightarrow> ('a chunked \<times> bool) result" where
  "ch_remove ord x c =
     (if ch_chunks c = [] then Ok (c, False)
      else let ci = chunk_for ord x c in
        and_then (vec_get (ch_chunks c) ci) (\<lambda>chunk.
        case binary_search_by (\<lambda>e. ord e x) chunk of
          Inr _ \<Rightarrow> Ok (c, False)
        | Inl pos \<Rightarrow>
            and_then (vec_remove pos chunk) (\<lambda>chunk.
              if chunk = [] then
                and_then (vec_remove ci (ch_chunks c)) (\<lambda>cs.
                and_then (vec_remove ci (ch_firsts c)) (\<lambda>fs.
                  Ok (c\<lparr>ch_chunks := cs, ch_firsts := fs, ch_len := ch_len c - 1\<rparr>, True)))
              else
                and_then (if pos = 0 then vec_set ci (hd chunk) (ch_firsts c) else Ok (ch_firsts c)) (\<lambda>fs.
                  Ok (c\<lparr>ch_chunks := (ch_chunks c)[ci := chunk], ch_firsts := fs, ch_len := ch_len c - 1\<rparr>, True)))))"

definition ch_is_empty :: "'a chunked \<Rightarrow> bool" where
  "ch_is_empty c \<longleftrightarrow> ch_len c = 0"

section \<open>Ranges\<close>

datatype 'a bound = Included 'a | Excluded 'a | Unbounded

definition below :: "('a \<Rightarrow> 'a \<Rightarrow> ordering) \<Rightarrow> 'a \<Rightarrow> bool \<Rightarrow> 'a \<Rightarrow> bool" where
  "below ord x past e = (case ord e x of Less \<Rightarrow> True | Equal \<Rightarrow> past | Greater \<Rightarrow> False)"

definition seek :: "('a \<Rightarrow> 'a \<Rightarrow> ordering) \<Rightarrow> 'a \<Rightarrow> bool \<Rightarrow> 'a chunked \<Rightarrow> (nat \<times> nat) result" where
  "seek ord x past c =
     (let ci = partition_point (below ord x past) (ch_firsts c) in
      if ci = 0 then Ok (0, 0)
      else map_ok (\<lambda>chunk.
          let at = partition_point (below ord x past) chunk
          in if at = length chunk then (ci, 0) else (ci - 1, at))
        (vec_get (ch_chunks c) (ci - 1)))"

definition range_start :: "('a \<Rightarrow> 'a \<Rightarrow> ordering) \<Rightarrow> 'a bound \<Rightarrow> 'a chunked \<Rightarrow> (nat \<times> nat) result" where
  "range_start ord lo c = (case lo of Included x \<Rightarrow> seek ord x False c | Excluded x \<Rightarrow> seek ord x True c
     | Unbounded \<Rightarrow> Ok (0, 0))"

definition range_end :: "('a \<Rightarrow> 'a \<Rightarrow> ordering) \<Rightarrow> 'a bound \<Rightarrow> 'a chunked \<Rightarrow> (nat \<times> nat) result" where
  "range_end ord hi c = (case hi of Included x \<Rightarrow> seek ord x True c | Excluded x \<Rightarrow> seek ord x False c
     | Unbounded \<Rightarrow> Ok (length (ch_chunks c), 0))"

text \<open>The lazy walk over the chunks, run to its end.\<close>

fun range_loop :: "'a list list \<Rightarrow> nat \<times> nat \<Rightarrow> nat \<times> nat \<Rightarrow> nat list \<Rightarrow> 'a list result" where
  "range_loop cs s e [] = Ok []"
| "range_loop cs s e (k # ks) =
     and_then (vec_get cs k) (\<lambda>chunk.
       let start = (if k = fst s then snd s else 0);
           stop = (if k = fst e then snd e else length chunk)
       in if length chunk < stop then Panic
          else map_ok (\<lambda>rest. drop (min start stop) (take stop chunk) @ rest) (range_loop cs s e ks))"

definition ch_range :: "('a \<Rightarrow> 'a \<Rightarrow> ordering) \<Rightarrow> 'a bound \<Rightarrow> 'a bound \<Rightarrow> 'a chunked \<Rightarrow> 'a list result" where
  "ch_range ord lo hi c =
     and_then (range_start ord lo c) (\<lambda>s.
     and_then (range_end ord hi c) (\<lambda>e.
       let l = (if snd e = 0 then fst e else fst e + 1)
       in range_loop (ch_chunks c) s e [fst s ..< max l (fst s)]))"

definition ch_iter :: "'a chunked \<Rightarrow> 'a list" where
  "ch_iter c = concat (ch_chunks c)"

definition between :: "nat \<times> nat \<Rightarrow> nat \<times> nat \<Rightarrow> 'a chunked \<Rightarrow> nat result" where
  "between a b c =
     (if fst b < fst a \<or> (fst a = fst b \<and> snd b \<le> snd a) then Ok 0
      else if fst a = fst b then Ok (snd b - snd a)
      else and_then (vec_get (ch_chunks c) (fst a)) (\<lambda>chunk.
        if length chunk < snd a then Panic
        else case get_range (ch_chunks c) (fst a + 1) (fst b) of
          None \<Rightarrow> Panic
        | Some mid \<Rightarrow> Ok (length chunk - snd a + sum_list (map length mid) + snd b)))"

definition ch_count :: "('a \<Rightarrow> 'a \<Rightarrow> ordering) \<Rightarrow> 'a \<Rightarrow> 'a \<Rightarrow> 'a chunked \<Rightarrow> nat result" where
  "ch_count ord lo hi c =
     and_then (seek ord lo False c) (\<lambda>a. and_then (seek ord hi False c) (\<lambda>b. between a b c))"

definition ch_count_within :: "('a \<Rightarrow> 'a \<Rightarrow> ordering) \<Rightarrow> 'a bound \<Rightarrow> 'a bound \<Rightarrow> 'a chunked \<Rightarrow> nat result" where
  "ch_count_within ord lo hi c =
     and_then (range_start ord lo c) (\<lambda>a. and_then (range_end ord hi c) (\<lambda>b. between a b c))"

section \<open>Places\<close>

text \<open>A prefix of the list is what a predicate holds of.\<close>

abbreviation leads :: "('a \<Rightarrow> bool) \<Rightarrow> 'a list \<Rightarrow> bool" where
  "leads P xs \<equiv> sorted_wrt (\<lambda>x y. P y \<longrightarrow> P x) xs"

lemma partition_point_length: "leads P xs \<Longrightarrow> partition_point P xs = length (filter P xs)"
  using take_partition_point [of P xs] partition_point_spec(1) [of P xs] by (metis length_take min.absorb2)

lemma leads_take: "leads P xs \<Longrightarrow> take (length (filter P xs)) xs = filter P xs"
  using take_partition_point [of P xs] by (simp add: partition_point_length)

lemma leads_drop: "leads P xs \<Longrightarrow> drop (length (filter P xs)) xs = filter (\<lambda>x. \<not> P x) xs"
  using drop_partition_point [of P xs] by (simp add: partition_point_length)

lemma leads_cut:
  assumes "leads P xs"
  shows "drop (length (filter P xs)) (take b xs) = filter (\<lambda>x. \<not> P x) (take b xs)"
proof -
  let ?a = "length (filter P xs)"
  define A R where "A = take ?a xs" and "R = drop ?a xs"
  have xs: "xs = A @ R" by (simp add: A_def R_def)
  have A: "\<forall>x\<in>set A. P x" and R: "\<forall>x\<in>set R. \<not> P x" and l: "?a = length A"
    using leads_take [OF assms] leads_drop [OF assms] by (auto simp: A_def R_def)
  have "filter (\<lambda>x. \<not> P x) (take b A) = []" using A by (auto simp: filter_empty_conv dest: in_set_takeD)
  moreover have "filter (\<lambda>x. \<not> P x) (take (b - length A) R) = take (b - length A) R"
    using R by (auto simp: filter_id_conv dest: in_set_takeD)
  ultimately show ?thesis unfolding l unfolding xs by (cases "length A \<le> b") simp_all
qed

text \<open>How many chunks start with an entry of the prefix, and what of them is in it.\<close>

lemma leads_chunks:
  assumes "leads P (concat cs)" "\<forall>k\<in>set cs. k \<noteq> []" "n = length (filter P (map hd cs))"
  shows "if n = 0 then filter P (concat cs) = []
     else n \<le> length cs \<and> filter P (concat cs) = concat (take (n - 1) cs) @ filter P (cs ! (n - 1))"
  using assms
proof (induction cs arbitrary: n)
  case (Cons k cs)
  obtain e es where k: "k = e # es" using Cons.prems(2) by (cases k) auto
  let ?m = "length (filter P (map hd cs))"
  have IH: "if ?m = 0 then filter P (concat cs) = []
     else ?m \<le> length cs \<and> filter P (concat cs) = concat (take (?m - 1) cs) @ filter P (cs ! (?m - 1))"
    by (rule Cons.IH) (use Cons.prems in \<open>auto simp: sorted_wrt_append\<close>)
  have heads: "hd c \<in> set (concat cs)" if "c \<in> set cs" for c
    using that Cons.prems(2) by (auto intro!: bexI [of _ c])
  show ?case
  proof (cases "P e")
    case False
    then have "\<forall>x\<in>set (es @ concat cs). \<not> P x" using Cons.prems(1) k by (auto simp: sorted_wrt_append)
    then have "filter P (concat (k # cs)) = []" "filter P (map hd (k # cs)) = []"
      using False k heads by (auto simp: filter_empty_conv)
    then show ?thesis using Cons.prems(3) by (simp del: concat.simps list.map)
  next
    case True
    then have n: "n = Suc ?m" using Cons.prems(3) k by simp
    show ?thesis
    proof (cases "?m = 0")
      case True
      then show ?thesis using IH n by simp
    next
      case False
      then obtain c where "c \<in> set cs" "P (hd c)" by (auto simp: filter_empty_conv)
      then have "\<forall>x\<in>set k. P x" using Cons.prems(1) heads by (fastforce simp: sorted_wrt_append)
      then have "filter P k = k" by (simp add: filter_id_conv)
      moreover obtain m where "?m = Suc m" using False by (cases ?m) auto
      ultimately show ?thesis using IH False n by simp
    qed
  qed
qed simp

text \<open>A place among the chunks, and the number of entries before it.\<close>

definition flat :: "'a list list \<Rightarrow> nat \<times> nat \<Rightarrow> nat" where
  "flat cs p = length (concat (take (fst p) cs)) + snd p"

definition place_ok :: "'a list list \<Rightarrow> nat \<times> nat \<Rightarrow> bool" where
  "place_ok cs p \<longleftrightarrow> (fst p < length cs \<and> snd p < length (cs ! fst p)) \<or> p = (length cs, 0)"

lemma length_concat_take_Suc:
  "k < length cs \<Longrightarrow> length (concat (take (Suc k) cs)) = length (concat (take k cs)) + length (cs ! k)"
  by (simp add: take_Suc_conv_app_nth)

lemma length_concat_take_mono: "i \<le> j \<Longrightarrow> length (concat (take i cs)) \<le> length (concat (take j cs))"
proof -
  assume "i \<le> j"
  then have "take j cs = take i cs @ take (j - i) (drop i cs)" using take_add [of i "j - i" cs] by simp
  then show ?thesis by simp
qed

lemma flat_below:
  assumes "place_ok cs p" "fst p < j" "j \<le> length cs"
  shows "flat cs p < length (concat (take j cs))"
proof -
  have "snd p < length (cs ! fst p)" "fst p < length cs" using assms by (auto simp: place_ok_def)
  then have "flat cs p < length (concat (take (Suc (fst p)) cs))"
    by (simp add: flat_def length_concat_take_Suc)
  with length_concat_take_mono [of "Suc (fst p)" j cs] assms(2) show ?thesis by simp
qed

lemma flat_above: "j \<le> fst p \<Longrightarrow> length (concat (take j cs)) \<le> flat cs p"
  using length_concat_take_mono [of j "fst p" cs] by (simp add: flat_def)

text \<open>The walk between two places is what lies between them.\<close>

lemma range_rest:
  assumes "place_ok cs e" "fst s < j" "j \<le> fst e"
  shows "range_loop cs s e [j ..< (if snd e = 0 then fst e else fst e + 1)]
     = Ok (drop (length (concat (take j cs))) (take (flat cs e) (concat cs)))"
  using assms(2,3)
proof (induction "fst e - j" arbitrary: j)
  case 0
  then have j: "j = fst e" by simp
  show ?case
  proof (cases "snd e = 0")
    case True
    then show ?thesis using j by (simp add: flat_def)
  next
    case False
    then have e: "fst e < length cs" "snd e < length (cs ! fst e)" using assms(1) by (auto simp: place_ok_def)
    have "concat cs = concat (take (fst e) cs) @ cs ! fst e @ concat (drop (Suc (fst e)) cs)"
      using id_take_nth_drop [OF e(1)] by (metis concat.simps(2) concat_append)
    then have "take (flat cs e) (concat cs) = concat (take (fst e) cs) @ take (snd e) (cs ! fst e)"
      using e(2) by (simp add: flat_def)
    with False e 0 j show ?thesis by (simp add: vec_get_def Let_def)
  qed
next
  case (Suc d)
  then have j: "j < fst e" "fst s < Suc j" "Suc j \<le> fst e" "d = fst e - Suc j" by auto
  have jl: "j < length cs" using j(1) assms(1) by (auto simp: place_ok_def)
  let ?l = "if snd e = 0 then fst e else fst e + 1"
  have up: "[j ..< ?l] = j # [Suc j ..< ?l]" using j(1) by (simp add: upt_conv_Cons)
  have IH: "range_loop cs s e [Suc j ..< ?l]
      = Ok (drop (length (concat (take (Suc j) cs))) (take (flat cs e) (concat cs)))"
    by (rule Suc.hyps(1) [OF j(4) j(2,3)])
  have fl: "length (concat (take (Suc j) cs)) \<le> flat cs e" by (rule flat_above [OF j(3)])
  have c: "concat cs = concat (take j cs) @ cs ! j @ concat (drop (Suc j) cs)"
    using id_take_nth_drop [OF jl] by (metis concat.simps(2) concat_append)
  have t: "take (flat cs e) (concat cs) = concat (take j cs) @ cs ! j
      @ take (flat cs e - length (concat (take (Suc j) cs))) (concat (drop (Suc j) cs))"
    using fl unfolding length_concat_take_Suc [OF jl] by (subst c) (simp add: take_append)
  have "length (concat (take (Suc j) cs)) = length (concat (take j cs)) + length (cs ! j)"
    by (rule length_concat_take_Suc [OF jl])
  then have "drop (length (concat (take j cs))) (take (flat cs e) (concat cs))
      = cs ! j @ drop (length (concat (take (Suc j) cs))) (take (flat cs e) (concat cs))"
    unfolding t by simp
  then show ?case unfolding up using IH jl j Suc.prems by (simp add: vec_get_def Let_def)
qed

lemma concat_at: "k < length cs \<Longrightarrow> concat cs = concat (take k cs) @ cs ! k @ concat (drop (Suc k) cs)"
  using id_take_nth_drop [of k cs] by (metis concat.simps(2) concat_append)

lemma range_between:
  assumes "place_ok cs s" "place_ok cs e"
  shows "range_loop cs s e [fst s ..< max (if snd e = 0 then fst e else fst e + 1) (fst s)]
     = Ok (drop (flat cs s) (take (flat cs e) (concat cs)))"
proof -
  let ?l = "if snd e = 0 then fst e else fst e + 1"
  consider "?l \<le> fst s" | "fst s < fst e" | "fst s = fst e" "0 < snd e" by (cases "fst s" "fst e" rule: linorder_cases; cases "snd e = 0") auto
  then show ?thesis
  proof cases
    case 1
    have "flat cs e \<le> flat cs s"
    proof (cases "fst e = fst s")
      case True
      then show ?thesis using 1 by (simp add: flat_def split: if_splits)
    next
      case False
      then have "fst e < fst s" "fst s \<le> length cs" using 1 assms(1) by (auto simp: place_ok_def split: if_splits)
      then show ?thesis using flat_below [OF assms(2)] flat_above [of "fst s" s cs] by (meson le_trans less_imp_le order_refl)
    qed
    then show ?thesis using 1 by (simp add: max_def)
  next
    case 2
    then have s: "fst s < length cs" "snd s < length (cs ! fst s)" using assms by (auto simp: place_ok_def)
    have up: "[fst s ..< max ?l (fst s)] = fst s # [Suc (fst s) ..< ?l]" using 2 by (simp add: upt_conv_Cons max_def)
    have fl: "length (concat (take (Suc (fst s)) cs)) \<le> flat cs e" using 2 by (intro flat_above) simp
    have t: "take (flat cs e) (concat cs) = concat (take (fst s) cs) @ cs ! fst s
        @ take (flat cs e - length (concat (take (Suc (fst s)) cs))) (concat (drop (Suc (fst s)) cs))"
      using fl unfolding length_concat_take_Suc [OF s(1)] by (subst concat_at [OF s(1)]) (simp add: take_append)
    have "drop (flat cs s) (take (flat cs e) (concat cs))
        = drop (snd s) (cs ! fst s) @ drop (length (concat (take (Suc (fst s)) cs))) (take (flat cs e) (concat cs))"
      unfolding t length_concat_take_Suc [OF s(1)] using s(2) by (simp add: flat_def)
    then show ?thesis
      unfolding up using range_rest [OF assms(2), of s "Suc (fst s)"] 2 s by (simp add: vec_get_def Let_def)
  next
    case 3
    then have e: "fst e < length cs" "snd e < length (cs ! fst e)" using assms(2) by (auto simp: place_ok_def)
    have "take (flat cs e) (concat cs) = concat (take (fst e) cs) @ take (snd e) (cs ! fst e)"
      using e(2) by (subst concat_at [OF e(1)]) (simp add: flat_def)
    then have "drop (flat cs s) (take (flat cs e) (concat cs)) = drop (snd s) (take (snd e) (cs ! fst e))"
      using 3 by (simp add: flat_def)
    moreover have "drop (min (snd s) (snd e)) (take (snd e) (cs ! fst e)) = drop (snd s) (take (snd e) (cs ! fst e))"
      by (cases "snd s \<le> snd e") (simp_all add: min_def)
    ultimately show ?thesis using 3 e by (simp add: vec_get_def Let_def max_def)
  qed
qed

lemma between_places:
  assumes "place_ok (ch_chunks c) a" "place_ok (ch_chunks c) b"
  shows "between a b c = Ok (flat (ch_chunks c) b - flat (ch_chunks c) a)"
proof -
  let ?cs = "ch_chunks c"
  consider "fst b < fst a" | "fst a = fst b" | "fst a < fst b" by linarith
  then show ?thesis
  proof cases
    case 1
    then have "flat ?cs b < length (concat (take (fst a) ?cs))"
      using assms by (intro flat_below) (auto simp: place_ok_def)
    with 1 flat_above [of "fst a" a ?cs] show ?thesis by (simp add: between_def)
  next
    case 2
    then show ?thesis by (auto simp: between_def flat_def)
  next
    case 3
    then have a: "fst a < length ?cs" "snd a < length (?cs ! fst a)" "fst b \<le> length ?cs"
      using assms by (auto simp: place_ok_def)
    have "take (fst b) ?cs = take (Suc (fst a)) ?cs @ take (fst b - Suc (fst a)) (drop (Suc (fst a)) ?cs)"
      using 3 by (metis Suc_leI le_add_diff_inverse take_add)
    then have "length (concat (take (fst b) ?cs)) = length (concat (take (fst a) ?cs)) + length (?cs ! fst a)
        + length (concat (take (fst b - Suc (fst a)) (drop (Suc (fst a)) ?cs)))"
      using length_concat_take_Suc [OF a(1)] by simp
    then show ?thesis
      using 3 a by (simp add: between_def vec_get_def get_range_def flat_def length_concat)
  qed
qed

section \<open>The contract of an entry's order\<close>

definition ascends :: "('a \<Rightarrow> 'a \<Rightarrow> ordering) \<Rightarrow> 'a list \<Rightarrow> bool" where
  "ascends ord xs \<longleftrightarrow> sorted_wrt (\<lambda>a b. ord a b = Less) xs"

definition ch_inv :: "('a \<Rightarrow> 'a \<Rightarrow> ordering) \<Rightarrow> 'a chunked \<Rightarrow> bool" where
  "ch_inv ord c \<longleftrightarrow> (\<forall>k\<in>set (ch_chunks c). k \<noteq> [] \<and> length k \<le> chunk_max)
     \<and> ch_firsts c = map hd (ch_chunks c) \<and> ch_len c = length (ch_iter c) \<and> ascends ord (ch_iter c)"

definition within :: "('a \<Rightarrow> 'a \<Rightarrow> ordering) \<Rightarrow> 'a bound \<Rightarrow> 'a bound \<Rightarrow> 'a \<Rightarrow> bool" where
  "within ord lo hi e \<longleftrightarrow>
     (case lo of Included x \<Rightarrow> ord e x \<noteq> Less | Excluded x \<Rightarrow> ord e x = Greater | Unbounded \<Rightarrow> True)
     \<and> (case hi of Included x \<Rightarrow> ord e x \<noteq> Greater | Excluded x \<Rightarrow> ord e x = Less | Unbounded \<Rightarrow> True)"

locale entry_order =
  fixes ord :: "'a \<Rightarrow> 'a \<Rightarrow> ordering"
  assumes ord_same: "ord a b = Equal \<longleftrightarrow> a = b"
    and ord_flip: "ord a b = Greater \<longleftrightarrow> ord b a = Less"
    and ord_trans: "ord a b = Less \<Longrightarrow> ord b c = Less \<Longrightarrow> ord a c = Less"
begin

lemma ord_self [simp]: "ord a a = Equal"
  by (simp add: ord_same)

lemma not_greater: "ord a b \<noteq> Greater \<longleftrightarrow> a = b \<or> ord a b = Less"
  using ord_same by (cases "ord a b") auto

lemma below_leads: "ascends ord xs \<Longrightarrow> leads (below ord x past) xs"
  unfolding ascends_def
proof (erule sorted_wrt_mono_rel [rotated], intro impI)
  fix a b assume "ord a b = Less" "below ord x past b"
  then show "below ord x past a"
    using ord_trans [of a b x] ord_same by (auto simp: below_def split: ordering.splits)
qed

lemma upto_leads: "ascends ord xs \<Longrightarrow> leads (\<lambda>f. ord f x \<noteq> Greater) xs"
proof -
  have "below ord x True = (\<lambda>f. ord f x \<noteq> Greater)" by (auto simp: below_def split: ordering.splits)
  then show "ascends ord xs \<Longrightarrow> leads (\<lambda>f. ord f x \<noteq> Greater) xs" using below_leads [of xs x True] by simp
qed

lemma ascends_firsts:
  "ascends ord (concat cs) \<Longrightarrow> \<forall>k\<in>set cs. k \<noteq> [] \<Longrightarrow> ascends ord (map hd cs)"
proof (induction cs)
  case (Cons k cs)
  have "hd c \<in> set (concat cs)" if "c \<in> set cs" for c using that Cons.prems(2) by (auto intro!: bexI [of _ c])
  then show ?case using Cons by (cases k) (auto simp: ascends_def sorted_wrt_append)
qed (simp add: ascends_def)

text \<open>Two sequences in order with the same entries are the same.\<close>

lemma ascends_unique: "ascends ord xs \<Longrightarrow> ascends ord ys \<Longrightarrow> set xs = set ys \<Longrightarrow> xs = ys"
proof (induction xs arbitrary: ys)
  case (Cons x xs)
  obtain y ys' where ys: "ys = y # ys'" using Cons.prems(3) by (cases ys) auto
  have asym: "ord a b = Less \<Longrightarrow> ord b a \<noteq> Less" for a b using ord_flip [of a b] by auto
  have "x = y"
  proof (rule ccontr)
    assume "x \<noteq> y"
    then have "x \<in> set ys'" "y \<in> set xs" using Cons.prems(3) ys by auto
    with Cons.prems ys asym show False by (auto simp: ascends_def)
  qed
  moreover have "x \<notin> set xs" "y \<notin> set ys'" using Cons.prems(1,2) ys by (auto simp: ascends_def)
  ultimately have "set xs = set ys'" using Cons.prems(3) ys by auto
  with Cons.IH [of ys'] Cons.prems ys \<open>x = y\<close> show ?case by (simp add: ascends_def)
qed simp

section \<open>Searches\<close>

lemma seek_place:
  assumes "ch_inv ord c"
  shows "\<exists>p. seek ord x past c = Ok p \<and> place_ok (ch_chunks c) p
     \<and> flat (ch_chunks c) p = length (filter (below ord x past) (ch_iter c))"
proof -
  define P where "P = below ord x past"
  define cs where "cs = ch_chunks c"
  have i: "\<forall>k\<in>set cs. k \<noteq> []" "ch_firsts c = map hd cs" "ascends ord (concat cs)"
    using assms by (auto simp: ch_inv_def ch_iter_def cs_def)
  have it: "ch_iter c = concat cs" by (simp add: ch_iter_def cs_def)
  define n where "n = length (filter P (map hd cs))"
  have pp: "partition_point P (ch_firsts c) = n"
    unfolding i(2) n_def P_def by (rule partition_point_length [OF below_leads [OF ascends_firsts [OF i(3,1)]]])
  have L: "if n = 0 then filter P (concat cs) = []
     else n \<le> length cs \<and> filter P (concat cs) = concat (take (n - 1) cs) @ filter P (cs ! (n - 1))"
    unfolding P_def by (rule leads_chunks [OF below_leads [OF i(3)] i(1) n_def [unfolded P_def]])
  show ?thesis
  proof (cases n)
    case 0
    then have "filter P (concat cs) = []" using L by simp
    moreover have "place_ok cs (0, 0)" using i(1) by (cases cs) (auto simp: place_ok_def)
    ultimately show ?thesis using 0 pp by (simp add: seek_def flat_def P_def it cs_def [symmetric])
  next
    case (Suc m)
    define k where "k = cs ! m"
    have m: "m < length cs" and fl: "filter P (concat cs) = concat (take m cs) @ filter P k"
      using L Suc by (auto simp: k_def)
    have "ascends ord k" using i(3) unfolding concat_at [OF m] k_def by (simp add: ascends_def sorted_wrt_append)
    then have at: "partition_point P k = length (filter P k)"
      unfolding P_def by (intro partition_point_length below_leads)
    have sk: "seek ord x past c = Ok (if length (filter P k) = length k then (Suc m, 0) else (m, length (filter P k)))"
      using pp m by (simp add: seek_def P_def [symmetric] Suc vec_get_def cs_def [symmetric] k_def [symmetric] at Let_def)
    show ?thesis
    proof (cases "length (filter P k) = length k")
      case True
      have "place_ok cs (Suc m, 0)" using m i(1) by (cases "Suc m < length cs") (auto simp: place_ok_def)
      moreover have "flat cs (Suc m, 0) = length (filter P (concat cs))"
        using length_concat_take_Suc [OF m] True by (simp add: flat_def fl k_def)
      ultimately show ?thesis using sk True unfolding it cs_def [symmetric] P_def [symmetric] by simp
    next
      case False
      then have "length (filter P k) < length k" using length_filter_le [of P k] by linarith
      then have "place_ok cs (m, length (filter P k))" using m by (simp add: place_ok_def k_def)
      then show ?thesis using sk False fl unfolding it cs_def [symmetric] P_def [symmetric] by (simp add: flat_def)
    qed
  qed
qed

lemma range_start_place:
  assumes "ch_inv ord c"
  shows "\<exists>p B. range_start ord lo c = Ok p \<and> place_ok (ch_chunks c) p \<and> flat (ch_chunks c) p = length (filter B (ch_iter c))
     \<and> leads B (ch_iter c) \<and> (\<forall>e. \<not> B e \<longleftrightarrow> within ord lo Unbounded e)"
proof -
  have l: "leads (below ord x past) (ch_iter c)" for x past
    using assms by (intro below_leads) (simp add: ch_inv_def)
  have z: "place_ok (ch_chunks c) (0, 0)" using assms by (cases "ch_chunks c") (auto simp: place_ok_def ch_inv_def)
  show ?thesis
  proof (cases lo)
    case (Included x)
    have "\<not> below ord x False e \<longleftrightarrow> within ord lo Unbounded e" for e
      by (auto simp: below_def within_def Included split: ordering.splits)
    with seek_place [OF assms, of x False] l [of x False] show ?thesis by (auto simp: range_start_def Included)
  next
    case (Excluded x)
    have "\<not> below ord x True e \<longleftrightarrow> within ord lo Unbounded e" for e
      by (auto simp: below_def within_def Excluded split: ordering.splits)
    with seek_place [OF assms, of x True] l [of x True] show ?thesis by (auto simp: range_start_def Excluded)
  next
    case Unbounded
    with z show ?thesis
      by (intro exI [of _ "(0, 0)"] exI [of _ "\<lambda>_. False"])
        (auto simp: range_start_def flat_def within_def intro: sorted_wrt_mono_rel [OF _ l])
  qed
qed

lemma range_end_place:
  assumes "ch_inv ord c"
  shows "\<exists>p B. range_end ord hi c = Ok p \<and> place_ok (ch_chunks c) p \<and> flat (ch_chunks c) p = length (filter B (ch_iter c))
     \<and> leads B (ch_iter c) \<and> (\<forall>e. B e \<longleftrightarrow> within ord Unbounded hi e)"
proof -
  have l: "leads (below ord x past) (ch_iter c)" for x past
    using assms by (intro below_leads) (simp add: ch_inv_def)
  show ?thesis
  proof (cases hi)
    case (Included x)
    have w: "\<forall>e. below ord x True e \<longleftrightarrow> within ord Unbounded hi e"
      by (auto simp: below_def within_def Included split: ordering.splits)
    obtain p where "seek ord x True c = Ok p" "place_ok (ch_chunks c) p"
      "flat (ch_chunks c) p = length (filter (below ord x True) (ch_iter c))"
      using seek_place [OF assms] by blast
    with w l show ?thesis unfolding range_end_def Included bound.case by blast
  next
    case (Excluded x)
    have w: "\<forall>e. below ord x False e \<longleftrightarrow> within ord Unbounded hi e"
      by (auto simp: below_def within_def Excluded split: ordering.splits)
    obtain p where "seek ord x False c = Ok p" "place_ok (ch_chunks c) p"
      "flat (ch_chunks c) p = length (filter (below ord x False) (ch_iter c))"
      using seek_place [OF assms] by blast
    with w l show ?thesis unfolding range_end_def Excluded bound.case by blast
  next
    case Unbounded
    then show ?thesis
      by (intro exI [of _ "(length (ch_chunks c), 0)"] exI [of _ "\<lambda>_. True"])
        (auto simp: range_end_def flat_def within_def ch_iter_def place_ok_def intro: sorted_wrt_mono_rel [OF _ l])
  qed
qed

lemma within_both: "within ord lo hi e \<longleftrightarrow> within ord lo Unbounded e \<and> within ord Unbounded hi e"
  by (simp add: within_def)

lemma range_is_filter:
  assumes "ch_inv ord c"
  shows "ch_range ord lo hi c = Ok (filter (within ord lo hi) (ch_iter c))"
proof -
  obtain s A where s: "range_start ord lo c = Ok s" "place_ok (ch_chunks c) s" "flat (ch_chunks c) s = length (filter A (ch_iter c))"
    "leads A (ch_iter c)" "\<forall>e. \<not> A e \<longleftrightarrow> within ord lo Unbounded e"
    using range_start_place [OF assms] by metis
  obtain e B where e: "range_end ord hi c = Ok e" "place_ok (ch_chunks c) e" "flat (ch_chunks c) e = length (filter B (ch_iter c))"
    "leads B (ch_iter c)" "\<forall>x. B x \<longleftrightarrow> within ord Unbounded hi x"
    using range_end_place [OF assms] by metis
  have "ch_range ord lo hi c = Ok (drop (length (filter A (ch_iter c))) (take (length (filter B (ch_iter c))) (ch_iter c)))"
    using range_between [OF s(2) e(2)] by (simp add: ch_range_def s(1,3) e(1,3) Let_def ch_iter_def)
  also have "\<dots> = Ok (filter (\<lambda>x. \<not> A x) (take (length (filter B (ch_iter c))) (ch_iter c)))"
    unfolding leads_cut [OF s(4)] ..
  also have "\<dots> = Ok (filter (\<lambda>x. \<not> A x) (filter B (ch_iter c)))"
    unfolding leads_take [OF e(4)] ..
  also have "\<dots> = Ok (filter (within ord lo hi) (ch_iter c))"
    using s(5) e(5) within_both [of lo hi] by (auto intro!: filter_cong)
  finally show ?thesis .
qed

lemma count_is_length:
  assumes "ch_inv ord c"
  shows "ch_count_within ord lo hi c = Ok (length (filter (within ord lo hi) (ch_iter c)))"
    and "ch_count ord x y c = Ok (length (filter (within ord (Included x) (Excluded y)) (ch_iter c)))"
proof -
  have cw: "ch_count_within ord lo hi c = Ok (length (filter (within ord lo hi) (ch_iter c)))" for lo hi
  proof -
    obtain s where s: "range_start ord lo c = Ok s" "place_ok (ch_chunks c) s" using range_start_place [OF assms] by metis
    obtain e B where e: "range_end ord hi c = Ok e" "place_ok (ch_chunks c) e" "flat (ch_chunks c) e = length (filter B (ch_iter c))"
      using range_end_place [OF assms] by metis
    have "ch_range ord lo hi c = Ok (drop (flat (ch_chunks c) s) (take (flat (ch_chunks c) e) (ch_iter c)))"
      using range_between [OF s(2) e(2)] by (simp add: ch_range_def s(1) e(1) Let_def ch_iter_def)
    then have "filter (within ord lo hi) (ch_iter c) = drop (flat (ch_chunks c) s) (take (flat (ch_chunks c) e) (ch_iter c))"
      using range_is_filter [OF assms, of lo hi] by simp
    moreover have "flat (ch_chunks c) e \<le> length (ch_iter c)" by (simp add: e(3))
    ultimately show ?thesis
      using between_places [OF s(2) e(2)] by (simp add: ch_count_within_def s(1) e(1))
  qed
  show "ch_count_within ord lo hi c = Ok (length (filter (within ord lo hi) (ch_iter c)))" by (rule cw)
  have "ch_count ord x y c = ch_count_within ord (Included x) (Excluded y) c"
    by (simp add: ch_count_def ch_count_within_def range_start_def range_end_def)
  then show "ch_count ord x y c = Ok (length (filter (within ord (Included x) (Excluded y)) (ch_iter c)))"
    by (simp add: cw)
qed

end

section \<open>Writes\<close>

lemma vec_simps [simp]:
  "vec_get (as @ x # bs) (length as) = Ok x"
  "vec_set (length as) y (as @ x # bs) = Ok (as @ y # bs)"
  "vec_remove (length as) (as @ x # bs) = Ok (as @ bs)"
  "vec_insert (Suc (length as)) y (as @ x # bs) = Ok (as @ x # y # bs)"
  "(as @ x # bs)[length as := y] = as @ y # bs"
  by (simp_all add: vec_get_def vec_set_def vec_remove_def vec_insert_def nth_append list_update_append)

lemma cut_chunks_concat: "concat (cut_chunks xs) = xs \<and> (\<forall>k\<in>set (cut_chunks xs). k \<noteq> [] \<and> length k \<le> chunk_max)"
proof (induction xs rule: cut_chunks.induct)
  case (1 xs)
  show ?case
  proof (cases "xs = []")
    case False
    then have "take (chunk_max div 2) xs \<noteq> []" by (simp add: chunk_max_def)
    then show ?thesis using 1 by (subst (1 2) cut_chunks.simps) (auto simp: Let_def chunk_max_def min_def)
  qed (simp add: cut_chunks.simps)
qed

context entry_order
begin

lemma new_inv: "ch_inv ord ch_new"
  by (simp add: ch_inv_def ch_new_def ch_iter_def ascends_def)

lemma from_sorted_inv: "ascends ord v \<Longrightarrow> ch_inv ord (ch_from_sorted v) \<and> ch_iter (ch_from_sorted v) = v"
  using cut_chunks_concat [of v] by (simp add: ch_inv_def ch_from_sorted_def ch_iter_def Let_def)

text \<open>The chunk an entry belongs in: everything before it is below the entry, everything after above.\<close>

lemma chunk_for_parts:
  assumes "ch_inv ord c" "ch_chunks c \<noteq> []"
  obtains as k bs where "ch_chunks c = as @ k # bs" "chunk_for ord x c = length as"
    "\<forall>e\<in>set (concat as). ord e x = Less" "\<forall>e\<in>set (concat bs). ord e x = Greater"
proof -
  define cs where "cs = ch_chunks c"
  define P where "P = (\<lambda>f. ord f x \<noteq> Greater)"
  have i: "\<forall>k\<in>set cs. k \<noteq> []" "ch_firsts c = map hd cs" "ascends ord (concat cs)"
    using assms by (auto simp: ch_inv_def ch_iter_def cs_def)
  define n where "n = length (filter P (map hd cs))"
  have pp: "chunk_for ord x c = n - 1"
    unfolding chunk_for_def i(2) n_def P_def
    by (simp only: partition_point_length [OF upto_leads [OF ascends_firsts [OF i(3,1)]]])
  have L: "if n = 0 then filter P (concat cs) = []
     else n \<le> length cs \<and> filter P (concat cs) = concat (take (n - 1) cs) @ filter P (cs ! (n - 1))"
    unfolding P_def by (rule leads_chunks [OF upto_leads [OF i(3)] i(1) n_def [unfolded P_def]])
  define as k bs where "as = take (n - 1) cs" and "k = cs ! (n - 1)" and "bs = drop (Suc (n - 1)) cs"
  have nl: "n - 1 < length cs" using L assms(2) by (cases "n = 0") (auto simp: cs_def)
  have cs: "cs = as @ k # bs" "length as = n - 1"
    using id_take_nth_drop [OF nl] nl by (simp_all add: as_def k_def bs_def)
  have as: "ord e x = Less" if "e \<in> set (concat as)" for e
  proof -
    have n0: "n \<noteq> 0" using that cs(2) by (cases as) auto
    then have fl: "filter P (concat cs) = concat as @ filter P k" using L by (simp add: as_def k_def)
    have "k \<noteq> []" using i(1) cs(1) by simp
    then have "ord e (hd k) = Less" using i(3) that unfolding cs(1) by (cases k) (auto simp: ascends_def sorted_wrt_append)
    moreover have "P (hd k)"
    proof -
      have "filter P (map hd cs) = take n (map hd cs)"
        using leads_take [OF upto_leads [OF ascends_firsts [OF i(3,1)], of x]] by (simp add: n_def P_def)
      moreover have "n - 1 < n" using n0 by simp
      ultimately have "hd (cs ! (n - 1)) \<in> set (filter P (map hd cs))"
        using nl by (metis length_map length_take min_less_iff_conj nth_map nth_mem nth_take)
      then show ?thesis by (simp add: k_def)
    qed
    ultimately show ?thesis using not_greater [of "hd k" x] ord_trans by (auto simp: P_def)
  qed
  have bs: "ord e x = Greater" if "e \<in> set (concat bs)" for e
  proof -
    have "filter P (concat bs) = []"
    proof (cases "n = 0")
      case True
      then show ?thesis using L by (auto simp: cs(1))
    next
      case False
      then have "filter P (concat cs) = concat as @ filter P k" using L by (simp add: as_def k_def)
      then have "filter P (concat as) @ filter P k @ filter P (concat bs) = concat as @ filter P k"
        unfolding cs(1) by simp
      moreover have "filter P (concat as) = concat as" using as by (auto simp: filter_id_conv P_def)
      ultimately show ?thesis by simp
    qed
    then show ?thesis using that by (auto simp: filter_empty_conv P_def)
  qed
  show thesis using that [of as k bs] cs pp as bs by (simp add: cs_def)
qed

lemma chunk_search:
  assumes "ascends ord k"
  shows "search_sorted (\<lambda>e. ord e x) k"
  unfolding search_sorted_def sorted_wrt_map
proof (rule sorted_wrt_mono_rel [OF _ assms [unfolded ascends_def]])
  fix a b assume "ord a b = Less"
  then show "rank (ord a x) \<le> rank (ord b x)"
    using ord_trans [of a b x] ord_same [of a x] ord_same [of b x] ord_flip [of b x] ord_flip [of a b] ord_trans [of x a b] ord_flip [of a x]
    by (cases "ord a x"; cases "ord b x") auto
qed

lemma chunk_search_found: "ascends ord k \<Longrightarrow> binary_search_by (\<lambda>e. ord e x) k = Inl pos \<Longrightarrow> pos < length k \<and> k ! pos = x"
  using binary_search_by_found [OF chunk_search] ord_same by blast

lemma chunk_search_place:
  assumes "ascends ord k" "binary_search_by (\<lambda>e. ord e x) k = Inr pos"
  shows "pos \<le> length k" "\<forall>e\<in>set (take pos k). ord e x = Less" "\<forall>e\<in>set (drop pos k). ord e x = Greater"
  using binary_search_by_place [OF chunk_search [OF assms(1)] assms(2)]
  by (auto simp: in_set_conv_nth)

lemma ascends_around:
  assumes "ascends ord (a @ b)" "\<forall>e\<in>set a. ord e x = Less" "\<forall>e\<in>set b. ord e x = Greater"
  shows "ascends ord (a @ x # b)" "x \<notin> set (a @ b)"
  using assms ord_flip by (auto simp: ascends_def sorted_wrt_append)

end

text \<open>One chunk replaced by another, or by two, of the same entries and one more.\<close>

lemma put_chunk:
  assumes "ch_chunks c = as @ k # bs" "ch_firsts c = map hd (ch_chunks c)" "k \<noteq> []" "p \<le> length k"
  shows "and_then (if p = 0 then vec_set (length as) x (ch_firsts c) else Ok (ch_firsts c)) (\<lambda>fs.
       and_then (vec_get (ch_chunks c) (length as)) (\<lambda>chunk.
       and_then (vec_insert p x chunk) (\<lambda>chunk.
         Ok (c\<lparr>ch_chunks := (ch_chunks c)[length as := chunk], ch_firsts := fs, ch_len := ch_len c + 1\<rparr>, True))))
     = Ok (c\<lparr>ch_chunks := as @ (take p k @ x # drop p k) # bs,
             ch_firsts := map hd (as @ (take p k @ x # drop p k) # bs), ch_len := ch_len c + 1\<rparr>, True)"
proof (cases "p = 0")
  case True
  have f: "ch_firsts c = map hd as @ hd k # map hd bs" using assms(1,2) by simp
  have "vec_set (length as) x (ch_firsts c) = Ok (map hd as @ x # map hd bs)"
    unfolding f using vec_simps(2) [of "map hd as" x "hd k" "map hd bs"] by simp
  with True show ?thesis by (simp add: assms(1) vec_insert_def)
next
  case False
  then have "hd (take p k @ x # drop p k) = hd k" using assms(3) by (cases k) (auto simp: take_Cons split: nat.splits)
  with False assms show ?thesis by (simp add: vec_insert_def)
qed

context entry_order
begin

lemma insert_at_chunk:
  assumes inv: "ch_inv ord c" and cs: "ch_chunks c = as @ k # bs"
    and as: "\<forall>e\<in>set (concat as). ord e x = Less" and bs: "\<forall>e\<in>set (concat bs). ord e x = Greater"
    and p: "binary_search_by (\<lambda>e. ord e x) k = Inr pos"
  shows "\<exists>c'. and_then (split_chunk (length as) pos k c) (\<lambda>(c, ci, pos).
       and_then (if pos = 0 then vec_set ci x (ch_firsts c) else Ok (ch_firsts c)) (\<lambda>fs.
       and_then (vec_get (ch_chunks c) ci) (\<lambda>chunk.
       and_then (vec_insert pos x chunk) (\<lambda>chunk.
         Ok (c\<lparr>ch_chunks := (ch_chunks c)[ci := chunk], ch_firsts := fs, ch_len := ch_len c + 1\<rparr>, True)))))
     = Ok (c', True) \<and> ch_inv ord c' \<and> set (ch_iter c') = insert x (set (ch_iter c)) \<and> x \<notin> set (ch_iter c)"
proof -
  have i: "\<forall>k\<in>set (as @ k # bs). k \<noteq> [] \<and> length k \<le> chunk_max" "ch_firsts c = map hd (ch_chunks c)"
    "ch_len c = length (ch_iter c)" "ascends ord (ch_iter c)" "ch_iter c = concat as @ k @ concat bs"
    using inv by (auto simp: ch_inv_def cs ch_iter_def)
  have "ascends ord k" using i(4,5) by (simp add: ascends_def sorted_wrt_append)
  note s = chunk_search_place [OF this p]
  let ?new = "concat as @ take pos k @ x # drop pos k @ concat bs"
  have sp: "ch_iter c = (concat as @ take pos k) @ drop pos k @ concat bs" by (simp add: i(5))
  have lo: "\<forall>e\<in>set (concat as @ take pos k). ord e x = Less" using as s(2) by auto
  have hi: "\<forall>e\<in>set (drop pos k @ concat bs). ord e x = Greater" using bs s(3) by auto
  have new: "ascends ord ?new" "x \<notin> set (ch_iter c)"
    using ascends_around [OF i(4) [unfolded sp] lo hi] unfolding sp by simp_all
  have st: "set ?new = insert x (set (ch_iter c))" unfolding sp by auto
  have fin: "ch_inv ord c' \<and> set (ch_iter c') = insert x (set (ch_iter c)) \<and> x \<notin> set (ch_iter c)"
    if "concat (ch_chunks c') = ?new" "ch_firsts c' = map hd (ch_chunks c')" "ch_len c' = ch_len c + 1"
      "\<forall>k\<in>set (ch_chunks c'). k \<noteq> [] \<and> length k \<le> chunk_max" for c'
  proof -
    have "length ?new = length (ch_iter c) + 1" unfolding sp using s(1) by simp
    then show ?thesis using that new st i(3) by (simp add: ch_inv_def ch_iter_def)
  qed
  show ?thesis
  proof (cases "length k < chunk_max")
    case True
    let ?c' = "c\<lparr>ch_chunks := as @ (take pos k @ x # drop pos k) # bs,
             ch_firsts := map hd (as @ (take pos k @ x # drop pos k) # bs), ch_len := ch_len c + 1\<rparr>"
    have "ch_inv ord ?c' \<and> set (ch_iter ?c') = insert x (set (ch_iter c)) \<and> x \<notin> set (ch_iter c)"
      by (rule fin) (use True i(1) s(1) in auto)
    moreover note put_chunk [OF cs i(2) _ s(1), of x]
    ultimately show ?thesis using True i(1) by (simp add: split_chunk_def)
  next
    case False
    then have lk: "length k = 256" using i(1) by (simp add: chunk_max_def)
    define k1 k2 where "k1 = take 128 k" and "k2 = drop 128 k"
    have k: "k = k1 @ k2" "length k1 = 128" "length k2 = 128" using lk by (auto simp: k1_def k2_def)
    define c1 where "c1 = c\<lparr>ch_chunks := as @ k1 # k2 # bs, ch_firsts := map hd (as @ k1 # k2 # bs)\<rparr>"
    have ne: "k1 \<noteq> []" "k2 \<noteq> []" using k(2,3) by auto
    have f: "ch_firsts c = map hd as @ hd k1 # map hd bs" using i(2) ne by (simp add: cs k(1))
    have "vec_insert (Suc (length as)) (hd k2) (ch_firsts c) = Ok (map hd (as @ k1 # k2 # bs))"
      unfolding f using vec_simps(4) [of "map hd as" "hd k2" "hd k1" "map hd bs"] by simp
    then have sc: "split_chunk (length as) pos k c
        = Ok (c1, if pos \<le> 128 then (length as, pos) else (Suc (length as), pos - 128))"
      using lk ne k2_def k1_def
      by (simp add: split_chunk_def chunk_max_def cs Let_def c1_def vec_get_def hd_conv_nth [symmetric])
    show ?thesis
    proof (cases "pos \<le> 128")
      case True
      let ?c' = "c1\<lparr>ch_chunks := as @ (take pos k1 @ x # drop pos k1) # k2 # bs,
             ch_firsts := map hd (as @ (take pos k1 @ x # drop pos k1) # k2 # bs), ch_len := ch_len c1 + 1\<rparr>"
      have "ch_inv ord ?c' \<and> set (ch_iter ?c') = insert x (set (ch_iter c)) \<and> x \<notin> set (ch_iter c)"
        by (rule fin) (use True i(1) ne k in \<open>auto simp: c1_def chunk_max_def\<close>)
      moreover have "ch_chunks c1 = as @ k1 # (k2 # bs)" "ch_firsts c1 = map hd (ch_chunks c1)" by (simp_all add: c1_def)
      note put_chunk [OF this ne(1), of pos x]
      ultimately show ?thesis using True k(2) by (simp add: sc)
    next
      case False
      let ?q = "pos - 128"
      let ?c' = "c1\<lparr>ch_chunks := (as @ [k1]) @ (take ?q k2 @ x # drop ?q k2) # bs,
             ch_firsts := map hd ((as @ [k1]) @ (take ?q k2 @ x # drop ?q k2) # bs), ch_len := ch_len c1 + 1\<rparr>"
      have q: "?q \<le> length k2" "take pos k = k1 @ take ?q k2" "drop pos k = drop ?q k2"
        using False s(1) k by auto
      have "ch_inv ord ?c' \<and> set (ch_iter ?c') = insert x (set (ch_iter c)) \<and> x \<notin> set (ch_iter c)"
        by (rule fin) (use False i(1) ne k q in \<open>auto simp: c1_def chunk_max_def\<close>)
      moreover have "ch_chunks c1 = (as @ [k1]) @ k2 # bs" "ch_firsts c1 = map hd (ch_chunks c1)" by (simp_all add: c1_def)
      note put_chunk [OF this ne(2) q(1), of x]
      ultimately show ?thesis using False by (simp add: sc)
    qed
  qed
qed

lemma push_last_spec:
  assumes inv: "ch_inv ord c" and "past_last ord x c = Ok True"
  shows "ch_inv ord (push_last x c) \<and> ch_iter (push_last x c) = ch_iter c @ [x] \<and> x \<notin> set (ch_iter c)"
proof -
  have i: "\<forall>k\<in>set (ch_chunks c). k \<noteq> [] \<and> length k \<le> chunk_max" "ch_firsts c = map hd (ch_chunks c)"
    "ch_len c = length (ch_iter c)" "ascends ord (ch_iter c)"
    using inv by (auto simp: ch_inv_def)
  have lt: "\<forall>e\<in>set (ch_iter c). ord e x = Less"
  proof (cases "ch_chunks c = []")
    case False
    then obtain ks k where ck: "ch_chunks c = ks @ [k]" by (metis rev_exhaust)
    then obtain es e where k: "k = es @ [e]" using i(1) by (metis in_set_conv_decomp rev_exhaust)
    have "ord e x = Less" using assms(2) ck k by (auto simp: past_last_def)
    moreover have "ord a e = Less \<or> a = e" if "a \<in> set (ch_iter c)" for a
      using i(4) that ck k by (auto simp: ch_iter_def ascends_def sorted_wrt_append)
    ultimately show ?thesis using ord_trans by blast
  qed (simp add: ch_iter_def)
  have it: "ch_iter (push_last x c) = ch_iter c @ [x]"
    by (cases "ch_chunks c" rule: rev_cases) (auto simp: push_last_def ch_iter_def)
  have "ascends ord (ch_iter c @ [x])" using i(4) lt by (simp add: ascends_def sorted_wrt_append)
  moreover have "x \<notin> set (ch_iter c)" using lt by fastforce
  moreover have "(\<forall>k\<in>set (ch_chunks (push_last x c)). k \<noteq> [] \<and> length k \<le> chunk_max)
      \<and> ch_firsts (push_last x c) = map hd (ch_chunks (push_last x c))"
    using i(1,2) by (cases "ch_chunks c" rule: rev_cases) (auto simp: push_last_def chunk_max_def)
  moreover have "ch_len (push_last x c) = ch_len c + 1" by (simp add: push_last_def)
  ultimately show ?thesis using it i(3) by (simp add: ch_inv_def)
qed

lemma insert_spec:
  assumes "ch_inv ord c"
  shows "\<exists>c'. ch_insert ord x c = Ok (c', x \<notin> set (ch_iter c)) \<and> ch_inv ord c'
     \<and> set (ch_iter c') = insert x (set (ch_iter c))"
proof -
  have "last (ch_chunks c) \<noteq> []" if "ch_chunks c \<noteq> []" using assms that by (auto simp: ch_inv_def)
  then obtain past where past: "past_last ord x c = Ok past" by (cases "ch_chunks c = []") (auto simp: past_last_def)
  show ?thesis
  proof (cases past)
    case True
    with push_last_spec [OF assms, of x] past show ?thesis by (auto simp: ch_insert_def)
  next
    case False
    then have ne: "ch_chunks c \<noteq> []" using past by (auto simp: past_last_def)
    obtain as k bs where p: "ch_chunks c = as @ k # bs" "chunk_for ord x c = length as"
      "\<forall>e\<in>set (concat as). ord e x = Less" "\<forall>e\<in>set (concat bs). ord e x = Greater"
      by (rule chunk_for_parts [OF assms ne])
    have k: "ascends ord k" using assms by (auto simp: ch_inv_def ch_iter_def p(1) ascends_def sorted_wrt_append)
    show ?thesis
    proof (cases "binary_search_by (\<lambda>e. ord e x) k")
      case (Inl pos)
      then have "x \<in> set k" using chunk_search_found [OF k] by (metis nth_mem)
      then have "x \<in> set (ch_iter c)" by (simp add: ch_iter_def p(1))
      with Inl past False p(1,2) assms show ?thesis by (auto simp: ch_insert_def insert_absorb)
    next
      case (Inr pos)
      from insert_at_chunk [OF assms p(1,3,4) Inr] obtain c' where
        "ch_insert ord x c = Ok (c', True)" "ch_inv ord c'" "set (ch_iter c') = insert x (set (ch_iter c))"
        "x \<notin> set (ch_iter c)"
        using Inr past False p(1,2) by (auto simp: ch_insert_def)
      then show ?thesis by simp
    qed
  qed
qed

lemma remove_spec:
  assumes inv: "ch_inv ord c"
  shows "\<exists>c'. ch_remove ord x c = Ok (c', x \<in> set (ch_iter c)) \<and> ch_inv ord c'
     \<and> set (ch_iter c') = set (ch_iter c) - {x}"
proof (cases "ch_chunks c = []")
  case True
  with inv show ?thesis by (simp add: ch_remove_def ch_iter_def)
next
  case False
  obtain as k bs where p: "ch_chunks c = as @ k # bs" "chunk_for ord x c = length as"
    "\<forall>e\<in>set (concat as). ord e x = Less" "\<forall>e\<in>set (concat bs). ord e x = Greater"
    by (rule chunk_for_parts [OF inv False])
  have i: "\<forall>k\<in>set (as @ k # bs). k \<noteq> [] \<and> length k \<le> chunk_max" "ch_firsts c = map hd (ch_chunks c)"
    "ch_len c = length (ch_iter c)" "ascends ord (concat as @ k @ concat bs)" "ch_iter c = concat as @ k @ concat bs"
    using inv by (auto simp: ch_inv_def p(1) ch_iter_def)
  have k: "ascends ord k" using i(4) by (simp add: ascends_def sorted_wrt_append)
  have out: "x \<notin> set (concat as)" "x \<notin> set (concat bs)" using p(3,4) by fastforce+
  show ?thesis
  proof (cases "binary_search_by (\<lambda>e. ord e x) k")
    case (Inr pos)
    then have "x \<notin> set k" using chunk_search_place [OF k Inr] append_take_drop_id [of pos k]
      by (metis Un_iff ord_self ordering.distinct(1,5) set_append)
    then have "x \<notin> set (ch_iter c)" using out by (simp add: i(5))
    with Inr p(1,2) False inv show ?thesis by (simp add: ch_remove_def)
  next
    case (Inl pos)
    note f = chunk_search_found [OF k Inl]
    define k' where "k' = take pos k @ drop (Suc pos) k"
    have kk: "k = take pos k @ x # drop (Suc pos) k" using f id_take_nth_drop by metis
    have "ascends ord (take pos k @ x # drop (Suc pos) k)" using k kk by simp
    then have nx: "x \<notin> set k'" by (auto simp: k'_def ascends_def sorted_wrt_append)
    have sk: "set k = insert x (set k')" using arg_cong [OF kk, of set] by (auto simp: k'_def)
    have lk: "length k = Suc (length k')" using arg_cong [OF kk, of length] by (simp add: k'_def)
    have "ascends ord (concat as @ (take pos k @ x # drop (Suc pos) k) @ concat bs)" using i(4) kk by simp
    then have asc: "ascends ord (concat as @ k' @ concat bs)" by (simp add: k'_def ascends_def sorted_wrt_append)
    have hk: "hd k' = hd k" if "pos \<noteq> 0" using that f by (cases k) (auto simp: k'_def take_Cons split: nat.splits)
    have set': "set (concat as @ k' @ concat bs) = set (ch_iter c) - {x}" "x \<in> set (ch_iter c)"
      using out nx by (auto simp: i(5) sk)
    have vr: "vec_remove pos k = Ok k'" using f by (simp add: vec_remove_def k'_def)
    have fs: "ch_firsts c = map hd as @ hd k # map hd bs" using i(2) by (simp add: p(1))
    show ?thesis
    proof (cases "k' = []")
      case True
      have "vec_remove (length as) (ch_firsts c) = Ok (map hd (as @ bs))"
        unfolding fs using vec_simps(3) [of "map hd as" "hd k" "map hd bs"] by simp
      then have "ch_remove ord x c = Ok (c\<lparr>ch_chunks := as @ bs, ch_firsts := map hd (as @ bs), ch_len := ch_len c - 1\<rparr>, True)"
        using Inl p(1,2) False vr True by (simp add: ch_remove_def)
      moreover have "ch_len c - 1 = length (concat (as @ bs))" using i(3) lk True by (simp add: i(5))
      ultimately show ?thesis using set' asc True i(1) by (simp add: ch_inv_def ch_iter_def)
    next
      case ne: False
      have "(if pos = 0 then vec_set (length as) (hd k') (ch_firsts c) else Ok (ch_firsts c)) = Ok (map hd (as @ k' # bs))"
        unfolding fs using hk vec_simps(2) [of "map hd as" "hd k'" "hd k" "map hd bs"] by simp
      then have "ch_remove ord x c = Ok (c\<lparr>ch_chunks := as @ k' # bs, ch_firsts := map hd (as @ k' # bs), ch_len := ch_len c - 1\<rparr>, True)"
        using Inl p(1,2) False vr ne by (simp add: ch_remove_def)
      moreover have "ch_len c - 1 = length (concat (as @ k' # bs))" using i(3) lk by (simp add: i(5))
      ultimately show ?thesis using set' asc ne i(1) lk by (simp add: ch_inv_def ch_iter_def Un_left_commute)
    qed
  qed
qed

text \<open>A sequence with nothing kept of its shape but its entries is a set.\<close>

lemma ch_is_empty_iff: "ch_inv ord c \<Longrightarrow> ch_is_empty c \<longleftrightarrow> set (ch_iter c) = {}"
  by (simp add: ch_inv_def ch_is_empty_def)

end

end
