(* ===== verification/Fenec_Time.thy ===== *)
theory Fenec_Time
  imports Fenec_Prelude
begin

text \<open>
  The calendar of \<open>fenec-core/src/time.rs\<close>: day numbers and dates, by integer arithmetic alone
  (\<open>civil_from_days\<close>, \<open>days_from_civil\<close>), and the parts of a time (\<open>split\<close>, \<open>parts\<close>). An \<open>i64\<close>
  is an integer and every operation that can leave its range is wrapped by \<open>i64\<close>, as the release
  build does. The reference is the Gregorian calendar by its rules: \<open>leap\<close>, \<open>month_len\<close>.
\<close>

section \<open>Signed 64-bit arithmetic\<close>

definition i64 :: "int \<Rightarrow> int" where
  "i64 x = (x + 2 ^ 63) mod 2 ^ 64 - 2 ^ 63"

text \<open>Rust's \<open>/\<close> rounds towards zero.\<close>

definition tdiv :: "int \<Rightarrow> int \<Rightarrow> int" where
  "tdiv a b = (if a < 0 then - ((- a) div b) else a div b)"

lemma i64_id: "- (2 ^ 63) \<le> x \<Longrightarrow> x < 2 ^ 63 \<Longrightarrow> i64 x = x"
  by (simp add: i64_def)

lemma tdiv_nonneg: "0 \<le> a \<Longrightarrow> tdiv a b = a div b"
  by (simp add: tdiv_def)

text \<open>The code's way of rounding down: the divisor less one taken off a negative first.\<close>

lemma tdiv_floor:
  assumes "0 < b"
  shows "tdiv (if 0 \<le> a then a else a - (b - 1)) b = a div b"
proof (cases "0 \<le> a")
  case True
  then show ?thesis by (simp add: tdiv_def)
next
  case False
  have "- ((- (a - (b - 1))) div b) = a div b"
  proof -
    have r: "0 \<le> a mod b" "a mod b < b" using assms by simp_all
    have "- (a - (b - 1)) = (b - 1 - a mod b) + - (a div b) * b"
      using mult_div_mod_eq [of b a] by (simp add: algebra_simps)
    then have "(- (a - (b - 1))) div b = - (a div b) + (b - 1 - a mod b) div b"
      using assms by (metis add.commute div_mult_self1 less_irrefl)
    also have "(b - 1 - a mod b) div b = 0" using r by (intro div_pos_pos_trivial) auto
    finally show ?thesis by simp
  qed
  with False assms show ?thesis by (simp add: tdiv_def)
qed

section \<open>Days and dates\<close>

definition civil_from_days :: "int \<Rightarrow> int \<times> u32 \<times> u32" where
  "civil_from_days z =
     (let z = i64 (z + 719468);
          era = tdiv (if z \<ge> 0 then z else i64 (z - 146096)) 146097;
          doe = i64 (z - i64 (era * 146097));
          yoe = tdiv (doe - tdiv doe 1460 + tdiv doe 36524 - tdiv doe 146096) 365;
          y = i64 (yoe + i64 (era * 400));
          doy = doe - (365 * yoe + tdiv yoe 4 - tdiv yoe 100);
          mp = tdiv (5 * doy + 2) 153;
          d = word_of_int (doy - tdiv (153 * mp + 2) 5 + 1);
          m = word_of_int (if mp < 10 then mp + 3 else mp - 9)
      in (if m \<le> 2 then i64 (y + 1) else y, m, d))"

definition days_from_civil :: "int \<Rightarrow> u32 \<Rightarrow> u32 \<Rightarrow> int" where
  "days_from_civil y m d =
     (let y = (if m \<le> 2 then i64 (y - 1) else y);
          era = tdiv (if y \<ge> 0 then y else i64 (y - 399)) 400;
          yoe = i64 (y - i64 (era * 400));
          mp = uint (if m > 2 then m - 3 else m + 9);
          doy = tdiv (153 * mp + 2) 5 + uint d - 1;
          doe = yoe * 365 + tdiv yoe 4 - tdiv yoe 100 + doy
      in i64 (i64 (i64 (era * 146097) + doe) - 719468))"

definition split_ms :: "int \<Rightarrow> int \<times> int" where
  "split_ms ms = (ms div 86400000, ms mod 86400000)"

definition time_parts :: "int \<Rightarrow> int \<times> u32 \<times> u32 \<times> u32 \<times> u32 \<times> u32 \<times> u32" where
  "time_parts ms =
     (let (day, rem) = split_ms ms; (y, mo, d) = civil_from_days day
      in (y, mo, d, word_of_int (tdiv rem 3600000), word_of_int (tdiv rem 60000 mod 60),
          word_of_int (tdiv rem 1000 mod 60), word_of_int (rem mod 1000)))"

section \<open>The calendar by its rules\<close>

definition leap :: "int \<Rightarrow> bool" where
  "leap y \<longleftrightarrow> y mod 4 = 0 \<and> (y mod 100 \<noteq> 0 \<or> y mod 400 = 0)"

definition month_len :: "int \<Rightarrow> int \<Rightarrow> int" where
  "month_len y m = (if m = 2 then if leap y then 29 else 28
     else if m \<in> {4, 6, 9, 11} then 30 else 31)"

definition on_calendar :: "int \<Rightarrow> int \<Rightarrow> int \<Rightarrow> bool" where
  "on_calendar y m d \<longleftrightarrow> 1 \<le> m \<and> m \<le> 12 \<and> 1 \<le> d \<and> d \<le> month_len y m"

text \<open>The day after a date, and the days from one year's start to the next.\<close>

definition next_day :: "int \<times> int \<times> int \<Rightarrow> int \<times> int \<times> int" where
  "next_day = (\<lambda>(y, m, d).
     if d < month_len y m then (y, m, d + 1) else if m < 12 then (y, m + 1, 1) else (y + 1, 1, 1))"

section \<open>Eras\<close>

text \<open>
  A day of a 400-year era, counted from a 1st of March: \<open>c\<close> centuries, \<open>q\<close> four-year cycles, \<open>t\<close>
  years and \<open>u\<close> days, where day 365 is a leap day, which ends a fourth year, a 25th cycle only in
  the last century.
\<close>

definition in_era :: "int \<Rightarrow> int \<Rightarrow> int \<Rightarrow> int \<Rightarrow> bool" where
  "in_era c q t u \<longleftrightarrow> 0 \<le> c \<and> c \<le> 3 \<and> 0 \<le> q \<and> q \<le> 24 \<and> 0 \<le> t \<and> t \<le> 3 \<and> 0 \<le> u \<and> u \<le> 365
     \<and> (u = 365 \<longrightarrow> t = 3 \<and> (q = 24 \<longrightarrow> c = 3))"

definition era_day :: "int \<Rightarrow> int \<Rightarrow> int \<Rightarrow> int \<Rightarrow> int" where
  "era_day c q t u = 36524 * c + 1461 * q + 365 * t + u"

lemma era_day_bounds: "in_era c q t u \<Longrightarrow> 0 \<le> era_day c q t u \<and> era_day c q t u \<le> 146096"
  by (auto simp: in_era_def era_day_def)

lemma era_day_cases:
  assumes "0 \<le> doe" "doe \<le> 146096"
  obtains c q t u where "in_era c q t u" "doe = era_day c q t u"
proof -
  define c where "c = min 3 (doe div 36524)"
  define r where "r = doe - 36524 * c"
  have c: "0 \<le> c" "c \<le> 3" using assms(1) by (auto simp: c_def)
  have r: "0 \<le> r" "r \<le> 36524" "c < 3 \<Longrightarrow> r \<le> 36523"
    using assms unfolding r_def c_def by (auto simp: min_def split: if_splits)
  define q where "q = r div 1461"
  define s where "s = r mod 1461"
  have q: "0 \<le> q" "q \<le> 24" "r = 1461 * q + s" "0 \<le> s" "s \<le> 1460" using r by (auto simp: q_def s_def)
  define t where "t = min 3 (s div 365)"
  define u where "u = s - 365 * t"
  have t: "0 \<le> t" "t \<le> 3" using q by (auto simp: t_def)
  have u: "0 \<le> u" "u \<le> 365" "u = 365 \<Longrightarrow> t = 3"
    using q unfolding u_def t_def by (auto simp: min_def split: if_splits)
  have "c = 3" if "u = 365" "q = 24"
  proof (rule ccontr)
    assume "c \<noteq> 3"
    with c r(3) have "r \<le> 36523" by simp
    with that u(3) q(3) show False by (simp add: u_def)
  qed
  with c q t u have "in_era c q t u" by (simp add: in_era_def)
  moreover have "doe = era_day c q t u" using q(3) by (simp add: era_day_def u_def r_def)
  ultimately show thesis by (rule that)
qed

lemma div_between: "0 < b \<Longrightarrow> b * k \<le> a \<Longrightarrow> a < b * (k + 1) \<Longrightarrow> a div b = k" for a b k :: int
  by (rule int_div_pos_eq [of _ _ _ "a - b * k"]) (auto simp: algebra_simps)

lemma year_of_era:
  assumes "in_era c q t u"
  shows "(era_day c q t u - era_day c q t u div 1460 + era_day c q t u div 36524 - era_day c q t u div 146096) div 365
     = 100 * c + 4 * q + t"
proof -
  note b = assms [unfolded in_era_def]
  define doe where "doe = era_day c q t u"
  define e1 :: int where "e1 = (if 1460 \<le> 24 * c + q + 365 * t + u then 1 else 0)"
  define e2 :: int where "e2 = (if 36524 \<le> 1461 * q + 365 * t + u then 1 else 0)"
  define e3 :: int where "e3 = (if 146096 \<le> doe then 1 else 0)"
  have d1: "doe div 1460 = 25 * c + q + e1"
    by (rule div_between) (use b in \<open>auto simp: doe_def era_day_def e1_def\<close>)
  have d2: "doe div 36524 = c + e2"
    by (rule div_between) (use b in \<open>auto simp: doe_def era_day_def e2_def\<close>)
  have d3: "doe div 146096 = e3"
    by (rule div_between) (use b in \<open>auto simp: doe_def era_day_def e3_def\<close>)
  have e23: "e2 = e3"
    using b by (auto simp: e2_def e3_def doe_def era_day_def)
  have "doe - doe div 1460 + doe div 36524 - doe div 146096 = 365 * (100 * c + 4 * q + t) + (u - e1)"
    unfolding d1 d2 d3 e23 by (simp add: doe_def era_day_def)
  moreover have "0 \<le> u - e1 \<and> u - e1 \<le> 364" using b by (auto simp: e1_def)
  ultimately show ?thesis unfolding doe_def [symmetric] by (intro div_between) auto
qed

lemma days_of_years:
  "in_era c q t u \<Longrightarrow> y = 100 * c + 4 * q + t \<Longrightarrow> 365 * y + y div 4 - y div 100 = era_day c q t 0"
proof -
  assume b: "in_era c q t u" and y: "y = 100 * c + 4 * q + t"
  have "y div 4 = 25 * c + q" by (rule div_between) (use b y in \<open>auto simp: in_era_def\<close>)
  moreover have "y div 100 = c" by (rule div_between) (use b y in \<open>auto simp: in_era_def\<close>)
  ultimately show ?thesis by (simp add: era_day_def y)
qed

section \<open>Months\<close>

text \<open>The months from March on, by their place in that year.\<close>

definition march_len :: "int \<Rightarrow> int" where
  "march_len mp = (if mp = 11 then 29 else if mp \<in> {1, 3, 6, 8} then 30 else 31)"

definition month_start :: "int \<Rightarrow> int" where
  "month_start mp = (153 * mp + 2) div 5"

lemma twelve: "0 \<le> mp \<Longrightarrow> mp \<le> 11 \<Longrightarrow>
   mp = 0 \<or> mp = 1 \<or> mp = 2 \<or> mp = 3 \<or> mp = 4 \<or> mp = 5 \<or> mp = 6 \<or> mp = 7 \<or> mp = 8 \<or> mp = 9 \<or> mp = 10 \<or> mp = 11"
  for mp :: int
  by presburger

lemma month_of_day:
  assumes "0 \<le> u" "u \<le> 365" "mp = (5 * u + 2) div 153"
  shows "0 \<le> mp" "mp \<le> 11" "1 \<le> u - month_start mp + 1" "u - month_start mp + 1 \<le> march_len mp"
proof -
  have b: "153 * mp \<le> 5 * u + 2" "5 * u + 2 < 153 * mp + 153"
    using assms(3) by (simp_all add: minus_mod_eq_mult_div [symmetric] mult.commute)
  show m: "0 \<le> mp" "mp \<le> 11" using b assms(1,2) by auto
  show "1 \<le> u - month_start mp + 1" "u - month_start mp + 1 \<le> march_len mp"
    using twelve [OF m] b assms(2) by (elim disjE; simp add: month_start_def march_len_def)+
qed

lemma day_of_month:
  assumes "0 \<le> mp" "mp \<le> 11" "1 \<le> d" "d \<le> march_len mp" "u = month_start mp + d - 1"
  shows "(5 * u + 2) div 153 = mp" "0 \<le> u" "u \<le> 365" "u = 365 \<longleftrightarrow> mp = 11 \<and> d = 29"
proof -
  have "153 * mp \<le> 5 * u + 2 \<and> 5 * u + 2 < 153 * (mp + 1) \<and> 0 \<le> u \<and> u \<le> 365 \<and> (u = 365 \<longleftrightarrow> mp = 11 \<and> d = 29)"
    using twelve [OF assms(1,2)] assms(3-5) by (elim disjE; simp add: month_start_def march_len_def)
  then show "(5 * u + 2) div 153 = mp" "0 \<le> u" "u \<le> 365" "u = 365 \<longleftrightarrow> mp = 11 \<and> d = 29"
    by (auto intro: div_between)
qed

section \<open>The code's functions, in these terms\<close>

lemma era_of:
  fixes z :: int
  obtains c q t u where "in_era c q t u" "z = 146097 * (z div 146097) + era_day c q t u"
proof -
  have "0 \<le> z mod 146097" "z mod 146097 \<le> 146096" by simp_all
  then obtain c q t u where "in_era c q t u" "z mod 146097 = era_day c q t u" by (rule era_day_cases)
  moreover have "z = 146097 * (z div 146097) + z mod 146097" by simp
  ultimately show thesis using that by metis
qed

text \<open>The year of an era's day, and the month and day, from the first of March.\<close>

definition civil_of :: "int \<Rightarrow> int \<Rightarrow> int \<Rightarrow> int \<Rightarrow> int \<Rightarrow> int \<times> int \<times> int" where
  "civil_of era c q t u =
     (let mp = (5 * u + 2) div 153
      in (400 * era + 100 * c + 4 * q + t + (if mp < 10 then 0 else 1),
          if mp < 10 then mp + 3 else mp - 9, u - month_start mp + 1))"

lemma civil_from_days_at:
  assumes "in_era c q t u" "z + 719468 = 146097 * era + era_day c q t u" "\<bar>z\<bar> \<le> 2 ^ 62"
  shows "civil_from_days z = (case civil_of era c q t u of (y, m, d) \<Rightarrow> (y, word_of_int m, word_of_int d))"
proof -
  define w where "w = z + 719468"
  have w: "i64 (z + 719468) = w" using assms(3) by (simp add: w_def i64_id)
  have b: "0 \<le> era_day c q t u" "era_day c q t u \<le> 146096" using era_day_bounds [OF assms(1)] by auto
  have era: "w div 146097 = era" by (rule div_between) (use assms(2) b in \<open>auto simp: w_def\<close>)
  have "i64 (w - 146096) = w - 146096" if "\<not> 0 \<le> w" using assms(3) that by (simp add: w_def i64_id)
  then have e: "tdiv (if 0 \<le> w then w else i64 (w - 146096)) 146097 = era"
    using tdiv_floor [of 146097 w] era by (auto split: if_splits)
  have ib: "\<bar>era\<bar> \<le> 32000000000000" using assms(2,3) b by auto
  have i: "i64 (era * 146097) = era * 146097" "i64 (era * 400) = era * 400"
    using ib by (auto simp: i64_id)
  have doe: "i64 (w - era * 146097) = era_day c q t u" using assms(2) b by (simp add: w_def i64_id)
  define yoe where "yoe = 100 * c + 4 * q + t"
  have yb: "0 \<le> yoe" "yoe \<le> 399" using assms(1) by (auto simp: yoe_def in_era_def)
  have y: "tdiv (era_day c q t u - tdiv (era_day c q t u) 1460 + tdiv (era_day c q t u) 36524
      - tdiv (era_day c q t u) 146096) 365 = yoe"
  proof -
    have "0 \<le> era_day c q t u - era_day c q t u div 1460 + era_day c q t u div 36524 - era_day c q t u div 146096"
      using year_of_era [OF assms(1)] yb by (metis div_neg_pos_less0 not_le yoe_def zero_less_numeral)
    then show ?thesis using b year_of_era [OF assms(1)] by (simp add: tdiv_nonneg yoe_def)
  qed
  have doy: "era_day c q t u - (365 * yoe + tdiv yoe 4 - tdiv yoe 100) = u"
    using days_of_years [OF assms(1) yoe_def] yb by (simp add: tdiv_nonneg era_day_def)
  have u: "0 \<le> u" "u \<le> 365" using assms(1) by (auto simp: in_era_def)
  define mp where "mp = (5 * u + 2) div 153"
  have mp: "0 \<le> mp" "mp \<le> 11" using month_of_day [OF u mp_def] by auto
  have tm: "tdiv (5 * u + 2) 153 = mp" using u by (simp add: tdiv_nonneg mp_def)
  have ts: "tdiv (153 * mp + 2) 5 = month_start mp" using mp by (simp add: tdiv_nonneg month_start_def)
  define mo where "mo = (if mp < 10 then mp + 3 else mp - 9)"
  have le: "(word_of_int mo :: u32) \<le> 2 \<longleftrightarrow> \<not> mp < 10"
    using mp by (auto simp: mo_def word_le_def uint_word_of_int)
  have iy: "i64 (yoe + era * 400) = yoe + 400 * era" "i64 (yoe + 400 * era + 1) = yoe + 400 * era + 1"
    using ib yb by (auto simp: i64_id)
  show ?thesis
    unfolding civil_from_days_def Let_def w e i doe y doy tm ts mo_def [symmetric] iy le
    by (simp add: civil_of_def Let_def mp_def [symmetric] mo_def [symmetric] yoe_def)
qed

lemma days_from_civil_at:
  assumes "in_era c q t u" "civil_of era c q t u = (y, m, d)" "\<bar>era\<bar> \<le> 2 ^ 40"
  shows "days_from_civil y (word_of_int m) (word_of_int d) = 146097 * era + era_day c q t u - 719468"
proof -
  have u: "0 \<le> u" "u \<le> 365" using assms(1) by (auto simp: in_era_def)
  define mp where "mp = (5 * u + 2) div 153"
  note mo = month_of_day [OF u mp_def]
  define yoe where "yoe = 100 * c + 4 * q + t"
  have yb: "0 \<le> yoe" "yoe \<le> 399" using assms(1) by (auto simp: yoe_def in_era_def)
  have ymd: "y = 400 * era + yoe + (if mp < 10 then 0 else 1)" "m = (if mp < 10 then mp + 3 else mp - 9)"
    "d = u - month_start mp + 1"
    using assms(2) by (simp_all add: civil_of_def Let_def mp_def [symmetric] yoe_def)
  have dl: "1 \<le> d" "d \<le> 31" using mo(3,4) by (auto simp: ymd march_len_def split: if_splits)
  have ml: "1 \<le> m" "m \<le> 12" using mo(1,2) by (auto simp: ymd(2))
  have um: "uint (word_of_int m :: u32) = m" "uint (word_of_int d :: u32) = d"
    using ml dl by (simp_all add: uint_word_of_int)
  have le: "(word_of_int m :: u32) \<le> 2 \<longleftrightarrow> \<not> mp < 10" "(word_of_int m :: u32) > 2 \<longleftrightarrow> mp < 10"
    using um(1) mo(1,2) by (auto simp: word_le_def word_less_def ymd)
  have pl: "uint (if (word_of_int m :: u32) > 2 then word_of_int m - 3 else word_of_int m + 9 :: u32) = mp"
  proof (cases "mp < 10")
    case True
    then have "(word_of_int m - 3 :: u32) = word_of_int mp" by (simp add: ymd)
    then show ?thesis using True le(2) mo(1,2) by (simp add: uint_word_of_int)
  next
    case False
    then have "(word_of_int m + 9 :: u32) = word_of_int mp" by (simp add: ymd)
    then show ?thesis using False le(2) mo(1,2) by (simp add: uint_word_of_int)
  qed
  define y0 where "y0 = 400 * era + yoe"
  have y0: "(if (word_of_int m :: u32) \<le> 2 then i64 (y - 1) else y) = y0"
    using assms(3) yb by (auto simp: le ymd(1) y0_def i64_id)
  have era: "y0 div 400 = era" by (rule div_between) (use yb in \<open>auto simp: y0_def\<close>)
  have "i64 (y0 - 399) = y0 - 399" if "\<not> 0 \<le> y0" using assms(3) yb by (simp add: y0_def i64_id)
  then have e: "tdiv (if 0 \<le> y0 then y0 else i64 (y0 - 399)) 400 = era"
    using tdiv_floor [of 400 y0] era by (auto split: if_splits)
  have i: "i64 (era * 400) = era * 400" "i64 (y0 - era * 400) = yoe" "i64 (era * 146097) = era * 146097"
    using assms(3) yb by (auto simp: i64_id y0_def)
  have ts: "tdiv (153 * mp + 2) 5 = month_start mp" using mo(1) by (simp add: tdiv_nonneg month_start_def)
  have doe: "yoe * 365 + tdiv yoe 4 - tdiv yoe 100 + (month_start mp + d - 1) = era_day c q t u"
    using days_of_years [OF assms(1) yoe_def] yb by (simp add: tdiv_nonneg era_day_def ymd(3))
  have fin: "i64 (era * 146097 + era_day c q t u) = era * 146097 + era_day c q t u"
    "i64 (era * 146097 + era_day c q t u - 719468) = era * 146097 + era_day c q t u - 719468"
    using assms(3) era_day_bounds [OF assms(1)] by (auto simp: i64_id)
  show ?thesis
    unfolding days_from_civil_def Let_def y0 e i pl ts um(2) doe fin by simp
qed

section \<open>Every day is on the calendar, and every date is a day\<close>

lemma civil_of_on_calendar:
  assumes e: "in_era c q t u" and "civil_of era c q t u = (y, m, d)"
  shows "on_calendar y m d"
proof -
  have u: "0 \<le> u" "u \<le> 365" using e by (auto simp: in_era_def)
  define mp where "mp = (5 * u + 2) div 153"
  note mo = month_of_day [OF u mp_def]
  have ymd: "y = 400 * era + 100 * c + 4 * q + t + (if mp < 10 then 0 else 1)"
    "m = (if mp < 10 then mp + 3 else mp - 9)" "d = u - month_start mp + 1"
    using assms(2) by (simp_all add: civil_of_def Let_def mp_def [symmetric])
  have leap: "leap y" if "mp = 11" "d = 29"
  proof -
    from that have "u = 365" by (simp add: ymd(3) month_start_def)
    then have t: "t = 3" "q = 24 \<Longrightarrow> c = 3" using e by (auto simp: in_era_def)
    have y: "y = 4 * (100 * era + 25 * c + q + 1)" using that(1) t(1) by (simp add: ymd(1))
    show ?thesis
    proof (cases "q = 24")
      case True
      then have "y = 400 * (era + 1)" using t(2) by (simp add: y)
      then show ?thesis by (simp add: leap_def)
    next
      case False
      have "y mod 100 = 4 * (q + 1)"
      proof -
        have "y = 100 * (4 * era + c) + 4 * (q + 1)" by (simp add: y)
        then have "y mod 100 = (4 * (q + 1)) mod 100" by (simp only: mod_mult_self4)
        also have "\<dots> = 4 * (q + 1)" using e False by (intro mod_pos_pos_trivial) (auto simp: in_era_def)
        finally show ?thesis .
      qed
      then show ?thesis using e by (auto simp: leap_def in_era_def y)
    qed
  qed
  have dl: "1 \<le> d" "d \<le> march_len mp" using mo(3,4) by (simp_all add: ymd(3))
  have "d \<le> 28" if "mp = 11" "\<not> leap y" using leap that dl(2) by (force simp: march_len_def)
  with dl show ?thesis
    using twelve [OF mo(1,2)] by (elim disjE; auto simp: on_calendar_def month_len_def march_len_def ymd(2))
qed

lemma calendar_civil_of:
  assumes "on_calendar y m d"
  obtains era c q t u where "in_era c q t u" "civil_of era c q t u = (y, m, d)" "\<bar>era\<bar> \<le> \<bar>y\<bar> div 400 + 1"
proof -
  define mp where "mp = (if 2 < m then m - 3 else m + 9)"
  define y0 where "y0 = (if 2 < m then y else y - 1)"
  define era where "era = y0 div 400"
  define yoe where "yoe = y0 mod 400"
  define c where "c = yoe div 100"
  define q where "q = yoe mod 100 div 4"
  define t where "t = yoe mod 100 mod 4"
  define u where "u = month_start mp + d - 1"
  have m: "1 \<le> m" "m \<le> 12" "1 \<le> d" "d \<le> month_len y m" using assms by (auto simp: on_calendar_def)
  have mp: "0 \<le> mp" "mp \<le> 11" using m by (auto simp: mp_def)
  have dl: "d \<le> march_len mp" "mp = 11 \<Longrightarrow> d = 29 \<Longrightarrow> leap y"
    using m twelve [OF mp] by (auto simp: mp_def month_len_def march_len_def split: if_splits)
  note dm = day_of_month [OF mp m(3) dl(1) u_def]
  have yo: "0 \<le> yoe" "yoe < 400" "y0 = 400 * era + yoe" by (simp_all add: yoe_def era_def)
  have y100: "yoe = 100 * c + yoe mod 100" "yoe mod 100 = 4 * q + t" "0 \<le> yoe mod 100" "yoe mod 100 < 100"
    by (simp_all add: c_def q_def t_def)
  have t4: "0 \<le> t" "t \<le> 3" by (simp_all add: t_def)
  have yc: "yoe = 100 * c + 4 * q + t" "0 \<le> c" "c \<le> 3" "0 \<le> q" "q \<le> 24" "0 \<le> t" "t \<le> 3"
    using y100 yo(1,2) t4 by linarith+
  have "t = 3 \<and> (q = 24 \<longrightarrow> c = 3)" if "u = 365"
  proof -
    have "mp = 11" "leap y" using that dm(4) dl(2) by auto
    then have y: "y = 400 * era + 100 * c + 4 * q + t + 1" using yo(3) yc(1) m(2) by (auto simp: y0_def mp_def split: if_splits)
    from \<open>leap y\<close> have ly: "y mod 4 = 0" "y mod 100 = 0 \<Longrightarrow> y mod 400 = 0" by (auto simp: leap_def)
    have "y = 4 * (100 * era + 25 * c + q) + (t + 1)" by (simp add: y)
    then have "(t + 1) mod 4 = 0" using ly(1) by (simp only: mod_mult_self4)
    then have t: "t = 3" using yc(6,7) by presburger
    have "c = 3" if "q = 24"
    proof -
      have y': "y = 400 * era + 100 * (c + 1)" using t that by (simp add: y)
      then have "y = 100 * (4 * era + c + 1)" by simp
      then have "y mod 400 = 0" by (intro ly(2)) (simp only: mod_mult_self1_is_0)
      then have "(100 * (c + 1)) mod 400 = 0" using y' by (simp only: mod_mult_self4)
      then show ?thesis using yc(2,3) by presburger
    qed
    with t show ?thesis by blast
  qed
  then have e: "in_era c q t u" using yc dm by (auto simp: in_era_def)
  have "civil_of era c q t u = (y, m, d)"
    using dm(1) mp yo(3) yc(1) m by (auto simp: civil_of_def Let_def u_def mp_def y0_def split: if_splits)
  moreover have "\<bar>era\<bar> \<le> \<bar>y\<bar> div 400 + 1" unfolding era_def y0_def by auto
  ultimately show thesis using e that by blast
qed

text \<open>The day number as one sum, which the day after moves by one.\<close>

definition leap_days :: "int \<Rightarrow> int" where
  "leap_days y = y div 4 - y div 100 + y div 400"

definition day_sum :: "int \<Rightarrow> int \<Rightarrow> int \<Rightarrow> int" where
  "day_sum y m d =
     (let y0 = (if 2 < m then y else y - 1); mp = (if 2 < m then m - 3 else m + 9)
      in 365 * y0 + leap_days y0 + month_start mp + d - 1 - 719468)"

lemma era_day_sum:
  assumes e: "in_era c q t u" and "civil_of era c q t u = (y, m, d)"
  shows "146097 * era + era_day c q t u - 719468 = day_sum y m d"
proof -
  have u: "0 \<le> u" "u \<le> 365" using e by (auto simp: in_era_def)
  define mp where "mp = (5 * u + 2) div 153"
  note mo = month_of_day [OF u mp_def]
  define yoe where "yoe = 100 * c + 4 * q + t"
  define y0 where "y0 = 400 * era + yoe"
  have ymd: "y = y0 + (if mp < 10 then 0 else 1)" "m = (if mp < 10 then mp + 3 else mp - 9)" "d = u - month_start mp + 1"
    using assms(2) by (simp_all add: civil_of_def Let_def mp_def [symmetric] y0_def yoe_def)
  have yb: "0 \<le> yoe" "yoe \<le> 399" using e by (auto simp: yoe_def in_era_def)
  have "y0 div 4 = 100 * era + yoe div 4" "y0 div 100 = 4 * era + yoe div 100" "y0 div 400 = era"
    unfolding y0_def using yb by auto
  then have "146097 * era + era_day c q t 0 = 365 * y0 + leap_days y0"
    using days_of_years [OF e yoe_def] by (simp add: y0_def leap_days_def)
  then show ?thesis
    using mo(1,2) by (simp add: day_sum_def Let_def ymd era_day_def)
qed

lemma div_pred: "0 < n \<Longrightarrow> y div n = (y - 1) div n + (if y mod n = 0 then 1 else 0)" for y n :: int
proof -
  assume n: "0 < n"
  define k r where "k = y div n" and "r = y mod n"
  have y: "y = n * k + r" "0 \<le> r" "r < n" using n by (simp_all add: k_def r_def)
  have "(y - 1) div n = k - (if r = 0 then 1 else 0)"
  proof (cases "r = 0")
    case True
    have "(y - 1) div n = k - 1" by (rule div_between) (use n y True in \<open>auto simp: algebra_simps\<close>)
    with True show ?thesis by simp
  next
    case False
    have "(y - 1) div n = k" by (rule div_between) (use n y False in \<open>auto simp: algebra_simps\<close>)
    with False show ?thesis by simp
  qed
  then show ?thesis by (simp add: k_def r_def)
qed

lemma leap_days_next: "leap_days y = leap_days (y - 1) + (if leap y then 1 else 0)"
proof -
  have m: "y mod 400 = 0 \<Longrightarrow> y mod 100 = 0" "y mod 100 = 0 \<Longrightarrow> y mod 4 = 0"
    unfolding mod_eq_0_iff_dvd by (rule dvd_trans [of 100 400], simp_all, rule dvd_trans [of 4 100], simp_all)
  have sum: "A = A' + a \<Longrightarrow> B = B' + b \<Longrightarrow> C = C' + c \<Longrightarrow> A - B + C = A' - B' + C' + (a - b + c)"
    for A A' a B B' b C C' c :: int by simp
  have "leap_days y = leap_days (y - 1) + ((if y mod 4 = 0 then 1 else 0)
      - (if y mod 100 = 0 then 1 else 0) + (if y mod 400 = 0 then 1 else 0))"
    unfolding leap_days_def by (rule sum; rule div_pred, rule zero_less_numeral)
  moreover have "(if p then 1 else 0) - (if q then 1 else 0) + (if r then 1 else 0)
      = (if p \<and> (\<not> q \<or> r) then 1 else 0 :: int)" if "r \<Longrightarrow> q" "q \<Longrightarrow> p" for p q r
    using that by auto
  ultimately show ?thesis using m by (simp only: leap_def)
qed

lemma day_sum_next:
  assumes "on_calendar y m d" "next_day (y, m, d) = (y', m', d')"
  shows "day_sum y' m' d' = day_sum y m d + 1" "on_calendar y' m' d'"
proof -
  have m: "1 \<le> m" "m \<le> 12" "1 \<le> d" "d \<le> month_len y m" using assms(1) by (auto simp: on_calendar_def)
  then have ms: "m = 1 \<or> m = 2 \<or> m = 3 \<or> m = 4 \<or> m = 5 \<or> m = 6 \<or> m = 7 \<or> m = 8 \<or> m = 9 \<or> m = 10 \<or> m = 11 \<or> m = 12"
    by presburger
  note lp = leap_days_next [of y]
  show "day_sum y' m' d' = day_sum y m d + 1"
    using assms(2) ms m(4) lp
    by (elim disjE; auto simp: next_day_def day_sum_def Let_def month_len_def month_start_def split: if_splits)
  have "1 \<le> month_len y k" for k by (simp add: month_len_def)
  moreover have "1 \<le> month_len (y + 1) 1" by (simp add: month_len_def)
  ultimately show "on_calendar y' m' d'"
    using assms(2) m by (auto simp: next_day_def on_calendar_def split: if_splits)
qed

lemma day_sum_inj:
  assumes "on_calendar y m d" "on_calendar y' m' d'" "day_sum y m d = day_sum y' m' d'"
  shows "(y, m, d) = (y', m', d')"
proof -
  obtain era c q t u where e: "in_era c q t u" "civil_of era c q t u = (y, m, d)"
    by (rule calendar_civil_of [OF assms(1)])
  obtain era' c' q' t' u' where e': "in_era c' q' t' u'" "civil_of era' c' q' t' u' = (y', m', d')"
    by (rule calendar_civil_of [OF assms(2)])
  have s: "146097 * era + era_day c q t u = 146097 * era' + era_day c' q' t' u'"
    using era_day_sum [OF e] era_day_sum [OF e'] assms(3) by simp
  have b: "0 \<le> era_day c q t u" "era_day c q t u \<le> 146096" "0 \<le> era_day c' q' t' u'" "era_day c' q' t' u' \<le> 146096"
    using era_day_bounds e(1) e'(1) by auto
  have er: "era = era'" using s b by linarith
  with s have d: "era_day c q t u = era_day c' q' t' u'" by simp
  have y: "100 * c + 4 * q + t = 100 * c' + 4 * q' + t'"
    using year_of_era [OF e(1)] year_of_era [OF e'(1)] d by simp
  have "u = u'"
    using days_of_years [OF e(1) refl] days_of_years [OF e'(1) refl] y d by (simp add: era_day_def)
  with er y e(2) e'(2) show ?thesis by (simp add: civil_of_def Let_def add.assoc)
qed

definition date_of :: "int \<Rightarrow> int \<times> int \<times> int" where
  "date_of z = (case civil_from_days z of (y, m, d) \<Rightarrow> (y, uint m, uint d))"

lemma on_calendar_uint:
  assumes "on_calendar y m d"
  shows "uint (word_of_int m :: u32) = m" "uint (word_of_int d :: u32) = d"
proof -
  have "1 \<le> m" "m \<le> 12" "1 \<le> d" "d \<le> 31"
    using assms by (auto simp: on_calendar_def month_len_def split: if_splits)
  then show "uint (word_of_int m :: u32) = m" "uint (word_of_int d :: u32) = d"
    by (simp_all add: uint_word_of_int)
qed

lemma day_date:
  assumes "\<bar>z\<bar> \<le> 2 ^ 57"
  obtains y m d where "civil_from_days z = (y, word_of_int m, word_of_int d)" "date_of z = (y, m, d)"
    "on_calendar y m d" "days_from_civil y (word_of_int m) (word_of_int d) = z" "day_sum y m d = z"
proof -
  obtain c q t u where e: "in_era c q t u" "z + 719468 = 146097 * ((z + 719468) div 146097) + era_day c q t u"
    by (rule era_of)
  define era where "era = (z + 719468) div 146097"
  obtain y m d where cv: "civil_of era c q t u = (y, m, d)" by (metis prod_cases3)
  have z: "z + 719468 = 146097 * era + era_day c q t u" using e(2) by (simp add: era_def)
  have eb: "\<bar>era\<bar> \<le> 2 ^ 40" using assms z era_day_bounds [OF e(1)] by auto
  have f: "civil_from_days z = (y, word_of_int m, word_of_int d)"
    using civil_from_days_at [OF e(1) z] assms cv by simp
  have oc: "on_calendar y m d" by (rule civil_of_on_calendar [OF e(1) cv])
  have "days_from_civil y (word_of_int m) (word_of_int d) = z"
    using days_from_civil_at [OF e(1) cv eb] z by simp
  moreover have "day_sum y m d = z" using era_day_sum [OF e(1) cv] z by simp
  ultimately show thesis using that f oc on_calendar_uint [OF oc] by (simp add: date_of_def)
qed

lemma date_day:
  assumes "on_calendar y m d" "\<bar>y\<bar> \<le> 2 ^ 48"
  shows "civil_from_days (day_sum y m d) = (y, word_of_int m, word_of_int d)"
    and "days_from_civil y (word_of_int m) (word_of_int d) = day_sum y m d"
proof -
  obtain era c q t u where e: "in_era c q t u" "civil_of era c q t u = (y, m, d)" "\<bar>era\<bar> \<le> \<bar>y\<bar> div 400 + 1"
    by (rule calendar_civil_of [OF assms(1)])
  have "\<bar>y\<bar> div 400 \<le> 2 ^ 48 div 400" using assms(2) by (intro zdiv_mono1) auto
  then have eb: "\<bar>era\<bar> \<le> 2 ^ 40" using e(3) by simp
  note s = era_day_sum [OF e(1,2)]
  show "days_from_civil y (word_of_int m) (word_of_int d) = day_sum y m d"
    using days_from_civil_at [OF e(1,2) eb] s by simp
  have "\<bar>day_sum y m d\<bar> \<le> 2 ^ 62" using s era_day_bounds [OF e(1)] eb by auto
  then show "civil_from_days (day_sum y m d) = (y, word_of_int m, word_of_int d)"
    using civil_from_days_at [OF e(1), of "day_sum y m d" era] s e(2) by simp
qed

text \<open>
  C34: The table-free arithmetic is the Gregorian calendar. Day 0 is the 1st of January 1970, the
  date of the day after is the next date by the month lengths and the leap rule -- which between
  them fix the date of every day -- and the date of a day gives the day back. It holds for every
  day a time in milliseconds can fall on, and far past them.
\<close>

theorem days_are_dates:
  assumes "\<bar>z\<bar> \<le> 2 ^ 56" and "civil_from_days z = (y, m, d)"
  shows "date_of 0 = (1970, 1, 1)
     \<and> on_calendar y (uint m) (uint d)
     \<and> date_of (z + 1) = next_day (y, uint m, uint d)
     \<and> days_from_civil y m d = z"
proof (intro conjI)
  show "date_of 0 = (1970, 1, 1)" by code_simp
  have "\<bar>z\<bar> \<le> 2 ^ 57" using assms(1) by simp
  then obtain y1 m1 d1 where f: "civil_from_days z = (y1, word_of_int m1, word_of_int d1)" "date_of z = (y1, m1, d1)"
    "on_calendar y1 m1 d1" "days_from_civil y1 (word_of_int m1) (word_of_int d1) = z" "day_sum y1 m1 d1 = z"
    by (rule day_date)
  have e: "y = y1" "m = word_of_int m1" "d = word_of_int d1" using f(1) assms(2) by auto
  note u = on_calendar_uint [OF f(3)]
  show "on_calendar y (uint m) (uint d)" "days_from_civil y m d = z" using f(3,4) e u by simp_all
  have "\<bar>z + 1\<bar> \<le> 2 ^ 57" using assms(1) by auto
  then obtain y2 m2 d2 where g: "date_of (z + 1) = (y2, m2, d2)" "on_calendar y2 m2 d2" "day_sum y2 m2 d2 = z + 1"
    by (rule day_date)
  obtain y3 m3 d3 where n: "next_day (y1, m1, d1) = (y3, m3, d3)" by (metis prod_cases3)
  note s = day_sum_next [OF f(3) n]
  show "date_of (z + 1) = next_day (y, uint m, uint d)"
    using day_sum_inj [OF g(2) s(2)] g n s(1) f(5) e u by simp
qed

theorem days_are_dates_witness:
  "civil_from_days 19782 = (2024, 2, 29) \<and> date_of 19783 = next_day (2024, 2, 29)
     \<and> days_from_civil 2024 2 29 = 19782"
proof -
  have c: "civil_from_days 19782 = (2024, 2, 29)" by code_simp
  from days_are_dates [OF _ c] c show ?thesis by simp
qed

text \<open>
  Every date of the calendar is the date of its day: no leap day, month's end or century year
  is taken for another, on either side of the epoch.
\<close>

lemma dates_are_days:
  assumes "on_calendar y (uint m) (uint d)" and "\<bar>y\<bar> \<le> 2 ^ 48"
  shows "civil_from_days (days_from_civil y m d) = (y, m, d)"
  using date_day [OF assms] by simp

end
