(* ===== verification/Fenec_Time_Text.thy ===== *)
theory Fenec_Time_Text
  imports Fenec_Time Fenec_Std
begin

text \<open>
  Times as text (\<open>fenec-core/src/time.rs\<close>: \<open>format_iso\<close>, \<open>format_pg\<close>, \<open>parse\<close>) and the integer
  reader they use (\<open>parse_i64\<close> of \<open>num.rs\<close>). A text is a \<open>string\<close>: the scalar values below 256,
  which is every one the formats are made of. What is written of a year that is not negative is
  read back to the millisecond, and of a negative one refused; the dates that are read are those of
  the calendar.
\<close>

section \<open>Strings\<close>

text \<open>\<open>str::trim\<close>: Unicode's white space, as far as a \<open>char\<close> here goes.\<close>

definition is_space :: "char \<Rightarrow> bool" where
  "is_space c \<longleftrightarrow> (let n = of_char c :: nat in (9 \<le> n \<and> n \<le> 13) \<or> n = 32 \<or> n = 133 \<or> n = 160)"

definition trim :: "string \<Rightarrow> string" where
  "trim s = rev (dropWhile is_space (rev (dropWhile is_space s)))"

definition strip_suffix :: "char \<Rightarrow> string \<Rightarrow> string option" where
  "strip_suffix c s = (if s \<noteq> [] \<and> last s = c then Some (butlast s) else None)"

text \<open>\<open>split_once\<close> on any of a few characters.\<close>

definition split_once_any :: "(char \<Rightarrow> bool) \<Rightarrow> string \<Rightarrow> (string \<times> string) option" where
  "split_once_any P s =
     (case dropWhile (\<lambda>c. \<not> P c) s of
        [] \<Rightarrow> None
      | _ # rest \<Rightarrow> Some (takeWhile (\<lambda>c. \<not> P c) s, rest))"

definition is_digit :: "char \<Rightarrow> bool" where
  "is_digit c \<longleftrightarrow> (let n = of_char c :: nat in 48 \<le> n \<and> n \<le> 57)"

section \<open>Numbers\<close>

definition i64_magnitude :: nat where "i64_magnitude = 2 ^ 63"

fun digits_loop :: "nat \<Rightarrow> string \<Rightarrow> nat option" where
  "digits_loop n [] = Some n"
| "digits_loop n (c # cs) =
     (if \<not> is_digit c \<or> n > i64_magnitude div 10 then None
      else digits_loop (n * 10 + (of_char c - 48)) cs)"

definition parse_i64 :: "string \<Rightarrow> int option" where
  "parse_i64 s =
     (let (neg, digits) =
        (case s of [] \<Rightarrow> (False, [])
         | c # rest \<Rightarrow> if c = CHR ''-'' then (True, rest) else if c = CHR ''+'' then (False, rest) else (False, s))
      in if digits = [] then None
         else case digits_loop 0 digits of
                None \<Rightarrow> None
              | Some n \<Rightarrow>
                  if neg then (if n \<le> i64_magnitude then Some (- int n) else None)
                  else if n < i64_magnitude then Some (int n) else None)"

text \<open>\<open>{n:0w}\<close>: decimal digits, zeros put before them up to the width, after the sign.\<close>

fun dec :: "nat \<Rightarrow> string" where
  "dec n = (if n < 10 then [char_of (48 + n)] else dec (n div 10) @ [char_of (48 + n mod 10)])"

declare dec.simps [simp del]

definition zeros :: "nat \<Rightarrow> string \<Rightarrow> string" where
  "zeros w s = replicate (w - length s) (CHR ''0'') @ s"

definition fmt_int :: "nat \<Rightarrow> int \<Rightarrow> string" where
  "fmt_int w n = (if n < 0 then CHR ''-'' # zeros (w - 1) (dec (nat (- n))) else zeros w (dec (nat n)))"

definition fmt_u32 :: "nat \<Rightarrow> u32 \<Rightarrow> string" where
  "fmt_u32 w n = zeros w (dec (unat n))"

section \<open>Writing\<close>

definition fmt_clock :: "u32 \<Rightarrow> u32 \<Rightarrow> u32 \<Rightarrow> u32 \<Rightarrow> string" where
  "fmt_clock h mi s milli =
     fmt_u32 2 h @ '':'' @ fmt_u32 2 mi @ '':'' @ fmt_u32 2 s
       @ (if milli = 0 then '''' else ''.'' @ fmt_u32 3 milli)"

definition format_iso :: "int \<Rightarrow> string" where
  "format_iso ms =
     (let (y, mo, d, h, mi, s, milli) = time_parts ms
      in fmt_int 4 y @ ''-'' @ fmt_u32 2 mo @ ''-'' @ fmt_u32 2 d @ ''T'' @ fmt_clock h mi s milli @ ''Z'')"

definition format_pg :: "int \<Rightarrow> string" where
  "format_pg ms =
     (let (y, mo, d, h, mi, s, milli) = time_parts ms
      in fmt_int 4 y @ ''-'' @ fmt_u32 2 mo @ ''-'' @ fmt_u32 2 d @ '' '' @ fmt_clock h mi s milli @ ''+00'')"

section \<open>Reading\<close>

definition e_number :: "string \<Rightarrow> error" where
  "e_number s = Type_error (''expected a number in the date: `'' @ s @ ''`'')"

definition e_timestamp :: "string \<Rightarrow> error" where
  "e_timestamp txt = Type_error (''invalid timestamp: `'' @ txt @ ''`'')"

definition date_num :: "string \<Rightarrow> int result" where
  "date_num s = ok_or (e_number s) (parse_i64 s)"

definition is_sign :: "char \<Rightarrow> bool" where
  "is_sign c \<longleftrightarrow> c = CHR ''+'' \<or> c = CHR ''-''"

text \<open>The zone off the end: what is before it, and its minutes.\<close>

definition zone :: "error \<Rightarrow> string \<Rightarrow> (string \<times> int) result" where
  "zone bad t =
     (case strip_suffix (CHR ''Z'') t of
        Some rest \<Rightarrow> Ok (rest, 0)
      | None \<Rightarrow>
         (case strip_suffix (CHR ''z'') t of
            Some rest \<Rightarrow> Ok (rest, 0)
          | None \<Rightarrow>
              (if \<exists>c\<in>set (drop 10 t). is_sign c then
                 (let i = 10 + length (takeWhile (\<lambda>c. \<not> is_sign c) (drop 10 t));
                      b = take i t; off = drop i t;
                      sign = (if hd off = CHR ''-'' then - 1 else 1);
                      digits = filter is_digit (drop 1 off)
                  in and_then
                       (if length digits = 2 then map_ok (\<lambda>n. n * 60) (date_num digits)
                        else if length digits = 4 then
                          and_then (date_num (take 2 digits)) (\<lambda>hours.
                          map_ok (\<lambda>minutes. hours * 60 + minutes) (date_num (drop 2 digits)))
                        else Err bad)
                       (\<lambda>m. Ok (b, sign * m)))
               else Ok (t, 0))))"

definition date_part :: "error \<Rightarrow> string \<Rightarrow> (int \<times> u32 \<times> u32) result" where
  "date_part bad date =
     (case split_on (CHR ''-'') date of
        [y, m, d] \<Rightarrow>
          and_then (date_num y) (\<lambda>y.
          and_then (date_num m) (\<lambda>m.
          map_ok (\<lambda>d. (y, word_of_int m, word_of_int d)) (date_num d)))
      | _ \<Rightarrow> Err bad)"

definition seconds_part :: "string \<Rightarrow> (int \<times> int) result" where
  "seconds_part v =
     (case split_once (CHR ''.'') v of
        Some (sec, frac) \<Rightarrow>
          and_then (date_num sec) (\<lambda>s.
            let f = take 3 frac
            in map_ok (\<lambda>milli. (s, i64 (milli * 10 ^ (3 - length f)))) (date_num f))
      | None \<Rightarrow> map_ok (\<lambda>s. (s, 0)) (date_num v))"

definition clock_part :: "error \<Rightarrow> string \<Rightarrow> (int \<times> int \<times> int \<times> int) result" where
  "clock_part bad time =
     (if time = [] then Ok (0, 0, 0, 0)
      else let tp = split_on (CHR '':'') time in
        and_then (date_num (hd tp)) (\<lambda>h.
        and_then (if 1 < length tp then date_num (tp ! 1) else Ok 0) (\<lambda>mi.
        and_then (if 2 < length tp then seconds_part (tp ! 2) else Ok (0, 0)) (\<lambda>(s, milli).
          if 3 < length tp \<or> h > 23 \<or> mi > 59 \<or> s > 60 then Err bad else Ok (h, mi, s, milli)))))"

definition time_parse :: "string \<Rightarrow> int result" where
  "time_parse txt =
     (let t = trim txt; bad = e_timestamp txt in
      and_then (zone bad t) (\<lambda>(body, offset_min).
        let body = trim body;
            (date, time) = (case split_once_any (\<lambda>c. c = CHR ''T'' \<or> c = CHR ''t'' \<or> c = CHR '' '') body of
               Some (d, tm) \<Rightarrow> (d, trim tm) | None \<Rightarrow> (body, []))
        in and_then (date_part bad date) (\<lambda>(y, mo, d).
             if \<not> (1 \<le> mo \<and> mo \<le> 12) \<or> \<not> (1 \<le> d \<and> d \<le> 31) then Err bad
             else and_then (clock_part bad time) (\<lambda>(h, mi, s, milli).
               let day = days_from_civil y mo d
               in if civil_from_days day \<noteq> (y, mo, d) then Err bad
                  else Ok (i64 (i64 (i64 (i64 (i64 (i64 (day * 86400000) + i64 (h * 3600000)) + i64 (mi * 60000))
                         + i64 (s * 1000)) + milli) - i64 (offset_min * 60000)))))))"

text \<open>The bound as a numeral, for evaluation.\<close>

lemma i64_magnitude_code [code]: "i64_magnitude = 9223372036854775808"
  by (simp add: i64_magnitude_def)

lemma i64_magnitude_tenth [code_unfold]: "i64_magnitude div 10 = 922337203685477580"
  by (simp add: i64_magnitude_def)

section \<open>Numbers read back\<close>

definition all_digits :: "string \<Rightarrow> bool" where
  "all_digits s \<longleftrightarrow> s \<noteq> [] \<and> (\<forall>c\<in>set s. is_digit c)"

lemma is_digit_char: "d < 10 \<Longrightarrow> is_digit (char_of (48 + d)) \<and> of_char (char_of (48 + d) :: char) = 48 + d" for d :: nat
  by (simp add: is_digit_def take_bit_eq_mod)

lemma dec_digits: "all_digits (dec n)"
proof (induction n rule: dec.induct)
  case (1 n)
  then show ?case
    by (subst dec.simps) (auto simp: all_digits_def is_digit_char)
qed

lemma zeros_digits: "all_digits (zeros w (dec n))"
  using dec_digits [of n] by (auto simp: all_digits_def zeros_def is_digit_def)

lemma digits_loop_append:
  "digits_loop m (xs @ ys) = (case digits_loop m xs of None \<Rightarrow> None | Some k \<Rightarrow> digits_loop k ys)"
  by (induction m xs rule: digits_loop.induct) auto

lemma digits_loop_dec: "n \<le> i64_magnitude \<Longrightarrow> digits_loop 0 (dec n) = Some n"
proof (induction n rule: dec.induct)
  case (1 n)
  show ?case
  proof (cases "n < 10")
    case True
    then show ?thesis using is_digit_char [of n] by (subst dec.simps) (simp add: i64_magnitude_def)
  next
    case False
    then have "digits_loop 0 (dec (n div 10)) = Some (n div 10)" using 1 by simp
    moreover have "n div 10 \<le> i64_magnitude div 10" using 1(2) by (rule div_le_mono)
    ultimately show ?thesis
      using False is_digit_char [of "n mod 10"] by (subst dec.simps) (simp add: digits_loop_append)
  qed
qed

lemma digits_loop_zeros: "digits_loop 0 (zeros w s) = digits_loop 0 s"
proof -
  have "digits_loop 0 (replicate k (CHR ''0'')) = Some 0" for k
    by (induction k) (simp_all add: is_digit_def)
  then show ?thesis by (simp add: zeros_def digits_loop_append)
qed

lemma date_num_zeros: "n < i64_magnitude \<Longrightarrow> date_num (zeros w (dec n)) = Ok (int n)"
proof -
  assume n: "n < i64_magnitude"
  obtain c cs where c: "zeros w (dec n) = c # cs" "is_digit c"
    using zeros_digits [of w n] by (cases "zeros w (dec n)") (auto simp: all_digits_def)
  then have "c \<noteq> CHR ''-''" "c \<noteq> CHR ''+''" by (auto simp: is_digit_def)
  moreover have "digits_loop 0 (c # cs) = Some n"
    using digits_loop_zeros [of w "dec n"] digits_loop_dec [of n] n c(1) by simp
  ultimately show ?thesis using n by (simp add: date_num_def parse_i64_def c(1))
qed

lemma length_zeros3: "n < 1000 \<Longrightarrow> length (zeros 3 (dec n)) = 3"
proof -
  assume n: "n < 1000"
  have 1: "length (dec k) = 1" if "k < 10" for k using that by (subst dec.simps) simp
  have 2: "length (dec k) \<le> 2" if "k < 100" for k
    using that 1 [of "k div 10"] by (subst dec.simps) (auto simp: less_mult_imp_div_less)
  have "length (dec n) \<le> 3"
    using n 2 [of "n div 10"] by (subst dec.simps) (auto simp: less_mult_imp_div_less)
  then show ?thesis by (simp add: zeros_def)
qed

section \<open>Pieces read back\<close>

lemma digit_not: "is_digit c \<Longrightarrow> \<not> is_space c \<and> c \<noteq> CHR ''-'' \<and> c \<noteq> CHR '':'' \<and> c \<noteq> CHR ''.'' \<and> c \<noteq> CHR ''T''
    \<and> c \<noteq> CHR ''t'' \<and> c \<noteq> CHR '' '' \<and> c \<noteq> CHR ''Z''"
  by (auto simp: is_digit_def is_space_def Let_def)

lemma digits_free:
  "all_digits s \<Longrightarrow> CHR ''-'' \<notin> set s \<and> CHR '':'' \<notin> set s \<and> CHR ''.'' \<notin> set s \<and> CHR ''T'' \<notin> set s
     \<and> CHR ''t'' \<notin> set s \<and> CHR '' '' \<notin> set s"
  by (auto simp: all_digits_def dest: digit_not)

lemma trim_id: "s \<noteq> [] \<Longrightarrow> \<not> is_space (hd s) \<Longrightarrow> \<not> is_space (last s) \<Longrightarrow> trim s = s"
proof -
  assume a: "s \<noteq> []" "\<not> is_space (hd s)" "\<not> is_space (last s)"
  then have "dropWhile is_space s = s" by (cases s) auto
  moreover have "dropWhile is_space (rev s) = rev s" using a by (cases s rule: rev_cases) auto
  ultimately show ?thesis by (simp add: trim_def)
qed

lemma split_on_at: "c \<notin> set a \<Longrightarrow> split_on c (a @ c # b) = a # split_on c b"
  by (induction a) auto

lemma split_on_whole: "c \<notin> set a \<Longrightarrow> split_on c a = [a]"
  by (induction a) auto

lemma split_once_at: "c \<notin> set a \<Longrightarrow> split_once c (a @ c # b) = Some (a, b)"
  by (induction a) auto

lemma split_once_none: "c \<notin> set a \<Longrightarrow> split_once c a = None"
  by (induction a) auto

lemma split_any_at: "\<forall>x\<in>set a. \<not> P x \<Longrightarrow> P c \<Longrightarrow> split_once_any P (a @ c # b) = Some (a, b)"
  by (simp add: split_once_any_def)

lemma u32_magnitude: "unat (w :: u32) < i64_magnitude"
  unfolding i64_magnitude_def by (rule less_trans [OF unat_u32_lt]) simp

lemma u32_below: "unat (w :: u32) < n \<Longrightarrow> uint w < int n"
  by (metis of_nat_less_iff uint_nat)

lemma date_part_read:
  assumes "ly < i64_magnitude"
  shows "date_part bad (zeros 4 (dec ly) @ ''-'' @ fmt_u32 2 mo @ ''-'' @ fmt_u32 2 d) = Ok (int ly, mo, d)"
proof -
  have f: "CHR ''-'' \<notin> set (zeros w (dec n))" for w n using digits_free [OF zeros_digits] by blast
  show ?thesis
    using date_num_zeros [OF assms] date_num_zeros [OF u32_magnitude]
    by (simp add: date_part_def fmt_u32_def split_on_at split_on_whole f)
qed

lemma date_part_numbers:
  assumes "ly < i64_magnitude" "m < i64_magnitude" "d < i64_magnitude"
  shows "date_part bad (zeros a (dec ly) @ ''-'' @ zeros b (dec m) @ ''-'' @ zeros c (dec d))
     = Ok (int ly, word_of_nat m, word_of_nat d)"
proof -
  have f: "CHR ''-'' \<notin> set (zeros w (dec n))" for w n using digits_free [OF zeros_digits] by blast
  show ?thesis
    using date_num_zeros [OF assms(1)] date_num_zeros [OF assms(2)] date_num_zeros [OF assms(3)]
    by (simp add: date_part_def split_on_at split_on_whole f)
qed

lemma seconds_part_read:
  assumes "unat milli < 1000"
  shows "seconds_part (fmt_u32 2 s @ (if milli = 0 then '''' else ''.'' @ fmt_u32 3 milli))
     = Ok (uint s, uint milli)"
proof -
  have f: "CHR ''.'' \<notin> set (zeros w (dec n))" for w n using digits_free [OF zeros_digits] by blast
  have "uint milli < 1000" using u32_below [OF assms] by simp
  then have i: "i64 (uint milli) = uint milli" by (intro i64_id) (auto intro: order_trans [OF _ uint_ge_0])
  show ?thesis
  proof (cases "milli = 0")
    case True
    then show ?thesis
      using date_num_zeros [OF u32_magnitude, of 2 s] by (simp add: seconds_part_def fmt_u32_def split_once_none f)
  next
    case False
    then show ?thesis
      using date_num_zeros [OF u32_magnitude, of 2 s] date_num_zeros [OF u32_magnitude, of 3 milli]
        length_zeros3 [OF assms] i
      by (simp add: seconds_part_def fmt_u32_def split_once_at f Let_def)
  qed
qed

lemma clock_part_checks:
  assumes "unat milli < 1000"
  shows "clock_part bad (fmt_clock h mi s milli)
     = (if unat h \<le> 23 \<and> unat mi \<le> 59 \<and> unat s \<le> 60 then Ok (uint h, uint mi, uint s, uint milli) else Err bad)"
proof -
  define v where "v = fmt_u32 2 s @ (if milli = 0 then '''' else ''.'' @ fmt_u32 3 milli)"
  have f: "CHR '':'' \<notin> set (fmt_u32 w n)" for w n unfolding fmt_u32_def using digits_free [OF zeros_digits] by blast
  have v: "CHR '':'' \<notin> set v" using f by (auto simp: v_def)
  have e: "fmt_clock h mi s milli = fmt_u32 2 h @ CHR '':'' # fmt_u32 2 mi @ CHR '':'' # v"
    by (simp add: fmt_clock_def v_def)
  have sp: "split_on (CHR '':'') (fmt_clock h mi s milli) = [fmt_u32 2 h, fmt_u32 2 mi, v]"
    unfolding e by (simp only: split_on_at [OF f] split_on_whole [OF v])
  have n: "date_num (fmt_u32 2 w) = Ok (uint w)" for w
    using date_num_zeros [OF u32_magnitude, of 2 w] by (simp add: fmt_u32_def)
  have b: "uint w > int k \<longleftrightarrow> \<not> unat w \<le> k" for k and w :: u32 by (metis not_le of_nat_less_iff uint_nat)
  have sv: "seconds_part v = Ok (uint s, uint milli)" unfolding v_def by (rule seconds_part_read [OF assms])
  have ne: "fmt_clock h mi s milli \<noteq> []" by (simp add: e)
  show ?thesis
    unfolding clock_part_def Let_def sp using ne b [of 23] b [of 59] b [of 60] by (simp add: n sv)
qed

text \<open>The parts of a time, as numbers, and the time they make.\<close>

lemma zdiv_less: "0 < b \<Longrightarrow> a < b * k \<Longrightarrow> a div b < k" for a b k :: int
proof (rule ccontr)
  assume b: "0 < b" "a < b * k" and "\<not> a div b < k"
  then have "b * k \<le> b * (a div b)" by simp
  also have "\<dots> \<le> a" using b(1) by (simp add: minus_mod_eq_mult_div [symmetric])
  finally show False using b(2) by simp
qed

lemma time_parts_numbers:
  assumes "time_parts ms = (y, mo, d, h, mi, s, milli)"
  shows "civil_from_days (ms div 86400000) = (y, mo, d)" "unat h \<le> 23" "unat mi \<le> 59" "unat s \<le> 59" "unat milli < 1000"
    "ms = (ms div 86400000) * 86400000 + uint h * 3600000 + uint mi * 60000 + uint s * 1000 + uint milli"
proof -
  define r where "r = ms mod 86400000"
  have r: "0 \<le> r" "r < 86400000" "ms = (ms div 86400000) * 86400000 + r" by (simp_all add: r_def)
  have p: "civil_from_days (ms div 86400000) = (y, mo, d)" "h = word_of_int (r div 3600000)"
    "mi = word_of_int (r div 60000 mod 60)" "s = word_of_int (r div 1000 mod 60)" "milli = word_of_int (r mod 1000)"
    using assms r(1) by (auto simp: time_parts_def split_ms_def r_def tdiv_nonneg split: prod.splits)
  have k: "uint (word_of_int x :: u32) = x \<and> unat (word_of_int x :: u32) < n" if "0 \<le> x" "x < int n" "n \<le> 1000" for x n
  proof -
    have "uint (word_of_int x :: u32) = x" using that by (simp add: uint_word_of_int)
    moreover from this that have "unat (word_of_int x :: u32) < n" by (simp add: unat_eq_nat_uint)
    ultimately show ?thesis by simp
  qed
  have q: "0 \<le> r div 3600000" "r div 3600000 < int 24"
    using r(1) zdiv_less [of 3600000 r 24] r(2) by (simp_all add: pos_imp_zdiv_nonneg_iff)
  have m: "0 \<le> x mod 60" "x mod 60 < int 60" "0 \<le> x mod 1000" "x mod 1000 < int 1000" for x :: int by simp_all
  note k1 = k [OF q] and k2 = k [OF m(1,2)] and k3 = k [OF m(3,4)]
  have u: "uint h = r div 3600000" "uint mi = r div 60000 mod 60" "uint s = r div 1000 mod 60" "uint milli = r mod 1000"
    using k1 k2 k3 unfolding p(2-5) by simp_all
  show "civil_from_days (ms div 86400000) = (y, mo, d)" by (rule p(1))
  show "unat h \<le> 23" "unat mi \<le> 59" "unat s \<le> 59" "unat milli < 1000"
    using k1 k2 [of "r div 60000"] k2 [of "r div 1000"] k3 [of r] unfolding p(2-5) by simp_all
  have "r = r div 3600000 * 3600000 + r div 60000 mod 60 * 60000 + r div 1000 mod 60 * 1000 + r mod 1000"
  proof -
    define a b c where "a = r div 1000" and "b = a div 60" and "c = b div 60"
    have "r div (1000 * 60) = r div 1000 div 60" by (rule zdiv_zmult2_eq) simp
    moreover have "r div (1000 * 60 * 60) = r div (1000 * 60) div 60" by (rule zdiv_zmult2_eq) simp
    ultimately have e: "r div 60000 = b" "r div 3600000 = c" by (simp_all add: a_def b_def c_def)
    have eqs: "r = 1000 * a + r mod 1000" "a = 60 * b + a mod 60" "b = 60 * c + b mod 60"
      by (simp_all add: a_def b_def c_def)
    have sum: "r = c * 3600000 + v * 60000 + w * 1000 + x" if "r = 1000 * a + x" "a = 60 * b + w" "b = 60 * c + v" for v w x
      using that by simp
    show ?thesis unfolding e a_def [symmetric] by (rule sum [OF eqs])
  qed
  moreover have "ms = x * 86400000 + a + b + c + e" if "ms = x * 86400000 + r" "r = a + b + c + e" for x a b c e
    using that by simp
  ultimately show "ms = (ms div 86400000) * 86400000 + uint h * 3600000 + uint mi * 60000 + uint s * 1000 + uint milli"
    using r(3) unfolding u by blast
qed

text \<open>Wrapping at every step and once at the end come to the same.\<close>

lemma i64_add [simp]: "i64 (i64 a + b) = i64 (a + b)" "i64 (a + i64 b) = i64 (a + b)"
  unfolding i64_def by (simp_all add: mod_simps algebra_simps)

lemma i64_diff [simp]: "i64 (i64 a - b) = i64 (a - b)"
  using i64_add(1) [of a "- b"] by simp

lemma i64_below: "i64 x < 2 ^ 63"
  using pos_mod_bound [of "2 ^ 64" "x + 2 ^ 63"] by (simp add: i64_def)

lemma civil_year_below: "civil_from_days z = (y, m, d) \<Longrightarrow> y < 2 ^ 63"
  by (auto simp only: civil_from_days_def Let_def prod.inject i64_below split: if_split)

lemma civil_from_days_back:
  assumes "\<bar>z\<bar> \<le> 2 ^ 57" "civil_from_days z = (y, m, d)"
  shows "days_from_civil y m d = z" "1 \<le> m" "m \<le> 12" "1 \<le> d" "d \<le> 31"
proof -
  obtain y1 m1 d1 where f: "civil_from_days z = (y1, word_of_int m1, word_of_int d1)"
    "on_calendar y1 m1 d1" "days_from_civil y1 (word_of_int m1) (word_of_int d1) = z"
    using day_date [OF assms(1)] by metis
  then show "days_from_civil y m d = z" using assms(2) by simp
  have "1 \<le> m1" "m1 \<le> 12" "1 \<le> d1" "d1 \<le> 31" "uint m = m1" "uint d = d1"
    using f assms(2) on_calendar_uint [OF f(2)] by (auto simp: on_calendar_def month_len_def split: if_splits)
  then show "1 \<le> m" "m \<le> 12" "1 \<le> d" "d \<le> 31" by (simp_all add: word_le_def)
qed

lemma fmt_u32_digits: "all_digits (fmt_u32 w n)"
  by (simp add: fmt_u32_def zeros_digits)

lemma digits_ends: "all_digits s \<Longrightarrow> s \<noteq> [] \<and> is_digit (hd s) \<and> is_digit (last s)"
  by (auto simp: all_digits_def)

text \<open>A clock's text: digits at both ends, so that trimming leaves it.\<close>

lemma fmt_clock_ends: "fmt_clock h mi s milli \<noteq> [] \<and> is_digit (hd (fmt_clock h mi s milli)) \<and> is_digit (last (fmt_clock h mi s milli))"
  using digits_ends [OF fmt_u32_digits] by (simp add: fmt_clock_def hd_append last_append)

lemma date_free:
  assumes "all_digits a" "all_digits b" "all_digits c"
  shows "\<forall>x\<in>set (a @ ''-'' @ b @ ''-'' @ c). \<not> (x = CHR ''T'' \<or> x = CHR ''t'' \<or> x = CHR '' '')"
  using digits_free [OF assms(1)] digits_free [OF assms(2)] digits_free [OF assms(3)] by auto

text \<open>A date, \<open>T\<close>, a clock and \<open>Z\<close>, cut up again.\<close>

lemma time_parse_cut:
  assumes "date \<noteq> []" "\<not> is_space (hd date)" "\<forall>x\<in>set date. \<not> (x = CHR ''T'' \<or> x = CHR ''t'' \<or> x = CHR '' '')"
    and "cl \<noteq> [] \<and> is_digit (hd cl) \<and> is_digit (last cl)"
    and "bad = e_timestamp (date @ ''T'' @ cl @ ''Z'')"
  shows "time_parse (date @ ''T'' @ cl @ ''Z'') =
     and_then (date_part bad date) (\<lambda>(y, mo, d).
       if \<not> (1 \<le> mo \<and> mo \<le> 12) \<or> \<not> (1 \<le> d \<and> d \<le> 31) then Err bad
       else and_then (clock_part bad cl) (\<lambda>(h, mi, s, milli).
         if civil_from_days (days_from_civil y mo d) \<noteq> (y, mo, d) then Err bad
         else Ok (i64 (days_from_civil y mo d * 86400000 + h * 3600000 + mi * 60000 + s * 1000 + milli))))"
proof -
  define t where "t = date @ ''T'' @ cl @ ''Z''"
  have body: "trim (date @ ''T'' @ cl) = date @ ''T'' @ cl"
    by (rule trim_id) (use assms(1,2,4) digit_not in \<open>auto simp: hd_append\<close>)
  have tt: "trim t = t"
    by (rule trim_id) (use assms(1,2) in \<open>auto simp: t_def hd_append is_space_def\<close>)
  have cl: "trim cl = cl" by (rule trim_id) (use assms(4) digit_not in auto)
  have z: "zone bad t = Ok (date @ ''T'' @ cl, 0)" for bad
    by (simp add: zone_def strip_suffix_def t_def butlast_append)
  have sp: "split_once_any (\<lambda>c. c = CHR ''T'' \<or> c = CHR ''t'' \<or> c = CHR '' '') (date @ ''T'' @ cl) = Some (date, cl)"
    using split_any_at [OF assms(3), of "CHR ''T''" cl] by simp
  have dz: "i64 0 = 0" by (simp add: i64_id)
  show ?thesis
    unfolding assms(5) t_def [symmetric] time_parse_def Let_def tt z
    by (simp add: body [simplified] sp [simplified] cl dz cong: if_cong)
qed

text \<open>Whether a date comes back from its day number is whether the calendar has it.\<close>

lemma days_from_civil_shift: "days_from_civil y m d = i64 (days_from_civil y m 1 + (uint d - 1))"
proof -
  have "i64 (i64 (e + (x + (t + u - 1))) - 719468) = i64 (i64 (i64 (e + (x + (t + 1 - 1))) - 719468) + (u - 1))" for e x t u
    by (simp only: i64_add i64_diff) (simp add: algebra_simps)
  then show ?thesis unfolding days_from_civil_def Let_def by simp
qed

lemma day_sum_bound:
  assumes "on_calendar y m d" "\<bar>y\<bar> \<le> 2 ^ 40"
  shows "\<bar>day_sum y m d\<bar> \<le> 2 ^ 56"
proof -
  obtain era c q t u where e: "in_era c q t u" "civil_of era c q t u = (y, m, d)" "\<bar>era\<bar> \<le> \<bar>y\<bar> div 400 + 1"
    by (rule calendar_civil_of [OF assms(1)])
  have "\<bar>y\<bar> div 400 \<le> 2 ^ 40 div 400" using assms(2) by (intro zdiv_mono1) auto
  then have "\<bar>era\<bar> \<le> 2 ^ 32" using e(3) by simp
  then show ?thesis using era_day_sum [OF e(1,2)] era_day_bounds [OF e(1)] by auto
qed

lemma civil_iff:
  fixes m d :: u32
  assumes "\<bar>y\<bar> \<le> 2 ^ 40" "1 \<le> m" "m \<le> 12" "1 \<le> d" "d \<le> 31"
  shows "civil_from_days (days_from_civil y m d) = (y, m, d) \<longleftrightarrow> on_calendar y (uint m) (uint d)"
proof
  assume c: "civil_from_days (days_from_civil y m d) = (y, m, d)"
  have mb: "1 \<le> uint m" "uint m \<le> 12" "1 \<le> uint d" "uint d \<le> 31" using assms(2-5) by (simp_all add: word_le_def)
  then have f: "on_calendar y (uint m) 1" by (auto simp: on_calendar_def month_len_def)
  have "days_from_civil y m 1 = day_sum y (uint m) 1"
    using date_day(2) [OF f] assms(1) by simp
  then have "\<bar>days_from_civil y m 1 + (uint d - 1)\<bar> \<le> 2 ^ 57" using day_sum_bound [OF f assms(1)] mb by (simp add: abs_le_iff)
  then have "\<bar>days_from_civil y m d\<bar> \<le> 2 ^ 57"
    unfolding days_from_civil_shift [of y m d] by (subst i64_id) auto
  then obtain y1 m1 d1 where z: "civil_from_days (days_from_civil y m d) = (y1, word_of_int m1, word_of_int d1)" "on_calendar y1 m1 d1"
    by (rule day_date)
  then show "on_calendar y (uint m) (uint d)" using c on_calendar_uint [OF z(2)] by simp
qed (use dates_are_days assms(1) in simp)

text \<open>
  C35: A time written as ISO 8601 is read back as the same time, to the millisecond, for every
  \<open>i64\<close> of milliseconds whose year is not negative: leap days, times before the epoch and years
  of more than four digits are among them. A time before the year 0 is written with a minus sign,
  which the reader takes for one more part of the date, and is refused.
\<close>

theorem iso_roundtrip:
  assumes "- (2 ^ 63) \<le> ms" and "ms < 2 ^ 63"
  shows "time_parse (format_iso ms) = (if 0 \<le> fst (time_parts ms) then Ok ms else Err (e_timestamp (format_iso ms)))"
proof -
  obtain y mo d h mi s milli where p: "time_parts ms = (y, mo, d, h, mi, s, milli)" by (metis prod_cases7)
  note n = time_parts_numbers [OF p]
  define day where "day = ms div 86400000"
  have cd: "civil_from_days day = (y, mo, d)" using n(1) by (simp add: day_def)
  have "- (2 ^ 57) \<le> day" unfolding day_def using zdiv_mono1 [OF assms(1), of 86400000] by simp
  moreover have "day < 2 ^ 57" unfolding day_def by (rule zdiv_less) (use assms(2) in simp_all)
  ultimately have "\<bar>day\<bar> \<le> 2 ^ 57" by simp
  note b = civil_from_days_back [OF this cd]
  define rest where "rest = fmt_u32 2 mo @ ''-'' @ fmt_u32 2 d"
  define cl where "cl = fmt_clock h mi s milli"
  have e: "format_iso ms = (fmt_int 4 y @ ''-'' @ rest) @ ''T'' @ cl @ ''Z''"
    by (simp add: format_iso_def p rest_def cl_def)
  have free: "\<forall>x\<in>set (fmt_int 4 y @ ''-'' @ rest). \<not> (x = CHR ''T'' \<or> x = CHR ''t'' \<or> x = CHR '' '')"
    using digits_free [OF zeros_digits] digits_free [OF fmt_u32_digits] by (auto simp: rest_def fmt_int_def)
  have hd: "fmt_int 4 y \<noteq> [] \<and> \<not> is_space (hd (fmt_int 4 y))"
    using digits_ends [OF zeros_digits, of 4 "nat y"] digit_not by (auto simp: fmt_int_def is_space_def)
  have cut: "time_parse (format_iso ms) =
     and_then (date_part (e_timestamp (format_iso ms)) (fmt_int 4 y @ ''-'' @ rest)) (\<lambda>(y, mo, d).
       if \<not> (1 \<le> mo \<and> mo \<le> 12) \<or> \<not> (1 \<le> d \<and> d \<le> 31) then Err (e_timestamp (format_iso ms))
       else and_then (clock_part (e_timestamp (format_iso ms)) cl) (\<lambda>(h, mi, s, milli).
         if civil_from_days (days_from_civil y mo d) \<noteq> (y, mo, d) then Err (e_timestamp (format_iso ms))
         else Ok (i64 (days_from_civil y mo d * 86400000 + h * 3600000 + mi * 60000 + s * 1000 + milli))))"
    unfolding e by (rule time_parse_cut) (use hd free fmt_clock_ends in \<open>auto simp: cl_def\<close>)
  show ?thesis
  proof (cases "0 \<le> y")
    case True
    have y: "nat y < i64_magnitude" using True civil_year_below [OF cd] by (simp add: i64_magnitude_def nat_less_iff)
    have "date_part bad (fmt_int 4 y @ ''-'' @ rest) = Ok (y, mo, d)" for bad
      using date_part_read [OF y] True by (simp add: rest_def fmt_int_def)
    moreover have "unat s \<le> 60" using n(4) by simp
    moreover have "i64 (day * 86400000 + uint h * 3600000 + uint mi * 60000 + uint s * 1000 + uint milli) = ms"
      using n(6) assms unfolding day_def by (simp add: i64_id)
    ultimately show ?thesis
      unfolding cut cl_def using clock_part_checks [OF n(5)] n(2,3) b cd True p by simp
  next
    case False
    have f: "CHR ''-'' \<notin> set (zeros w (dec k))" for w k using digits_free [OF zeros_digits] by blast
    have "date_part bad (fmt_int 4 y @ ''-'' @ rest) = Err bad" for bad
      using False by (simp add: rest_def fmt_int_def fmt_u32_def date_part_def split_on_at split_on_whole f)
    then show ?thesis unfolding cut using False p by simp
  qed
qed

theorem iso_roundtrip_witness:
  "format_iso 1789821296789 = ''2026-09-19T12:34:56.789Z'' \<and> time_parse (format_iso 1789821296789) = Ok 1789821296789"
proof
  show "format_iso 1789821296789 = ''2026-09-19T12:34:56.789Z''" by code_simp
  have "0 \<le> fst (time_parts 1789821296789)" by code_simp
  then show "time_parse (format_iso 1789821296789) = Ok 1789821296789" using iso_roundtrip [of 1789821296789] by simp
qed

text \<open>
  C36: The reader takes exactly the dates of the calendar. Of a year, a month and a day in decimal
  digits, with any zeros before them, and a clock, it gives the day the calendar counts for the date
  and the clock's milliseconds on it, where the calendar has the date and the clock has hours to 23, minutes
  to 59 and seconds to 60, and refuses the text where not; years go to \<open>2 ^ 40\<close>. The month and the day are those numbers cut to 32 bits, and the
  milliseconds are wrapped to an \<open>i64\<close>, as the code's casts and sums do: month 4294967297 is January.
\<close>

theorem date_text_is_calendar:
  assumes "y \<le> 2 ^ 40" "m < 2 ^ 63" "d < 2 ^ 63" "unat milli < 1000"
    and "date = zeros a (dec y) @ ''-'' @ zeros b (dec m) @ ''-'' @ zeros c (dec d)"
    and "txt = date @ ''T'' @ fmt_clock h mi s milli @ ''Z''"
    and "mo = int m mod 2 ^ 32" "da = int d mod 2 ^ 32"
  shows "time_parse txt =
     (if on_calendar (int y) mo da \<and> unat h \<le> 23 \<and> unat mi \<le> 59 \<and> unat s \<le> 60
      then Ok (i64 (day_sum (int y) mo da * 86400000 + uint h * 3600000 + uint mi * 60000 + uint s * 1000 + uint milli))
      else Err (e_timestamp txt))"
proof -
  define bad where "bad = e_timestamp txt"
  let ?m = "word_of_nat m :: u32" and ?d = "word_of_nat d :: u32"
  have u: "uint ?m = mo" "uint ?d = da" by (simp_all add: assms(7,8) unsigned_of_nat take_bit_eq_mod zmod_int)
  have dg: "date \<noteq> []" "\<not> is_space (hd date)"
    using digits_ends [OF zeros_digits, of a y] digit_not by (auto simp: assms(5))
  have "date_part bad date = Ok (int y, ?m, ?d)"
    unfolding assms(5) by (rule date_part_numbers)
      (use assms(1-3) in \<open>simp_all add: i64_magnitude_def\<close>)
  moreover have "time_parse txt = and_then (date_part bad date) (\<lambda>(y, mo, d).
       if \<not> (1 \<le> mo \<and> mo \<le> 12) \<or> \<not> (1 \<le> d \<and> d \<le> 31) then Err bad
       else and_then (clock_part bad (fmt_clock h mi s milli)) (\<lambda>(h, mi, s, milli).
         if civil_from_days (days_from_civil y mo d) \<noteq> (y, mo, d) then Err bad
         else Ok (i64 (days_from_civil y mo d * 86400000 + h * 3600000 + mi * 60000 + s * 1000 + milli))))"
    unfolding assms(6) by (rule time_parse_cut [OF dg _ fmt_clock_ends])
      (use date_free [OF zeros_digits zeros_digits zeros_digits] in \<open>simp_all add: assms(5,6) bad_def\<close>)
  ultimately have t: "time_parse txt = (if \<not> (1 \<le> ?m \<and> ?m \<le> 12) \<or> \<not> (1 \<le> ?d \<and> ?d \<le> 31) then Err bad
       else and_then (clock_part bad (fmt_clock h mi s milli)) (\<lambda>(h, mi, s, milli).
         if civil_from_days (days_from_civil (int y) ?m ?d) \<noteq> (int y, ?m, ?d) then Err bad
         else Ok (i64 (days_from_civil (int y) ?m ?d * 86400000 + h * 3600000 + mi * 60000 + s * 1000 + milli))))" by simp
  have yb: "\<bar>int y\<bar> \<le> 2 ^ 40" using assms(1) by (metis abs_of_nat of_nat_le_iff of_nat_numeral of_nat_power)
  show ?thesis
  proof (cases "1 \<le> ?m \<and> ?m \<le> 12 \<and> 1 \<le> ?d \<and> ?d \<le> 31")
    case True
    then have c: "civil_from_days (days_from_civil (int y) ?m ?d) = (int y, ?m, ?d) \<longleftrightarrow> on_calendar (int y) mo da"
      using civil_iff [OF yb, of ?m ?d] u by simp
    have "days_from_civil (int y) ?m ?d = day_sum (int y) mo da" if "on_calendar (int y) mo da"
      using date_day(2) [OF that] yb u [symmetric] by simp
    then show ?thesis unfolding t clock_part_checks [OF assms(4)] using True c by (auto simp: bad_def)
  next
    case False
    have "\<not> on_calendar (int y) mo da"
      using False u by (auto simp: on_calendar_def month_len_def word_le_def split: if_splits)
    then show ?thesis unfolding t using False by (auto simp: bad_def)
  qed
qed

theorem date_text_is_calendar_witness:
  "time_parse ''2024-02-30T00:00:00Z'' = Err (e_timestamp ''2024-02-30T00:00:00Z'')
   \<and> time_parse ''2026-4294967297-01T00:00:00Z'' = Ok (day_sum 2026 1 1 * 86400000)"
proof
  have dec: "dec 2024 = ''2024''" "dec 2 = ''2''" "dec 30 = ''30''" "dec 0 = ''0''" "dec 2026 = ''2026''" "dec 4294967297 = ''4294967297''" "dec (Suc 0) = ''1''"
    by code_simp+
  have n: "\<not> on_calendar 2024 2 30" "on_calendar 2026 1 1" by code_simp+
  show "time_parse ''2024-02-30T00:00:00Z'' = Err (e_timestamp ''2024-02-30T00:00:00Z'')"
    using date_text_is_calendar [of 2024 2 30 0 _ 4 2 2 _ 0 0 0, OF _ _ _ _ refl refl refl refl] n
    by (simp add: dec zeros_def fmt_clock_def fmt_u32_def)
  have "i64 (day_sum 2026 1 1 * 86400000) = day_sum 2026 1 1 * 86400000" by code_simp
  then show "time_parse ''2026-4294967297-01T00:00:00Z'' = Ok (day_sum 2026 1 1 * 86400000)"
    using date_text_is_calendar [of 2026 4294967297 1 0 _ 4 2 2 _ 0 0 0, OF _ _ _ _ refl refl refl refl] n
    by (simp add: dec zeros_def fmt_clock_def fmt_u32_def)
qed

end
