(* ===== verification/Fenec_Compare.thy ===== *)
theory Fenec_Compare
  imports Fenec_Value Fenec_Time_Text
begin

unbundle bit_operations_syntax

text \<open>
  How values compare: \<open>cmp_value\<close> and \<open>type_rank\<close> of \<open>fenec-core/src/value.rs\<close>, which every
  comparison, order and index agrees with, and \<open>compare\<close> of \<open>query.rs\<close> for text compared by its
  bytes. Floats are bit patterns; what Rust does with them here -- \<open>partial_cmp\<close>, \<open>as f64\<close> -- is
  written out on the patterns.
\<close>

section \<open>Floats\<close>

text \<open>
  The value of a bit pattern with \<open>eb\<close> exponent and \<open>mb\<close> significand bits, in units of the least
  value there is: the significand times two to its exponent, the infinities past everything finite.
\<close>

definition float_value :: "nat \<Rightarrow> nat \<Rightarrow> nat \<Rightarrow> int" where
  "float_value eb mb b =
     (let n = b mod 2 ^ (eb + mb); e = n div 2 ^ mb; m = n mod 2 ^ mb;
          v = (if e = 0 then int m else int (2 ^ mb + m) * 2 ^ (e - 1))
      in if b = n then v else - v)"

definition float_nan :: "nat \<Rightarrow> nat \<Rightarrow> nat \<Rightarrow> bool" where
  "float_nan eb mb b \<longleftrightarrow> (let n = b mod 2 ^ (eb + mb) in n div 2 ^ mb = 2 ^ eb - 1 \<and> n mod 2 ^ mb \<noteq> 0)"

definition float_cmp :: "nat \<Rightarrow> nat \<Rightarrow> nat \<Rightarrow> nat \<Rightarrow> ordering option" where
  "float_cmp eb mb a b =
     (if float_nan eb mb a \<or> float_nan eb mb b then None
      else Some (cmp (float_value eb mb a) (float_value eb mb b)))"

definition f64_is_nan :: "f64 \<Rightarrow> bool" where "f64_is_nan a = float_nan 11 52 (unat a)"
definition f64_value :: "f64 \<Rightarrow> int" where "f64_value a = float_value 11 52 (unat a)"

definition f64_partial_cmp :: "f64 \<Rightarrow> f64 \<Rightarrow> ordering option" where
  "f64_partial_cmp a b = float_cmp 11 52 (unat a) (unat b)"

definition f32_partial_cmp :: "f32 \<Rightarrow> f32 \<Rightarrow> ordering option" where
  "f32_partial_cmp a b = float_cmp 8 23 (unat a) (unat b)"

definition or_equal :: "ordering option \<Rightarrow> ordering" where
  "or_equal r = (case r of Some c \<Rightarrow> c | None \<Rightarrow> Equal)"

text \<open>\<open>i as f64\<close>: the nearest double, the even one of two as near.\<close>

definition round_shift :: "nat \<Rightarrow> nat \<Rightarrow> nat" where
  "round_shift k n =
     (let q = n div 2 ^ k; r = n mod 2 ^ k; half = 2 ^ k div 2
      in if k = 0 then n else if half < r \<or> (r = half \<and> odd q) then q + 1 else q)"

definition f64_of_nat :: "nat \<Rightarrow> nat" where
  "f64_of_nat n =
     (if n = 0 then 0
      else let e = bit_len n - 1;
               m = (if e \<le> 52 then n * 2 ^ (52 - e) else round_shift (e - 52) n)
           in (e + 1023) * 2 ^ 52 + (m - 2 ^ 52))"

definition f64_of_int :: "int \<Rightarrow> f64" where
  "f64_of_int i = (if i < 0 then word_of_nat (2 ^ 63 + f64_of_nat (nat (- i))) else word_of_nat (f64_of_nat (nat i)))"

section \<open>A text read as a time\<close>

text \<open>
  The scalar values of a \<open>str\<close>, which is valid UTF-8. The reader of times tells apart the
  characters below 256 and white space; of a scalar value above, white space is handed on as the
  no-break space, which is no separator, and the rest as a letter.
\<close>

fun utf8_scalars :: "bytes \<Rightarrow> nat list" where
  "utf8_scalars (b # c # d # e # bs) =
     (if b < 0x80 then unat b # utf8_scalars (c # d # e # bs)
      else if b < 0xE0 then ((unat b - 0xC0) * 64 + (unat c - 0x80)) # utf8_scalars (d # e # bs)
      else if b < 0xF0 then
        ((unat b - 0xE0) * 4096 + (unat c - 0x80) * 64 + (unat d - 0x80)) # utf8_scalars (e # bs)
      else ((unat b - 0xF0) * 262144 + (unat c - 0x80) * 4096 + (unat d - 0x80) * 64 + (unat e - 0x80))
             # utf8_scalars bs)"
| "utf8_scalars [b, c, d] =
     (if b < 0x80 then unat b # utf8_scalars [c, d]
      else if b < 0xE0 then ((unat b - 0xC0) * 64 + (unat c - 0x80)) # utf8_scalars [d]
      else [(unat b - 0xE0) * 4096 + (unat c - 0x80) * 64 + (unat d - 0x80)])"
| "utf8_scalars [b, c] =
     (if b < 0x80 then unat b # utf8_scalars [c] else [(unat b - 0xC0) * 64 + (unat c - 0x80)])"
| "utf8_scalars [b] = [unat b]"
| "utf8_scalars [] = []"

definition time_char :: "nat \<Rightarrow> char" where
  "time_char n =
     (if n < 256 then char_of n
      else if n = 0x1680 \<or> (0x2000 \<le> n \<and> n \<le> 0x200A) \<or> n \<in> {0x2028, 0x2029, 0x202F, 0x205F, 0x3000}
      then char_of (160 :: nat) else char_of (255 :: nat))"

definition parse_time :: "bytes \<Rightarrow> int option" where
  "parse_time t = ok_opt (time_parse (map time_char (utf8_scalars t)))"

section \<open>The order of values\<close>

fun type_rank :: "val \<Rightarrow> nat" where
  "type_rank VNull = 0" | "type_rank (VBool _) = 1"
| "type_rank (VInt _) = 2" | "type_rank (VFloat _) = 2" | "type_rank (VTimestamp _) = 2"
| "type_rank (VText _) = 3" | "type_rank (VBytes _) = 3"
| "type_rank (VVector _) = 4" | "type_rank (VList _) = 5" | "type_rank (VSparse _ _) = 6" | "type_rank (VObject _) = 7"

fun as_f64 :: "val \<Rightarrow> f64 option" where
  "as_f64 (VInt i) = Some (f64_of_int (sint i))"
| "as_f64 (VTimestamp i) = Some (f64_of_int (sint i))"
| "as_f64 (VFloat f) = Some f"
| "as_f64 _ = None"

definition cmp_other :: "val \<Rightarrow> val \<Rightarrow> ordering" where
  "cmp_other a b =
     (case (as_f64 a, as_f64 b) of
        (Some x, Some y) \<Rightarrow> or_equal (f64_partial_cmp x y)
      | _ \<Rightarrow> cmp (type_rank a) (type_rank b))"

text \<open>The first of a zip that is not \<open>Equal\<close>.\<close>

fun first_diff :: "('a \<Rightarrow> ordering) list \<Rightarrow> 'a list \<Rightarrow> ordering" where
  "first_diff (f # fs) (y # ys) = then_ord (f y) (first_diff fs ys)"
| "first_diff _ _ = Equal"

primrec cmp_value :: "val \<Rightarrow> val \<Rightarrow> ordering" where
  "cmp_value VNull = (\<lambda>r. case r of VNull \<Rightarrow> Equal | _ \<Rightarrow> Less)"
| "cmp_value (VBool a) = (\<lambda>r. case r of VNull \<Rightarrow> Greater | VBool b \<Rightarrow> cmp a b | _ \<Rightarrow> cmp_other (VBool a) r)"
| "cmp_value (VInt a) =
     (\<lambda>r. case r of VNull \<Rightarrow> Greater | VInt b \<Rightarrow> cmp (sint a) (sint b) | _ \<Rightarrow> cmp_other (VInt a) r)"
| "cmp_value (VFloat a) = (\<lambda>r. case r of VNull \<Rightarrow> Greater | _ \<Rightarrow> cmp_other (VFloat a) r)"
| "cmp_value (VText a) =
     (\<lambda>r. case r of VNull \<Rightarrow> Greater | VText b \<Rightarrow> cmp a b | VBytes b \<Rightarrow> cmp a b
        | VTimestamp b \<Rightarrow> (case parse_time a of Some ms \<Rightarrow> cmp ms (sint b) | None \<Rightarrow> Greater)
        | _ \<Rightarrow> cmp_other (VText a) r)"
| "cmp_value (VBytes a) =
     (\<lambda>r. case r of VNull \<Rightarrow> Greater | VBytes b \<Rightarrow> cmp a b | VText b \<Rightarrow> cmp a b | _ \<Rightarrow> cmp_other (VBytes a) r)"
| "cmp_value (VTimestamp a) =
     (\<lambda>r. case r of VNull \<Rightarrow> Greater | VTimestamp b \<Rightarrow> cmp (sint a) (sint b)
        | VText b \<Rightarrow> (case parse_time b of Some ms \<Rightarrow> cmp (sint a) ms | None \<Rightarrow> Less)
        | _ \<Rightarrow> cmp_other (VTimestamp a) r)"
| "cmp_value (VVector a) =
     (\<lambda>r. case r of VNull \<Rightarrow> Greater
        | VVector b \<Rightarrow> then_ord (first_diff (map (\<lambda>x y. or_equal (f32_partial_cmp x y)) a) b) (cmp (length a) (length b))
        | _ \<Rightarrow> cmp_other (VVector a) r)"
| "cmp_value (VList a) =
     (\<lambda>r. case r of VNull \<Rightarrow> Greater
        | VList b \<Rightarrow> then_ord (first_diff (map cmp_value a) b) (cmp (length a) (length b))
        | _ \<Rightarrow> cmp_other (VList a) r)"
| "cmp_value (VSparse d a) =
     (\<lambda>r. case r of VNull \<Rightarrow> Greater
        | VSparse e b \<Rightarrow>
            then_ord (first_diff (map (\<lambda>x y. then_ord (cmp (fst x) (fst y)) (or_equal (f32_partial_cmp (snd x) (snd y)))) a) b)
              (then_ord (cmp (length a) (length b)) (cmp d e))
        | _ \<Rightarrow> cmp_other (VSparse d a) r)"
| "cmp_value (VObject a) =
     (\<lambda>r. case r of VNull \<Rightarrow> Greater
        | VObject b \<Rightarrow>
            then_ord (first_diff (map (\<lambda>(k, f) y. then_ord (cmp k (fst y)) (f (snd y))) (map (map_prod id cmp_value) a)) b)
              (cmp (length a) (length b))
        | _ \<Rightarrow> cmp_other (VObject a) r)"

datatype cmp_op = Eq | Ne | Lt | Le | Gt | Ge

definition op_holds :: "cmp_op \<Rightarrow> ordering \<Rightarrow> bool" where
  "op_holds oper ord =
     (case oper of Eq \<Rightarrow> ord = Equal | Ne \<Rightarrow> ord \<noteq> Equal | Lt \<Rightarrow> ord = Less | Le \<Rightarrow> ord \<noteq> Greater
      | Gt \<Rightarrow> ord = Greater | Ge \<Rightarrow> ord \<noteq> Less)"

definition compare :: "cmp_op \<Rightarrow> val \<Rightarrow> val \<Rightarrow> bool" where
  "compare oper l r =
     (if is_null l \<or> is_null r then
        (case oper of Eq \<Rightarrow> is_null l \<and> is_null r | Ne \<Rightarrow> is_null l \<noteq> is_null r | _ \<Rightarrow> False)
      else op_holds oper (cmp_value l r))"

end
