(* ===== verification/Fenec_Sorted.thy ===== *)
theory Fenec_Sorted
  imports Fenec_Chunked Fenec_Compare Fenec_Id_Index
begin

unbundle bit_operations_syntax

text \<open>
  The ordered index behind \<open>@sorted\<close> (\<open>SortedIndex\<close>, \<open>Ordered\<close>, \<open>JsonOrdered\<close>, \<open>Range\<close> and the keys
  of \<open>fenec-core/src/sorted.rs\<close>): keys that order as the values do, the nulls, the NaNs and what has
  no key apart, ranges narrowed one comparison at a time, and the walk of an ordered page. Text is
  compared by its bytes: a collation or a case fold is another order and is not modelled. The bytes
  counted for a memory limit are left out.
\<close>

section \<open>Keys\<close>

definition orderable :: "data_type \<Rightarrow> bool" where
  "orderable ty \<longleftrightarrow> (case ty of TInt \<Rightarrow> True | TFloat \<Rightarrow> True | TTimestamp \<Rightarrow> True | TText \<Rightarrow> True | TJson \<Rightarrow> True | _ \<Rightarrow> False)"

definition int_key :: "i64 \<Rightarrow> u64" where
  "int_key i = i XOR push_bit 63 1"

definition float_key :: "f64 \<Rightarrow> u64" where
  "float_key f =
     (let b = (if f64_partial_cmp f 0 = Some Equal then 0 else f)
      in if drop_bit 63 b = 1 then NOT b else b OR push_bit 63 1)"

datatype 'k slot = Key 'k | Null | Nan

fun num_slot :: "val option \<Rightarrow> u64 slot" where
  "num_slot (Some (VInt i)) = Key (int_key i)"
| "num_slot (Some (VTimestamp i)) = Key (int_key i)"
| "num_slot (Some (VFloat f)) = (if f64_is_nan f then Nan else Key (float_key f))"
| "num_slot _ = Null"

fun text_slot :: "val option \<Rightarrow> bytes slot" where
  "text_slot (Some (VText t)) = Key t"
| "text_slot _ = Null"

datatype jslot = Json_num u64 | Json_text bytes | Json_null | Json_apart

definition json_exact :: int where "json_exact = 2 ^ 53"

fun json_slot :: "val option \<Rightarrow> jslot" where
  "json_slot (Some (VInt i)) =
     (if \<bar>sint i\<bar> \<le> json_exact then Json_num (float_key (f64_of_int (sint i))) else Json_apart)"
| "json_slot (Some (VFloat f)) = (if f64_is_nan f then Json_apart else Json_num (float_key f))"
| "json_slot (Some (VText t)) = Json_text t"
| "json_slot None = Json_null"
| "json_slot (Some VNull) = Json_null"
| "json_slot (Some _) = Json_apart"

section \<open>The entries of a field\<close>

text \<open>The order of an entry, \<open>(K, DocId)\<close>: the key, and the id where the keys are one.\<close>

definition entry_cmp :: "('k::linorder \<times> docid) \<Rightarrow> ('k \<times> docid) \<Rightarrow> ordering" where
  "entry_cmp a b = then_ord (cmp (fst a) (fst b)) (cmp (snd a) (snd b))"

record 'k ordered =
  o_keys :: "('k \<times> docid) chunked"
  o_nulls :: "('k \<times> docid) chunked"
  o_nans :: "('k \<times> docid) chunked"

definition o_new :: "'k ordered" where
  "o_new = \<lparr>o_keys = ch_new, o_nulls = ch_new, o_nans = ch_new\<rparr>"

definition o_from_sorted :: "('k \<times> docid) list \<Rightarrow> ('k \<times> docid) list \<Rightarrow> ('k \<times> docid) list \<Rightarrow> 'k ordered" where
  "o_from_sorted ks nulls nans =
     \<lparr>o_keys = ch_from_sorted ks, o_nulls = ch_from_sorted nulls, o_nans = ch_from_sorted nans\<rparr>"

text \<open>Where a row goes, and where it is taken from: \<open>dflt\<close> is the key type's default.\<close>

definition o_insert :: "'k::linorder \<Rightarrow> docid \<Rightarrow> 'k slot \<Rightarrow> 'k ordered \<Rightarrow> 'k ordered result" where
  "o_insert dflt i sl ox =
     (case sl of
        Key k \<Rightarrow> map_ok (\<lambda>(c, _). ox\<lparr>o_keys := c\<rparr>) (ch_insert entry_cmp (k, i) (o_keys ox))
      | Null \<Rightarrow> map_ok (\<lambda>(c, _). ox\<lparr>o_nulls := c\<rparr>) (ch_insert entry_cmp (dflt, i) (o_nulls ox))
      | Nan \<Rightarrow> map_ok (\<lambda>(c, _). ox\<lparr>o_nans := c\<rparr>) (ch_insert entry_cmp (dflt, i) (o_nans ox)))"

definition o_remove :: "'k::linorder \<Rightarrow> docid \<Rightarrow> 'k slot \<Rightarrow> 'k ordered \<Rightarrow> 'k ordered result" where
  "o_remove dflt i sl ox =
     (case sl of
        Key k \<Rightarrow> map_ok (\<lambda>(c, _). ox\<lparr>o_keys := c\<rparr>) (ch_remove entry_cmp (k, i) (o_keys ox))
      | Null \<Rightarrow> map_ok (\<lambda>(c, _). ox\<lparr>o_nulls := c\<rparr>) (ch_remove entry_cmp (dflt, i) (o_nulls ox))
      | Nan \<Rightarrow> map_ok (\<lambda>(c, _). ox\<lparr>o_nans := c\<rparr>) (ch_remove entry_cmp (dflt, i) (o_nans ox)))"

section \<open>Bounds and ranges\<close>

datatype key = Key_num u64 | Key_text bytes

record range =
  r_lo :: "key bound"
  r_hi :: "key bound"
  r_strict :: bool

definition range_all :: range where
  "range_all = \<lparr>r_lo = Unbounded, r_hi = Unbounded, r_strict = False\<rparr>"

fun key_cmp :: "key \<Rightarrow> key \<Rightarrow> ordering" where
  "key_cmp (Key_num x) (Key_num y) = cmp x y"
| "key_cmp (Key_text x) (Key_text y) = cmp x y"
| "key_cmp (Key_num _) (Key_text _) = Less"
| "key_cmp (Key_text _) (Key_num _) = Greater"

definition bound_cmp :: "key bound \<Rightarrow> key bound \<Rightarrow> bool \<Rightarrow> ordering" where
  "bound_cmp a b lower =
     (let unbounded = (if lower then Less else Greater) in
      case (a, b) of
        (Unbounded, Unbounded) \<Rightarrow> Equal
      | (Unbounded, _) \<Rightarrow> unbounded
      | (_, Unbounded) \<Rightarrow> reverse_ord unbounded
      | (Included x, Included y) \<Rightarrow> key_cmp x y
      | (Excluded x, Excluded y) \<Rightarrow> key_cmp x y
      | (Excluded x, Included y) \<Rightarrow> then_ord (key_cmp x y) (if lower then Greater else Less)
      | (Included x, Excluded y) \<Rightarrow> then_ord (key_cmp x y) (if lower then Less else Greater))"

definition tighten_lo :: "key bound \<Rightarrow> range \<Rightarrow> range" where
  "tighten_lo b r = (if bound_cmp b (r_lo r) True = Greater then r\<lparr>r_lo := b\<rparr> else r)"

definition tighten_hi :: "key bound \<Rightarrow> range \<Rightarrow> range" where
  "tighten_hi b r = (if bound_cmp b (r_hi r) False = Less then r\<lparr>r_hi := b\<rparr> else r)"

definition narrow :: "cmp_op \<Rightarrow> key \<Rightarrow> range \<Rightarrow> range" where
  "narrow oper k r =
     (case oper of
        Eq \<Rightarrow> tighten_hi (Included k) (tighten_lo (Included k) r)
      | Ge \<Rightarrow> tighten_lo (Included k) r
      | Gt \<Rightarrow> tighten_lo (Excluded k) (r\<lparr>r_strict := True\<rparr>)
      | Le \<Rightarrow> tighten_hi (Included k) r
      | Lt \<Rightarrow> tighten_hi (Excluded k) (r\<lparr>r_strict := True\<rparr>)
      | Ne \<Rightarrow> r)"

definition range_close :: "data_type \<Rightarrow> range \<Rightarrow> range" where
  "range_close ty r = narrow Lt (case ty of TText \<Rightarrow> Key_text [] | _ \<Rightarrow> Key_num 0) r"

text \<open>The ends of a range among the entries, by what the key is: \<open>num_bound\<close> and \<open>text_bound\<close>.\<close>

fun end_bound :: "(key \<Rightarrow> 'k option) \<Rightarrow> bool \<Rightarrow> key bound \<Rightarrow> ('k \<times> docid) bound" where
  "end_bound sel lower (Included k) =
     (case sel k of Some k \<Rightarrow> Included (k, if lower then 0 else docid_max) | None \<Rightarrow> Unbounded)"
| "end_bound sel lower (Excluded k) =
     (case sel k of Some k \<Rightarrow> Excluded (k, if lower then docid_max else 0) | None \<Rightarrow> Unbounded)"
| "end_bound sel lower Unbounded = Unbounded"

fun num_of :: "key \<Rightarrow> u64 option" where
  "num_of (Key_num n) = Some n"
| "num_of (Key_text _) = None"

fun text_of :: "key \<Rightarrow> bytes option" where
  "text_of (Key_text t) = Some t"
| "text_of (Key_num _) = None"

abbreviation num_bound :: "bool \<Rightarrow> key bound \<Rightarrow> (u64 \<times> docid) bound" where
  "num_bound \<equiv> end_bound num_of"

abbreviation text_bound :: "bool \<Rightarrow> key bound \<Rightarrow> (bytes \<times> docid) bound" where
  "text_bound \<equiv> end_bound text_of"

section \<open>The index\<close>

record json_ordered =
  j_num :: "u64 ordered"
  j_text :: "bytes ordered"
  j_apart :: "(u64 \<times> docid) chunked"

datatype sorted_index = Num "u64 ordered" | Text "bytes ordered" | Json json_ordered

definition si_new :: "data_type \<Rightarrow> sorted_index" where
  "si_new ty =
     (case ty of
        TText \<Rightarrow> Text o_new
      | TJson \<Rightarrow> Json \<lparr>j_num = o_new, j_text = o_new, j_apart = ch_new\<rparr>
      | _ \<Rightarrow> Num o_new)"

fun si_insert :: "docid \<Rightarrow> val option \<Rightarrow> sorted_index \<Rightarrow> sorted_index result" where
  "si_insert i v (Num ox) = map_ok Num (o_insert 0 i (num_slot v) ox)"
| "si_insert i v (Text ox) = map_ok Text (o_insert [] i (text_slot v) ox)"
| "si_insert i v (Json j) =
     (case json_slot v of
        Json_num k \<Rightarrow> map_ok (\<lambda>ox. Json (j\<lparr>j_num := ox\<rparr>)) (o_insert 0 i (Key k) (j_num j))
      | Json_text k \<Rightarrow> map_ok (\<lambda>ox. Json (j\<lparr>j_text := ox\<rparr>)) (o_insert [] i (Key k) (j_text j))
      | Json_null \<Rightarrow> map_ok (\<lambda>ox. Json (j\<lparr>j_num := ox\<rparr>)) (o_insert 0 i Null (j_num j))
      | Json_apart \<Rightarrow> map_ok (\<lambda>(c, _). Json (j\<lparr>j_apart := c\<rparr>)) (ch_insert entry_cmp (0, i) (j_apart j)))"

fun si_remove :: "docid \<Rightarrow> val option \<Rightarrow> sorted_index \<Rightarrow> sorted_index result" where
  "si_remove i v (Num ox) = map_ok Num (o_remove 0 i (num_slot v) ox)"
| "si_remove i v (Text ox) = map_ok Text (o_remove [] i (text_slot v) ox)"
| "si_remove i v (Json j) =
     (case json_slot v of
        Json_num k \<Rightarrow> map_ok (\<lambda>ox. Json (j\<lparr>j_num := ox\<rparr>)) (o_remove 0 i (Key k) (j_num j))
      | Json_text k \<Rightarrow> map_ok (\<lambda>ox. Json (j\<lparr>j_text := ox\<rparr>)) (o_remove [] i (Key k) (j_text j))
      | Json_null \<Rightarrow> map_ok (\<lambda>ox. Json (j\<lparr>j_num := ox\<rparr>)) (o_remove 0 i Null (j_num j))
      | Json_apart \<Rightarrow> map_ok (\<lambda>(c, _). Json (j\<lparr>j_apart := c\<rparr>)) (ch_remove entry_cmp (0, i) (j_apart j)))"

fun has_nan :: "sorted_index \<Rightarrow> bool" where
  "has_nan (Num ox) = (\<not> ch_is_empty (o_nans ox))"
| "has_nan (Text _) = False"
| "has_nan (Json j) = (\<not> ch_is_empty (j_apart j))"

fun answers :: "sorted_index \<Rightarrow> bool" where
  "answers (Json j) = ch_is_empty (j_apart j)"
| "answers _ = True"

text \<open>The key a literal compares as against the field, where the key space says it.\<close>

definition si_bound :: "data_type \<Rightarrow> val \<Rightarrow> key option" where
  "si_bound ty v =
     (case ty of
        TInt \<Rightarrow> (case v of VInt i \<Rightarrow> Some (Key_num (int_key i)) | _ \<Rightarrow> None)
      | TTimestamp \<Rightarrow>
          (case v of
             VTimestamp ms \<Rightarrow> Some (Key_num (int_key ms))
           | VInt ms \<Rightarrow> if \<bar>sint ms\<bar> \<le> 2 ^ 53 then Some (Key_num (int_key ms)) else None
           | VText t \<Rightarrow> map_option (\<lambda>ms. Key_num (int_key (word_of_int ms))) (parse_time t)
           | _ \<Rightarrow> None)
      | TFloat \<Rightarrow>
          (case v of
             VFloat f \<Rightarrow> if f64_is_nan f then None else Some (Key_num (float_key f))
           | VInt i \<Rightarrow> Some (Key_num (float_key (f64_of_int (sint i))))
           | _ \<Rightarrow> None)
      | TText \<Rightarrow> (case v of VText t \<Rightarrow> Some (Key_text t) | _ \<Rightarrow> None)
      | TJson \<Rightarrow> (case json_slot (Some v) of Json_num k \<Rightarrow> Some (Key_num k) | Json_text t \<Rightarrow> Some (Key_text t) | _ \<Rightarrow> None)
      | _ \<Rightarrow> None)"

text \<open>A literal whose kind alone decides the comparison.\<close>

definition is_number :: "data_type \<Rightarrow> bool" where
  "is_number ty \<longleftrightarrow> (case ty of TInt \<Rightarrow> True | TFloat \<Rightarrow> True | TTimestamp \<Rightarrow> True | _ \<Rightarrow> False)"

fun is_high :: "val \<Rightarrow> bool" where
  "is_high (VVector _) = True" | "is_high (VList _) = True" | "is_high (VSparse _ _) = True" | "is_high (VObject _) = True"
| "is_high _ = False"

definition kind_rank :: "data_type \<Rightarrow> val \<Rightarrow> ordering option" where
  "kind_rank ty v =
     (case v of
        VBool _ \<Rightarrow> if is_number ty \<or> ty = TText then Some Greater else None
      | VText t \<Rightarrow>
          (case ty of TInt \<Rightarrow> Some Less | TFloat \<Rightarrow> Some Less
           | TTimestamp \<Rightarrow> if parse_time t = None then Some Less else None | _ \<Rightarrow> None)
      | VBytes b \<Rightarrow>
          (case ty of TInt \<Rightarrow> Some Less | TFloat \<Rightarrow> Some Less | TTimestamp \<Rightarrow> Some Less
           | TText \<Rightarrow> if b \<noteq> [] \<and> hd b = 0xFF then Some Less else None | _ \<Rightarrow> None)
      | VInt _ \<Rightarrow> if ty = TText then Some Greater else None
      | VFloat _ \<Rightarrow> if ty = TText then Some Greater else None
      | _ \<Rightarrow> if is_high v \<and> (is_number ty \<or> ty = TText) then Some Less else None)"

definition by_kind :: "data_type \<Rightarrow> cmp_op \<Rightarrow> val \<Rightarrow> bool option" where
  "by_kind ty oper v =
     map_option (\<lambda>rank. case oper of Eq \<Rightarrow> False | Ne \<Rightarrow> True | Lt \<Rightarrow> rank = Less | Le \<Rightarrow> rank = Less
       | Gt \<Rightarrow> rank = Greater | Ge \<Rightarrow> rank = Greater) (kind_rank ty v)"

text \<open>A range over a json index: the ends of its numbers and of its texts, where it holds any.\<close>

fun is_text :: "key bound \<Rightarrow> bool" where
  "is_text (Included (Key_text _)) = True" | "is_text (Excluded (Key_text _)) = True" | "is_text _ = False"

fun is_num :: "key bound \<Rightarrow> bool" where
  "is_num (Included (Key_num _)) = True" | "is_num (Excluded (Key_num _)) = True" | "is_num _ = False"

definition json_nums :: "range option \<Rightarrow> ((u64 \<times> docid) bound \<times> (u64 \<times> docid) bound) option" where
  "json_nums r =
     (case r of
        None \<Rightarrow> Some (Unbounded, Unbounded)
      | Some r \<Rightarrow> if is_text (r_lo r) then None
          else Some (num_bound True (r_lo r), if is_text (r_hi r) then Unbounded else num_bound False (r_hi r)))"

definition json_texts :: "range option \<Rightarrow> ((bytes \<times> docid) bound \<times> (bytes \<times> docid) bound) option" where
  "json_texts r =
     (case r of
        None \<Rightarrow> Some (Unbounded, Unbounded)
      | Some r \<Rightarrow> if is_num (r_hi r) then None
          else Some (if is_num (r_lo r) then Unbounded else text_bound True (r_lo r), text_bound False (r_hi r)))"

text \<open>\<open>take\<close> of \<open>range_ids\<close>: ids pushed until more than the cap turn up.\<close>

fun take_ids :: "nat \<Rightarrow> docid list option \<Rightarrow> docid list \<Rightarrow> docid list option" where
  "take_ids cap None is = None"
| "take_ids cap (Some out) [] = Some out"
| "take_ids cap (Some out) (i # is) = (if cap \<le> length out then None else take_ids cap (Some (out @ [i])) is)"

definition take_range :: "nat \<Rightarrow> ('k::linorder \<times> docid) bound \<Rightarrow> ('k \<times> docid) bound \<Rightarrow> ('k \<times> docid) chunked
    \<Rightarrow> docid list option \<Rightarrow> docid list option result" where
  "take_range cap lo hi c out =
     (if out = None then Ok None else map_ok (\<lambda>es. take_ids cap out (map snd es)) (ch_range entry_cmp lo hi c))"

fun range_ids :: "range \<Rightarrow> nat \<Rightarrow> sorted_index \<Rightarrow> docid list option result" where
  "range_ids r cap (Num ox) =
     take_range cap (num_bound True (r_lo r)) (num_bound False (r_hi r)) (o_keys ox)
       (take_ids cap (Some []) (if r_strict r then [] else map snd (ch_iter (o_nans ox))))"
| "range_ids r cap (Text ox) =
     take_range cap (text_bound True (r_lo r)) (text_bound False (r_hi r)) (o_keys ox) (Some [])"
| "range_ids r cap (Json j) =
     and_then (case json_nums (Some r) of None \<Rightarrow> Ok (Some [])
       | Some (lo, hi) \<Rightarrow> take_range cap lo hi (o_keys (j_num j)) (Some [])) (\<lambda>out.
     case json_texts (Some r) of None \<Rightarrow> Ok out
       | Some (lo, hi) \<Rightarrow> take_range cap lo hi (o_keys (j_text j)) out)"

section \<open>Walks\<close>

text \<open>\<open>emit\<close> changes its own state and says whether to go on.\<close>

type_synonym 's emit = "docid \<Rightarrow> 's \<Rightarrow> 's \<times> bool result"

fun emit_each :: "'s emit \<Rightarrow> docid list \<Rightarrow> 's \<Rightarrow> 's \<times> bool result" where
  "emit_each emit [] st = (st, Ok True)"
| "emit_each emit (i # is) st =
     (case emit i st of
        (st, Ok True) \<Rightarrow> emit_each emit is st
      | r \<Rightarrow> r)"

definition and_emit :: "('s \<Rightarrow> 's \<times> bool result) \<Rightarrow> ('s \<Rightarrow> 's \<times> bool result) \<Rightarrow> 's \<Rightarrow> 's \<times> bool result" where
  "and_emit f g st = (case f st of (st, Ok True) \<Rightarrow> g st | r \<Rightarrow> r)"

text \<open>The descending walk: each run of one key gathered, then handed over reversed.\<close>

fun desc_loop :: "'s emit \<Rightarrow> ('k \<times> docid) list \<Rightarrow> docid list \<Rightarrow> 'k option \<Rightarrow> 's \<Rightarrow> 's \<times> bool result" where
  "desc_loop emit [] run run_key st = emit_each emit (rev run) st"
| "desc_loop emit ((k, i) # es) run run_key st =
     (if run_key \<noteq> Some k
      then and_emit (emit_each emit (rev run)) (desc_loop emit es [i] (Some k)) st
      else desc_loop emit es (run @ [i]) run_key st)"

definition walk_bounded ::
    "'k::linorder ordered \<Rightarrow> ('k \<times> docid) bound \<Rightarrow> ('k \<times> docid) bound \<Rightarrow> bool \<Rightarrow> bool \<Rightarrow> 's emit \<Rightarrow> 's \<Rightarrow> 's \<times> bool result" where
  "walk_bounded ox lo hi with_nulls desc emit =
     (let nulls = emit_each emit (if with_nulls then map snd (ch_iter (o_nulls ox)) else [])
      in if \<not> desc then and_emit nulls (\<lambda>st. case ch_range entry_cmp lo hi (o_keys ox) of
             Ok es \<Rightarrow> emit_each emit (map snd es) st | Err e \<Rightarrow> (st, Err e) | Panic \<Rightarrow> (st, Panic))
         else and_emit (\<lambda>st. case ch_range entry_cmp lo hi (o_keys ox) of
             Ok es \<Rightarrow> desc_loop emit (rev es) [] None st | Err e \<Rightarrow> (st, Err e) | Panic \<Rightarrow> (st, Panic)) nulls)"

fun walk_parts :: "bool \<Rightarrow> range option \<Rightarrow> 's emit \<Rightarrow> sorted_index \<Rightarrow> 's \<Rightarrow> 's \<times> bool result" where
  "walk_parts desc r emit (Num ox) =
     walk_bounded ox (case r of None \<Rightarrow> Unbounded | Some r \<Rightarrow> num_bound True (r_lo r))
         (case r of None \<Rightarrow> Unbounded | Some r \<Rightarrow> num_bound False (r_hi r)) (r = None) desc emit"
| "walk_parts desc r emit (Text ox) =
     walk_bounded ox (case r of None \<Rightarrow> Unbounded | Some r \<Rightarrow> text_bound True (r_lo r))
         (case r of None \<Rightarrow> Unbounded | Some r \<Rightarrow> text_bound False (r_hi r)) (r = None) desc emit"
| "walk_parts desc r emit (Json j) =
     (let nums = (case json_nums r of None \<Rightarrow> (\<lambda>st. (st, Ok True))
            | Some (lo, hi) \<Rightarrow> walk_bounded (j_num j) lo hi (r = None) desc emit);
          texts = (case json_texts r of None \<Rightarrow> (\<lambda>st. (st, Ok True))
            | Some (lo, hi) \<Rightarrow> walk_bounded (j_text j) lo hi False desc emit)
      in if \<not> desc then and_emit nums texts else and_emit texts nums)"

definition si_walk :: "bool \<Rightarrow> range option \<Rightarrow> 's emit \<Rightarrow> sorted_index \<Rightarrow> 's \<Rightarrow> 's \<times> unit result" where
  "si_walk desc r emit ix st = map_prod id (map_ok (\<lambda>_. ())) (walk_parts desc r emit ix st)"

end
