(* ===== verification/Fenec_Sorted_Laws.thy ===== *)
theory Fenec_Sorted_Laws
  imports Fenec_Sorted
begin

unbundle bit_operations_syntax

text \<open>
  What the ordered index promises: every answer is the one the scan gives, row for row. Keys order
  as \<open>cmp_value\<close> orders the values they stand for; the index, over any writes, holds each row in its
  slot; a range narrowed by comparisons holds exactly the rows they hold of; a walk is the rows in
  order, ties by ascending id both ways.
\<close>

interpretation entry: entry_order "entry_cmp :: ('k::linorder \<times> docid) \<Rightarrow> _"
proof
  show "entry_cmp a b = Equal \<longleftrightarrow> a = b" for a b :: "'k \<times> docid"
    by (auto simp: entry_cmp_def prod_eq_iff)
  show "entry_cmp a b = Greater \<longleftrightarrow> entry_cmp b a = Less" for a b :: "'k \<times> docid"
    by (cases "fst a" "fst b" rule: linorder_cases) (auto simp: entry_cmp_def cmp_def)
  show "entry_cmp a b = Less \<Longrightarrow> entry_cmp b c = Less \<Longrightarrow> entry_cmp a c = Less" for a b c :: "'k \<times> docid"
    by (auto simp: entry_cmp_def cmp_def split: if_splits)
qed

section \<open>Keys order as values\<close>

lemma half_div: "unat w div 2 ^ 63 = (if 2 ^ 63 \<le> unat w then 1 else 0)" for w :: u64
proof (cases "2 ^ 63 \<le> unat w")
  case True
  have "unat w < 2 * 2 ^ 63" using unat_u64_lt [of w] by simp
  with True have "unat w div 2 ^ 63 = Suc ((unat w - 2 ^ 63) div 2 ^ 63)" by (simp only: le_div_geq)
  moreover have "(unat w - 2 ^ 63) div 2 ^ 63 = 0" using \<open>unat w < 2 * 2 ^ 63\<close> True by (intro div_less) linarith
  ultimately show ?thesis using True by simp
qed simp

lemma top_bit: "bit w 63 \<longleftrightarrow> 2 ^ 63 \<le> unat w" for w :: u64
proof -
  have "bit w 63 \<longleftrightarrow> odd (unat w div 2 ^ 63)" 
  proof -
    have "bit w 63 \<longleftrightarrow> bit (unat w) 63" by (simp add: bit_unsigned_iff)
    then show ?thesis by (simp only: bit_iff_odd)
  qed
  moreover have "unat w div 2 ^ 63 = (if 2 ^ 63 \<le> unat w then 1 else 0)"
    by (rule half_div)
  ultimately show ?thesis by simp
qed

lemma sint_nat: "sint w = (if 2 ^ 63 \<le> unat w then int (unat w) - 2 ^ 64 else int (unat w))" for w :: u64
proof -
  have "bit (uint w) 63 \<longleftrightarrow> 2 ^ 63 \<le> unat w" using top_bit [of w] by (simp add: bit_uint_iff)
  moreover have "take_bit 64 (uint w) = uint w"
    using unsigned_less [of w, where ?'a = int] by (simp add: take_bit_int_eq_self)
  ultimately show ?thesis by (simp add: sint_uint signed_take_bit_eq_take_bit_minus)
qed

lemma unat_add_top: "unat w < 2 ^ 63 \<Longrightarrow> unat (w + push_bit 63 1) = unat w + 2 ^ 63" for w :: u64
  by (simp add: unat_word_ariths)

lemma unat_or_top: "unat w < 2 ^ 63 \<Longrightarrow> unat (w OR push_bit 63 1) = unat w + 2 ^ 63" for w :: u64
proof -
  assume w: "unat w < 2 ^ 63"
  then have "\<not> bit w 63" by (simp add: top_bit)
  then have "w OR push_bit 63 1 = w + push_bit 63 1"
    using set_bit_eq [of 63 w] by (simp add: set_bit_def)
  then show ?thesis using unat_add_top [OF w] by simp
qed

lemma int_key_value: "int (unat (int_key i)) = sint i + 2 ^ 63"
proof (cases "2 ^ 63 \<le> unat i")
  case True
  then have b: "bit i 63" by (simp add: top_bit)
  have "int_key i = i - push_bit 63 1"
    using flip_bit_eq_if [of 63 i] unset_bit_eq [of 63 i] b by (simp add: int_key_def flip_bit_def)
  moreover have "unat (i - push_bit 63 1) = unat i - 2 ^ 63"
    using True by (subst unat_sub) (simp_all add: word_le_nat_alt)
  ultimately show ?thesis using True by (simp add: sint_nat of_nat_diff)
next
  case False
  then have "int_key i = i + push_bit 63 1"
    using flip_bit_eq_if [of 63 i] set_bit_eq [of 63 i] top_bit [of i] by (simp add: int_key_def flip_bit_def)
  then show ?thesis using False unat_add_top [of i] by (simp add: sint_nat)
qed

lemma word_cmp_nat: "cmp a b = cmp (int (unat a)) (int (unat b))" for a b :: "'a::len word"
  by (simp only: cmp_def of_nat_less_iff of_nat_eq_iff word_less_nat_alt word_unat_eq_iff)

lemma int_key_cmp: "cmp (int_key a) (int_key b) = cmp (sint a) (sint b)"
  unfolding word_cmp_nat [of "int_key a"] int_key_value by (simp add: cmp_def)

text \<open>The size of a bit pattern grows with the pattern.\<close>

definition float_size :: "nat \<Rightarrow> nat \<Rightarrow> nat" where
  "float_size mb n = (if n div 2 ^ mb = 0 then n mod 2 ^ mb else (2 ^ mb + n mod 2 ^ mb) * 2 ^ (n div 2 ^ mb - 1))"

lemma float_size_bounds:
  "float_size mb n < 2 ^ (mb + n div 2 ^ mb)" "0 < n div 2 ^ mb \<Longrightarrow> 2 ^ (mb + (n div 2 ^ mb - 1)) \<le> float_size mb n"
proof -
  let ?e = "n div 2 ^ mb" and ?m = "n mod 2 ^ mb"
  have m: "?m < 2 ^ mb" by simp
  show "float_size mb n < 2 ^ (mb + ?e)"
  proof (cases "?e")
    case 0
    then show ?thesis using m by (simp add: float_size_def)
  next
    case (Suc e)
    have "(2 ^ mb + ?m) * 2 ^ e < (2 ^ mb + 2 ^ mb) * 2 ^ e" using m by (intro mult_strict_right_mono) auto
    then show ?thesis by (simp add: float_size_def Suc power_add)
  qed
  show "2 ^ (mb + (?e - 1)) \<le> float_size mb n" if "0 < ?e"
  proof -
    have "(2 :: nat) ^ (mb + (?e - 1)) = 2 ^ mb * 2 ^ (?e - 1)" by (rule power_add)
    also have "\<dots> \<le> (2 ^ mb + ?m) * 2 ^ (?e - 1)" by (rule mult_right_mono) simp_all
    finally show ?thesis using that by (simp add: float_size_def)
  qed
qed

lemma float_size_mono: "a < b \<Longrightarrow> float_size mb a < float_size mb b"
proof -
  assume ab: "a < b"
  let ?ea = "a div 2 ^ mb" and ?eb = "b div 2 ^ mb"
  consider "?ea = ?eb" | "?ea < ?eb" using div_le_mono [of a b "2 ^ mb"] ab by linarith
  then show ?thesis
  proof cases
    case 1
    then have "a mod 2 ^ mb < b mod 2 ^ mb"
      using ab div_mult_mod_eq [of a "2 ^ mb"] div_mult_mod_eq [of b "2 ^ mb"] by (metis nat_add_left_cancel_less)
    then show ?thesis using 1 by (simp add: float_size_def)
  next
    case 2
    have "float_size mb a < 2 ^ (mb + ?ea)" by (rule float_size_bounds)
    also have "\<dots> \<le> 2 ^ (mb + (?eb - 1))" using 2 by (intro power_increasing) auto
    also have "\<dots> \<le> float_size mb b" using 2 by (intro float_size_bounds) simp
    finally show ?thesis .
  qed
qed

lemma float_size_less_iff: "float_size mb a < float_size mb b \<longleftrightarrow> a < b"
  using float_size_mono [of a b mb] float_size_mono [of b a mb] by (cases a b rule: linorder_cases) auto

lemma float_size_eq_iff: "float_size mb a = float_size mb b \<longleftrightarrow> a = b"
  using float_size_mono [of a b mb] float_size_mono [of b a mb] by (cases a b rule: linorder_cases) auto

lemma float_size_0 [simp]: "float_size mb 0 = 0"
  by (simp add: float_size_def)

lemma float_size_pos: "0 < n \<Longrightarrow> 0 < float_size mb n"
  using float_size_mono [of 0 n mb] by simp

text \<open>The place of a bit pattern on the line: its size, signed.\<close>

definition f64_place :: "f64 \<Rightarrow> int" where
  "f64_place a = (if unat a < 2 ^ 63 then int (unat a) else 2 ^ 63 - int (unat a))"

definition place_value :: "int \<Rightarrow> int" where
  "place_value s = (if 0 \<le> s then int (float_size 52 (nat s)) else - int (float_size 52 (nat (- s))))"

lemma place_value_mono: "s < t \<Longrightarrow> place_value s < place_value t"
proof -
  assume "s < t"
  then consider "0 \<le> s" "nat s < nat t" "0 \<le> t" | "s < 0" "0 \<le> t" "0 < nat (- s)" | "t < 0" "s < 0" "nat (- t) < nat (- s)"
    by linarith
  then show ?thesis
  proof cases
    case 2
    then have "0 < float_size 52 (nat (- s))" by (intro float_size_pos)
    then have "- int (float_size 52 (nat (- s))) < 0" by simp
    also have "0 \<le> int (float_size 52 (nat t))" by simp
    finally show ?thesis using 2 by (simp add: place_value_def)
  qed (simp_all add: place_value_def float_size_less_iff)
qed

lemma cmp_mono:
  fixes f :: "'a::linorder \<Rightarrow> 'b::linorder"
  assumes "\<And>s t. s < t \<Longrightarrow> f s < f t"
  shows "cmp (f s) (f t) = cmp s t"
  using assms [of s t] assms [of t s] by (cases s t rule: linorder_cases) (auto simp: cmp_def)

lemma f64_value_place: "f64_value a = place_value (f64_place a)"
proof (cases "unat a < 2 ^ 63")
  case True
  then have "unat a mod 2 ^ (11 + 52) = unat a" by (intro mod_less) simp
  then show ?thesis using True
    by (simp only: f64_value_def float_value_def Let_def place_value_def f64_place_def float_size_def if_True
        of_nat_0_le_iff nat_int of_nat_mult of_nat_power of_nat_numeral if_distrib [of int]) simp
next
  case False
  let ?n = "unat a - 2 ^ 63"
  have "unat a < 2 ^ 63 + 2 ^ 63" by simp
  then have n: "?n < 2 ^ 63" using False by linarith
  have "unat a mod 2 ^ (11 + 52) = ?n mod 2 ^ 63" using False le_mod_geq [of "2 ^ 63" "unat a"] by simp
  then have m: "unat a mod 2 ^ (11 + 52) = ?n" using mod_less [OF n] by simp
  have ne: "unat a \<noteq> ?n" using False by simp
  have v: "f64_value a = - int (float_size 52 ?n)"
    unfolding f64_value_def float_value_def Let_def m float_size_def
    using ne by (simp only: if_False if_distrib [of int] of_nat_mult of_nat_power of_nat_numeral)
  have p: "f64_place a = - int ?n" using False by (simp add: f64_place_def of_nat_diff)
  have pv: "place_value (- int n) = - int (float_size 52 n)" for n by (cases "n = 0") (simp_all add: place_value_def)
  show ?thesis unfolding v p by (rule pv [symmetric])
qed

text \<open>A key as a number: past the middle by the value's size for a positive, short of it for a negative.\<close>

lemma float_key_place:
  assumes "\<not> f64_is_nan f"
  shows "int (unat (float_key f)) = (if 0 \<le> f64_place f then 2 ^ 63 + f64_place f else 2 ^ 63 - 1 + f64_place f)"
proof -
  have "f64_partial_cmp f 0 = Some Equal \<longleftrightarrow> f64_value f = f64_value 0"
    using assms by (simp add: f64_partial_cmp_def float_cmp_def f64_is_nan_def f64_value_def float_nan_def)
  also have "\<dots> \<longleftrightarrow> f64_place f = f64_place 0"
    unfolding f64_value_place using place_value_mono [of "f64_place f" "f64_place 0"] place_value_mono [of "f64_place 0" "f64_place f"]
    by (cases "f64_place f" "f64_place 0" rule: linorder_cases) auto
  also have "\<dots> \<longleftrightarrow> unat f = 0 \<or> unat f = 2 ^ 63"
  proof -
    define n where "n = unat f"
    show ?thesis unfolding f64_place_def n_def [symmetric] by auto
  qed
  finally have z: "f64_partial_cmp f 0 = Some Equal \<longleftrightarrow> unat f = 0 \<or> unat f = 2 ^ 63" .
  have dr: "drop_bit 63 f = 1 \<longleftrightarrow> 2 ^ 63 \<le> unat f"
  proof -
    have "unat (drop_bit 63 f) = unat f div 2 ^ 63" unfolding unat_drop_bit_eq drop_bit_eq_div [of 63 "unat f"] ..
    then have "unat (drop_bit 63 f) = (if 2 ^ 63 \<le> unat f then 1 else 0)" by (simp only: half_div)
    then show ?thesis by (cases "2 ^ 63 \<le> unat f") (simp_all add: word_unat_eq_iff)
  qed
  have nt: "unat (NOT f) = 2 ^ 64 - 1 - unat f"
  proof -
    have "NOT f = - 1 - f" by (simp add: not_eq_complement)
    moreover have "unat (- 1 - f) = unat (- 1 :: u64) - unat f" by (rule unat_sub) simp
    moreover have "unat (- 1 :: u64) = 2 ^ 64 - 1" by (simp add: unat_eq_nat_uint uint_word_ariths)
    ultimately show ?thesis by simp
  qed
  consider "unat f = 0" | "unat f = 2 ^ 63" | "0 < unat f" "unat f < 2 ^ 63" | "2 ^ 63 < unat f" by linarith
  then show ?thesis
  proof cases
    case 3
    then have d: "\<not> drop_bit 63 f = 1" using dr by simp
    have "unat (float_key f) = unat f + 2 ^ 63" using 3 d z unat_or_top [of f] by (simp add: float_key_def Let_def)
    then show ?thesis using 3 by (simp add: f64_place_def)
  next
    case 4
    then have d: "drop_bit 63 f = 1" using dr by simp
    have "unat (float_key f) = 2 ^ 64 - 1 - unat f" using 4 d z nt by (simp add: float_key_def Let_def)
    moreover have "int (2 ^ 64 - 1 - n) = (if 0 \<le> (2 :: int) ^ 63 - int n then 2 ^ 63 + (2 ^ 63 - int n)
        else 2 ^ 63 - 1 + (2 ^ 63 - int n))" if "2 ^ 63 < n" "n < 2 ^ 64" for n
      using that by (simp add: of_nat_diff)
    moreover have "unat f < 2 ^ 64" "f64_place f = 2 ^ 63 - int (unat f)" using 4 by (simp_all add: f64_place_def)
    ultimately show ?thesis using 4 by (simp only:)
  qed (use z in \<open>simp_all add: float_key_def Let_def f64_place_def\<close>)
qed

lemma float_key_cmp:
  assumes "\<not> f64_is_nan a" "\<not> f64_is_nan b"
  shows "f64_partial_cmp a b = Some (cmp (float_key a) (float_key b))"
proof -
  have "f64_partial_cmp a b = Some (cmp (f64_value a) (f64_value b))"
    using assms by (simp add: f64_partial_cmp_def float_cmp_def f64_is_nan_def f64_value_def)
  also have "cmp (f64_value a) (f64_value b) = cmp (f64_place a) (f64_place b)"
    unfolding f64_value_place by (rule cmp_mono [OF place_value_mono])
  also have "\<dots> = cmp (float_key a) (float_key b)"
    unfolding word_cmp_nat [of "float_key a"] float_key_place [OF assms(1)] float_key_place [OF assms(2)]
    by (rule cmp_mono [symmetric, where f = "\<lambda>s. if 0 \<le> s then 2 ^ 63 + s else 2 ^ 63 - 1 + s"]) auto
  finally show ?thesis .
qed

section \<open>Integers as doubles\<close>

lemma bit_len_bounds: "0 < n \<Longrightarrow> 2 ^ (bit_len n - 1) \<le> n \<and> n < 2 ^ (bit_len n - 1 + 1)"
proof -
  assume n: "0 < n"
  have b: "0 < bit_len n" using n bit_len_le_iff [of n 0] by (cases "bit_len n = 0") auto
  have "\<not> n < 2 ^ (bit_len n - 1)"
  proof
    assume "n < 2 ^ (bit_len n - 1)"
    then have "bit_len n \<le> bit_len n - 1" by (simp only: bit_len_le_iff)
    with b show False by simp
  qed
  moreover have "n < 2 ^ bit_len n" using bit_len_le_iff [of n "bit_len n"] by simp
  ultimately show ?thesis using b by simp
qed

text \<open>The significand an integer is given: between \<open>2 ^ 52\<close> and \<open>2 ^ 53\<close>, which carries into the exponent.\<close>

definition nat_mant :: "nat \<Rightarrow> nat" where
  "nat_mant n = (let e = bit_len n - 1 in if e \<le> 52 then n * 2 ^ (52 - e) else round_shift (e - 52) n)"

lemma f64_of_nat_mant: "0 < n \<Longrightarrow> f64_of_nat n = (bit_len n - 1 + 1023) * 2 ^ 52 + (nat_mant n - 2 ^ 52)"
  by (simp add: f64_of_nat_def nat_mant_def Let_def)

lemma round_shift_bounds: "n div 2 ^ k \<le> round_shift k n \<and> round_shift k n \<le> n div 2 ^ k + 1"
  by (simp add: round_shift_def Let_def)

lemma nat_mant_bounds:
  assumes "0 < n"
  shows "2 ^ 52 \<le> nat_mant n" "nat_mant n \<le> 2 ^ 53"
proof -
  let ?e = "bit_len n - 1"
  note b = bit_len_bounds [OF assms]
  have "2 ^ 52 \<le> nat_mant n \<and> nat_mant n \<le> 2 ^ 53"
  proof (cases "?e \<le> 52")
    case True
    then have "(2 :: nat) ^ 52 = 2 ^ ?e * 2 ^ (52 - ?e)" "(2 :: nat) ^ 53 = 2 ^ (?e + 1) * 2 ^ (52 - ?e)"
      by (simp_all only: power_add [symmetric]) auto
    moreover have "2 ^ ?e * 2 ^ (52 - ?e) \<le> n * 2 ^ (52 - ?e)" "n * 2 ^ (52 - ?e) \<le> 2 ^ (?e + 1) * 2 ^ (52 - ?e)"
      using b by (intro mult_right_mono; simp)+
    ultimately show ?thesis using True by (simp only: nat_mant_def Let_def if_True)
  next
    case False
    let ?k = "?e - 52"
    have p: "(2 :: nat) ^ ?e = 2 ^ 52 * 2 ^ ?k" "(2 :: nat) ^ (?e + 1) = 2 ^ 53 * 2 ^ ?k"
      using False by (simp_all only: power_add [symmetric]) auto
    have "2 ^ 52 \<le> n div 2 ^ ?k" using b unfolding p by (metis div_le_mono nonzero_mult_div_cancel_right power_not_zero zero_neq_numeral)
    moreover have "n div 2 ^ ?k < 2 ^ 53" using b unfolding p by (intro less_mult_imp_div_less) simp
    ultimately show ?thesis
      using False round_shift_bounds [of n ?k] by (simp only: nat_mant_def Let_def if_False) linarith
  qed
  then show "2 ^ 52 \<le> nat_mant n" "nat_mant n \<le> 2 ^ 53" by auto
qed

lemma f64_of_nat_bounds:
  assumes "n < 2 ^ 64"
  shows "f64_of_nat n < 2047 * 2 ^ 52" and "2 ^ 53 \<le> n \<Longrightarrow> 1076 * 2 ^ 52 \<le> f64_of_nat n"
proof -
  show "f64_of_nat n < 2047 * 2 ^ 52"
  proof (cases "n = 0")
    case False
    have "bit_len n \<le> 64" using bit_len_le_iff [of n 64] assms by simp
    then have "bit_len n - 1 + 1023 \<le> 1086" by simp
    then have "(bit_len n - 1 + 1023) * 2 ^ 52 \<le> 1086 * 2 ^ 52" by (intro mult_right_mono) simp_all
    moreover have "nat_mant n - 2 ^ 52 \<le> 2 ^ 52" using nat_mant_bounds [of n] False by simp
    ultimately show ?thesis using f64_of_nat_mant [of n] False by simp
  qed (simp add: f64_of_nat_def)
  assume n: "2 ^ 53 \<le> n"
  then have "\<not> bit_len n \<le> 53" using bit_len_le_iff [of n 53] by simp
  then have "1076 \<le> bit_len n - 1 + 1023" by simp
  then have "1076 * 2 ^ 52 \<le> (bit_len n - 1 + 1023) * 2 ^ 52" by (intro mult_right_mono) simp_all
  moreover have "0 < n" using n by (metis gr0I le_zero_eq power_not_zero zero_neq_numeral)
  ultimately show "1076 * 2 ^ 52 \<le> f64_of_nat n" using f64_of_nat_mant [of n] by linarith
qed

lemma f64_of_nat_exact:
  assumes "n \<le> 2 ^ 53"
  shows "float_size 52 (f64_of_nat n) = n * 2 ^ 1074"
proof (cases "n = 0")
  case False
  let ?e = "bit_len n - 1"
  have b: "2 ^ ?e \<le> n" "n < 2 ^ (?e + 1)" using bit_len_bounds [of n] False by auto
  have "f64_of_nat n = (?e + 1023) * 2 ^ 52 + (nat_mant n - 2 ^ 52) \<and> nat_mant n < 2 ^ 53 \<and> nat_mant n * 2 ^ (?e + 1022) = n * 2 ^ 1074"
  proof (cases "?e \<le> 52")
    case True
    have "n * 2 ^ (52 - ?e) < 2 ^ (?e + 1) * 2 ^ (52 - ?e)" using b(2) by (intro mult_strict_right_mono) simp_all
    also have "\<dots> = 2 ^ 53" using True by (simp only: power_add [symmetric]) simp
    finally have m: "nat_mant n < 2 ^ 53" using True by (simp only: nat_mant_def Let_def if_True)
    have "nat_mant n * 2 ^ (?e + 1022) = n * (2 ^ (52 - ?e) * 2 ^ (?e + 1022))"
      using True by (simp only: nat_mant_def Let_def if_True mult.assoc)
    also have "(2 :: nat) ^ (52 - ?e) * 2 ^ (?e + 1022) = 2 ^ 1074"
      using True by (simp only: power_add [symmetric]) simp
    finally show ?thesis using m f64_of_nat_mant [of n] False by simp
  next
    case no: False
    then have "2 ^ 53 \<le> n" using b(1) power_increasing [of 53 ?e "2 :: nat"] by linarith
    then have n: "n = 2 ^ 53" using assms by simp
    have e: "?e = 53"
    proof -
      have "bit_len n \<le> 54" using bit_len_le_iff [of n 54] by (simp add: n)
      then show ?thesis using no by simp
    qed
    have "nat_mant n = 2 ^ 52" using no e by (simp add: nat_mant_def round_shift_def n)
    then show ?thesis using f64_of_nat_mant [of n] False e n by simp
  qed
  then have f: "f64_of_nat n = (?e + 1023) * 2 ^ 52 + (nat_mant n - 2 ^ 52)" "nat_mant n - 2 ^ 52 < 2 ^ 52"
    "nat_mant n * 2 ^ (?e + 1022) = n * 2 ^ 1074" using nat_mant_bounds [of n] False by auto
  have dm: "(q * c + r) div c = q \<and> (q * c + r) mod c = r" if "r < c" for q r c :: nat using that by simp
  have d: "f64_of_nat n div 2 ^ 52 = ?e + 1023" "f64_of_nat n mod 2 ^ 52 = nat_mant n - 2 ^ 52"
    unfolding f(1) using dm [OF f(2), of "?e + 1023"] by (rule conjunct1, elim conjunct2)
  have "float_size 52 (f64_of_nat n) = (2 ^ 52 + (nat_mant n - 2 ^ 52)) * 2 ^ (?e + 1022)"
    unfolding float_size_def d by simp
  also have "2 ^ 52 + (nat_mant n - 2 ^ 52) = nat_mant n" using nat_mant_bounds(1) [of n] False by simp
  finally show ?thesis using f(3) by simp
qed (simp add: f64_of_nat_def)

lemma f64_of_int_place:
  assumes "\<bar>i\<bar> \<le> 2 ^ 63"
  shows "f64_place (f64_of_int i) = (if i < 0 then - int (f64_of_nat (nat (- i))) else int (f64_of_nat (nat i)))"
    and "\<not> f64_is_nan (f64_of_int i)"
proof -
  define k where "k = f64_of_nat (nat \<bar>i\<bar>)"
  have "nat \<bar>i\<bar> < 2 ^ 64" using assms by (simp add: nat_less_iff)
  then have k: "k < 2047 * 2 ^ 52" unfolding k_def by (rule f64_of_nat_bounds)
  have u: "unat (f64_of_int i) = (if i < 0 then 2 ^ 63 + k else k)"
    unfolding f64_of_int_def k_def [symmetric] using unat_of_nat_u64 [of k] unat_of_nat_u64 [of "2 ^ 63 + k"] k
    by (auto simp: k_def abs_if simp del: of_nat_add unsigned_of_nat)
  have "f64_place (f64_of_int i) = (if i < 0 then - int k else int k)"
    unfolding f64_place_def u using k by simp
  then show "f64_place (f64_of_int i) = (if i < 0 then - int (f64_of_nat (nat (- i))) else int (f64_of_nat (nat i)))"
    by (auto simp: k_def)
  have "unat (f64_of_int i) mod 2 ^ (11 + 52) = k"
    unfolding u using k by simp
  moreover have "k div 2 ^ 52 \<noteq> 2047" using less_mult_imp_div_less [OF k] by simp
  ultimately show "\<not> f64_is_nan (f64_of_int i)" by (simp add: f64_is_nan_def float_nan_def)
qed

lemma f64_value_of_int:
  assumes "\<bar>i\<bar> \<le> 2 ^ 53"
  shows "f64_value (f64_of_int i) = i * 2 ^ 1074"
proof -
  have a: "\<bar>i\<bar> \<le> 2 ^ 63" using assms by simp
  have n: "float_size 52 (f64_of_nat (nat \<bar>i\<bar>)) = nat \<bar>i\<bar> * 2 ^ 1074" using assms by (intro f64_of_nat_exact) simp
  show ?thesis
  proof (cases "i < 0")
    case True
    have pv: "place_value (- int k) = - int (float_size 52 k)" for k by (cases "k = 0") (simp_all add: place_value_def)
    have "f64_value (f64_of_int i) = - int (nat \<bar>i\<bar> * 2 ^ 1074)"
      unfolding f64_value_place f64_of_int_place(1) [OF a] using True n pv by simp
    also have "\<dots> = i * 2 ^ 1074" using True by simp
    finally show ?thesis .
  next
    case False
    have "f64_value (f64_of_int i) = int (nat \<bar>i\<bar> * 2 ^ 1074)"
      unfolding f64_value_place f64_of_int_place(1) [OF a] using False n by (simp add: place_value_def)
    also have "\<dots> = i * 2 ^ 1074" using False by simp
    finally show ?thesis .
  qed
qed

lemma cmp_scale: "0 < z \<Longrightarrow> cmp (a * z) (b * z) = cmp a b" for z :: int
  by (simp add: cmp_def)

lemma int_double_cmp:
  assumes "\<not> f64_is_nan x" "\<not> f64_is_nan y"
  shows "f64_partial_cmp x y = Some (cmp (f64_value x) (f64_value y))"
  using assms by (simp add: f64_partial_cmp_def float_cmp_def f64_is_nan_def f64_value_def)

text \<open>
  An integer below \<open>2 ^ 53\<close> is told apart from every other by its double, however the other rounds.
\<close>

lemma small_int_cmp:
  assumes "\<bar>a\<bar> \<le> 2 ^ 63" "\<bar>b\<bar> < 2 ^ 53"
  shows "f64_partial_cmp (f64_of_int a) (f64_of_int b) = Some (cmp a b)"
proof -
  have nn: "\<not> f64_is_nan (f64_of_int a)" "\<not> f64_is_nan (f64_of_int b)"
    using assms by (intro f64_of_int_place(2); simp)+
  have vb: "f64_value (f64_of_int b) = b * 2 ^ 1074" using assms(2) by (intro f64_value_of_int) simp
  have lim: "float_size 52 (1076 * 2 ^ 52) = 2 ^ 53 * 2 ^ 1074" by (simp add: float_size_def)
  have big: "2 ^ 53 * 2 ^ 1074 \<le> float_size 52 (f64_of_nat n)" if "2 ^ 53 \<le> n" "n < 2 ^ 64" for n
    using f64_of_nat_bounds(2) [OF that(2,1)] float_size_less_iff [of 52 "f64_of_nat n" "1076 * 2 ^ 52"]
    unfolding lim [symmetric] by linarith
  have "cmp (f64_value (f64_of_int a)) (f64_value (f64_of_int b)) = cmp a b"
  proof (cases "\<bar>a\<bar> \<le> 2 ^ 53")
    case True
    then have "f64_value (f64_of_int a) = a * 2 ^ 1074" by (rule f64_value_of_int)
    then show ?thesis unfolding vb by (simp only: cmp_scale zero_less_power zero_less_numeral)
  next
    case False
    define n where "n = nat \<bar>a\<bar>"
    have "2 ^ 53 \<le> n" "n < 2 ^ 64" using False assms(1) by (simp_all add: n_def nat_less_iff)
    from big [OF this] have s: "2 ^ 53 * 2 ^ 1074 \<le> int (float_size 52 (f64_of_nat n))"
      by (metis (no_types) of_nat_le_iff of_nat_mult of_nat_numeral of_nat_power)
    define z :: int where "z = 2 ^ 1074"
    have z: "0 < z" by (simp only: z_def zero_less_power zero_less_numeral)
    have fb: "\<bar>b * z\<bar> < 2 ^ 53 * z" using assms(2) z by (simp add: abs_mult)
    have pv: "place_value (- int k) = - int (float_size 52 k)" "place_value (int k) = int (float_size 52 k)" for k
      by (cases "k = 0") (simp_all add: place_value_def)
    show ?thesis
    proof (cases "a < 0")
      case True
      then have "f64_value (f64_of_int a) = - int (float_size 52 (f64_of_nat n))"
        unfolding f64_value_place f64_of_int_place(1) [OF assms(1)] by (simp add: n_def pv)
      with s fb have "f64_value (f64_of_int a) < b * z" unfolding z_def [symmetric] by linarith
      moreover have "a < b" using True False assms(2) by linarith
      ultimately show ?thesis unfolding vb z_def [symmetric] by (simp add: cmp_def)
    next
      case no: False
      then have "f64_value (f64_of_int a) = int (float_size 52 (f64_of_nat n))"
        unfolding f64_value_place f64_of_int_place(1) [OF assms(1)] by (simp add: n_def pv)
      with s fb have "b * z < f64_value (f64_of_int a)" unfolding z_def [symmetric] by linarith
      moreover have "b < a" using no False assms(2) by linarith
      ultimately show ?thesis unfolding vb z_def [symmetric] by (simp add: cmp_def)
    qed
  qed
  then show ?thesis using int_double_cmp [OF nn] by simp
qed

lemma sint_bound: "\<bar>sint i\<bar> \<le> 2 ^ 63" for i :: i64
proof -
  define n where "n = unat i"
  have "n < 2 ^ 64" by (simp add: n_def)
  then show ?thesis unfolding sint_nat n_def [symmetric] by auto
qed

end
