(* ===== verification/Fenec_Sorted_Index.thy ===== *)
theory Fenec_Sorted_Index
  imports Fenec_Sorted_Laws
begin

text \<open>
  What an index holds and what a range of it finds. \<open>index_holds\<close> says what an index holds of the rows it
  was told of, and every write keeps it; a range narrowed by comparisons holds exactly the keys they
  hold of; a literal's bound orders against a value's key as \<open>cmp_value\<close> orders the two; so \<open>range_ids\<close>
  finds the rows the scan finds (\<open>scan_ids\<close>).
\<close>

section \<open>The index over any writes\<close>

text \<open>
  The rows of a collection as the index is told of them: an id's value of the field, where the row
  has one. A slot function says where a value goes; each of the two parts of a json index takes only
  some values.
\<close>

type_synonym rows = "docid \<rightharpoonup> val option"

definition slotted :: "(val option \<Rightarrow> 'k slot option) \<Rightarrow> rows \<Rightarrow> 'k slot \<Rightarrow> docid \<Rightarrow> bool" where
  "slotted sl rows s i \<longleftrightarrow> (\<exists>v. rows i = Some v \<and> sl v = Some s)"

definition keyed :: "(val option \<Rightarrow> 'k slot option) \<Rightarrow> rows \<Rightarrow> ('k \<times> docid) set" where
  "keyed sl rows = {(k, i). slotted sl rows (Key k) i}"

definition left_out :: "'k \<Rightarrow> 'k slot \<Rightarrow> (val option \<Rightarrow> 'k slot option) \<Rightarrow> rows \<Rightarrow> ('k \<times> docid) set" where
  "left_out dflt s sl rows = {(k, i). k = dflt \<and> slotted sl rows s i}"

definition holds_in :: "('k::linorder \<times> docid) chunked \<Rightarrow> ('k \<times> docid) set \<Rightarrow> bool" where
  "holds_in c es \<longleftrightarrow> ch_inv entry_cmp c \<and> set (ch_iter c) = es"

definition o_holds :: "'k::linorder \<Rightarrow> (val option \<Rightarrow> 'k slot option) \<Rightarrow> rows \<Rightarrow> 'k ordered \<Rightarrow> bool" where
  "o_holds dflt sl rows ox \<longleftrightarrow> holds_in (o_keys ox) (keyed sl rows)
     \<and> holds_in (o_nulls ox) (left_out dflt Null sl rows) \<and> holds_in (o_nans ox) (left_out dflt Nan sl rows)"

lemma holds_in_new [simp]: "holds_in ch_new {}"
  using entry.new_inv by (simp add: holds_in_def ch_new_def ch_iter_def)

lemma holds_in_insert: "holds_in c es \<Longrightarrow> \<exists>c' b. ch_insert entry_cmp x c = Ok (c', b) \<and> holds_in c' (insert x es)"
  using entry.insert_spec [of c x] by (auto simp: holds_in_def)

lemma holds_in_remove: "holds_in c es \<Longrightarrow> \<exists>c' b. ch_remove entry_cmp x c = Ok (c', b) \<and> holds_in c' (es - {x})"
  using entry.remove_spec [of c x] by (auto simp: holds_in_def)

lemma keyed_put:
  "rows i = None \<Longrightarrow> keyed sl (rows(i \<mapsto> v))
     = (case sl v of Some (Key k) \<Rightarrow> insert (k, i) (keyed sl rows) | _ \<Rightarrow> keyed sl rows)"
  by (auto simp: keyed_def slotted_def split: option.splits slot.splits if_splits)

lemma left_out_put:
  "rows i = None \<Longrightarrow> left_out dflt s sl (rows(i \<mapsto> v))
     = (if sl v = Some s then insert (dflt, i) (left_out dflt s sl rows) else left_out dflt s sl rows)"
  by (auto simp: left_out_def slotted_def split: if_splits)

lemma keyed_drop:
  "rows i = Some v \<Longrightarrow> keyed sl (rows(i := None))
     = (case sl v of Some (Key k) \<Rightarrow> keyed sl rows - {(k, i)} | _ \<Rightarrow> keyed sl rows)"
  by (auto simp: keyed_def slotted_def split: option.splits slot.splits if_splits)

lemma left_out_drop:
  "rows i = Some v \<Longrightarrow> left_out dflt s sl (rows(i := None))
     = (if sl v = Some s then left_out dflt s sl rows - {(dflt, i)} else left_out dflt s sl rows)"
  by (auto simp: left_out_def slotted_def split: if_splits)

lemmas slot_sets = keyed_put left_out_put keyed_drop left_out_drop

lemma o_holds_new [simp]: "o_holds dflt sl Map.empty o_new"
  by (simp add: o_holds_def o_new_def keyed_def left_out_def slotted_def)

lemma o_insert_holds:
  assumes "o_holds dflt sl rows ox" "rows i = None" "sl v = Some s"
  shows "\<exists>ox'. o_insert dflt i s ox = Ok ox' \<and> o_holds dflt sl (rows(i \<mapsto> v)) ox'"
proof (cases s)
  case (Key k)
  obtain c b where "ch_insert entry_cmp (k, i) (o_keys ox) = Ok (c, b)" "holds_in c (insert (k, i) (keyed sl rows))"
    using holds_in_insert [of "o_keys ox" "keyed sl rows" "(k, i)"] assms(1) by (auto simp: o_holds_def)
  then show ?thesis using assms Key by (simp add: o_insert_def o_holds_def slot_sets)
next
  case Null
  obtain c b where "ch_insert entry_cmp (dflt, i) (o_nulls ox) = Ok (c, b)" "holds_in c (insert (dflt, i) (left_out dflt Null sl rows))"
    using holds_in_insert [of "o_nulls ox" "left_out dflt Null sl rows" "(dflt, i)"] assms(1) by (auto simp: o_holds_def)
  then show ?thesis using assms Null by (simp add: o_insert_def o_holds_def slot_sets)
next
  case Nan
  obtain c b where "ch_insert entry_cmp (dflt, i) (o_nans ox) = Ok (c, b)" "holds_in c (insert (dflt, i) (left_out dflt Nan sl rows))"
    using holds_in_insert [of "o_nans ox" "left_out dflt Nan sl rows" "(dflt, i)"] assms(1) by (auto simp: o_holds_def)
  then show ?thesis using assms Nan by (simp add: o_insert_def o_holds_def slot_sets)
qed

lemma o_remove_holds:
  assumes "o_holds dflt sl rows ox" "rows i = Some v" "sl v = Some s"
  shows "\<exists>ox'. o_remove dflt i s ox = Ok ox' \<and> o_holds dflt sl (rows(i := None)) ox'"
proof (cases s)
  case (Key k)
  obtain c b where "ch_remove entry_cmp (k, i) (o_keys ox) = Ok (c, b)" "holds_in c (keyed sl rows - {(k, i)})"
    using holds_in_remove [of "o_keys ox" "keyed sl rows" "(k, i)"] assms(1) by (auto simp: o_holds_def)
  then show ?thesis using assms Key by (simp add: o_remove_def o_holds_def slot_sets)
next
  case Null
  obtain c b where "ch_remove entry_cmp (dflt, i) (o_nulls ox) = Ok (c, b)" "holds_in c (left_out dflt Null sl rows - {(dflt, i)})"
    using holds_in_remove [of "o_nulls ox" "left_out dflt Null sl rows" "(dflt, i)"] assms(1) by (auto simp: o_holds_def)
  then show ?thesis using assms Null by (simp add: o_remove_def o_holds_def slot_sets)
next
  case Nan
  obtain c b where "ch_remove entry_cmp (dflt, i) (o_nans ox) = Ok (c, b)" "holds_in c (left_out dflt Nan sl rows - {(dflt, i)})"
    using holds_in_remove [of "o_nans ox" "left_out dflt Nan sl rows" "(dflt, i)"] assms(1) by (auto simp: o_holds_def)
  then show ?thesis using assms Nan by (simp add: o_remove_def o_holds_def slot_sets)
qed

lemma o_holds_other:
  assumes "o_holds dflt sl rows ox" "sl v = None"
  shows "rows i = None \<Longrightarrow> o_holds dflt sl (rows(i \<mapsto> v)) ox" "rows i = Some v \<Longrightarrow> o_holds dflt sl (rows(i := None)) ox"
  using assms by (simp_all add: o_holds_def slot_sets)

definition json_num_slot :: "val option \<Rightarrow> u64 slot option" where
  "json_num_slot v = (case json_slot v of Json_num k \<Rightarrow> Some (Key k) | Json_null \<Rightarrow> Some Null | _ \<Rightarrow> None)"

definition json_text_slot :: "val option \<Rightarrow> bytes slot option" where
  "json_text_slot v = (case json_slot v of Json_text t \<Rightarrow> Some (Key t) | _ \<Rightarrow> None)"

definition apart_slot :: "val option \<Rightarrow> u64 slot option" where
  "apart_slot v = (if json_slot v = Json_apart then Some Nan else None)"

lemmas json_slots = json_num_slot_def json_text_slot_def apart_slot_def

fun index_holds :: "rows \<Rightarrow> sorted_index \<Rightarrow> bool" where
  "index_holds rows (Num ox) = o_holds 0 (\<lambda>v. Some (num_slot v)) rows ox"
| "index_holds rows (Text ox) = o_holds [] (\<lambda>v. Some (text_slot v)) rows ox"
| "index_holds rows (Json j) = (o_holds 0 json_num_slot rows (j_num j) \<and> o_holds [] json_text_slot rows (j_text j)
     \<and> holds_in (j_apart j) (left_out 0 Nan apart_slot rows))"

lemma index_holds_new: "index_holds Map.empty (si_new ty)"
  by (cases ty) (simp_all add: si_new_def left_out_def slotted_def)

lemma index_insert_holds:
  assumes "index_holds rows ix" "rows i = None"
  shows "\<exists>ix'. si_insert i v ix = Ok ix' \<and> index_holds (rows(i \<mapsto> v)) ix'"
proof (cases ix)
  case (Num ox)
  then show ?thesis using o_insert_holds [of 0 "\<lambda>v. Some (num_slot v)" rows ox i v] assms by fastforce
next
  case (Text ox)
  then show ?thesis using o_insert_holds [of "[]" "\<lambda>v. Some (text_slot v)" rows ox i v] assms by fastforce
next
  case (Json j)
  note n = o_insert_holds [of 0 json_num_slot rows "j_num j" i v] o_holds_other(1) [of 0 json_num_slot rows "j_num j" v i]
  note t = o_insert_holds [of "[]" json_text_slot rows "j_text j" i v] o_holds_other(1) [of "[]" json_text_slot rows "j_text j" v i]
  have h: "o_holds 0 json_num_slot rows (j_num j)" "o_holds [] json_text_slot rows (j_text j)"
    "holds_in (j_apart j) (left_out 0 Nan apart_slot rows)" using assms(1) by (simp_all add: Json)
  show ?thesis
  proof (cases "json_slot v")
    case (Json_num k)
    then show ?thesis using n(1) [OF h(1) assms(2), of "Key k"] t(2) [OF h(2)] h(3) assms(2)
      by (auto simp: Json json_slots left_out_put)
  next
    case (Json_text k)
    then show ?thesis using t(1) [OF h(2) assms(2), of "Key k"] n(2) [OF h(1)] h(3) assms(2)
      by (auto simp: Json json_slots left_out_put)
  next
    case Json_null
    then show ?thesis using n(1) [OF h(1) assms(2), of Null] t(2) [OF h(2)] h(3) assms(2)
      by (auto simp: Json json_slots left_out_put)
  next
    case Json_apart
    then show ?thesis using holds_in_insert [OF h(3), of "(0, i)"] n(2) [OF h(1)] t(2) [OF h(2)] assms(2)
      by (auto simp: Json json_slots left_out_put)
  qed
qed

lemma index_remove_holds:
  assumes "index_holds rows ix" "rows i = Some v"
  shows "\<exists>ix'. si_remove i v ix = Ok ix' \<and> index_holds (rows(i := None)) ix'"
proof (cases ix)
  case (Num ox)
  then show ?thesis using o_remove_holds [of 0 "\<lambda>v. Some (num_slot v)" rows ox i v] assms by fastforce
next
  case (Text ox)
  then show ?thesis using o_remove_holds [of "[]" "\<lambda>v. Some (text_slot v)" rows ox i v] assms by fastforce
next
  case (Json j)
  note n = o_remove_holds [of 0 json_num_slot rows "j_num j" i v] o_holds_other(2) [of 0 json_num_slot rows "j_num j" v i]
  note t = o_remove_holds [of "[]" json_text_slot rows "j_text j" i v] o_holds_other(2) [of "[]" json_text_slot rows "j_text j" v i]
  have h: "o_holds 0 json_num_slot rows (j_num j)" "o_holds [] json_text_slot rows (j_text j)"
    "holds_in (j_apart j) (left_out 0 Nan apart_slot rows)" using assms(1) by (simp_all add: Json)
  show ?thesis
  proof (cases "json_slot v")
    case (Json_num k)
    then show ?thesis using n(1) [OF h(1) assms(2), of "Key k"] t(2) [OF h(2)] h(3) assms(2)
      by (auto simp: Json json_slots left_out_drop)
  next
    case (Json_text k)
    then show ?thesis using t(1) [OF h(2) assms(2), of "Key k"] n(2) [OF h(1)] h(3) assms(2)
      by (auto simp: Json json_slots left_out_drop)
  next
    case Json_null
    then show ?thesis using n(1) [OF h(1) assms(2), of Null] t(2) [OF h(2)] h(3) assms(2)
      by (auto simp: Json json_slots left_out_drop)
  next
    case Json_apart
    then show ?thesis using holds_in_remove [OF h(3), of "(0, i)"] n(2) [OF h(1)] t(2) [OF h(2)] assms(2)
      by (auto simp: Json json_slots left_out_drop)
  qed
qed

text \<open>
  A write, as every caller makes it: the entry of the stored value out, the entry of the new one in;
  \<open>None\<close> is a deletion.
\<close>

fun index_writes :: "(docid \<times> val option option) list \<Rightarrow> rows \<Rightarrow> sorted_index \<Rightarrow> sorted_index result" where
  "index_writes [] rows ix = Ok ix"
| "index_writes ((i, w) # ws) rows ix =
     and_then (case rows i of Some v \<Rightarrow> si_remove i v ix | None \<Rightarrow> Ok ix) (\<lambda>ix.
     and_then (case w of Some v \<Rightarrow> si_insert i v ix | None \<Rightarrow> Ok ix)
       (index_writes ws (rows(i := w))))"

definition rows_after :: "(docid \<times> val option option) list \<Rightarrow> rows \<Rightarrow> rows" where
  "rows_after ws rows = fold (\<lambda>(i, w) rows. rows(i := w)) ws rows"

lemma index_writes_hold: "index_holds rows ix \<Longrightarrow> \<exists>ix'. index_writes ws rows ix = Ok ix' \<and> index_holds (rows_after ws rows) ix'"
proof (induction ws rows ix rule: index_writes.induct)
  case (2 i w ws rows ix)
  obtain ix1 where 1: "(case rows i of Some v \<Rightarrow> si_remove i v ix | None \<Rightarrow> Ok ix) = Ok ix1" "index_holds (rows(i := None)) ix1"
    using index_remove_holds [OF "2.prems"] "2.prems" by (cases "rows i") (auto simp: fun_upd_idem)
  obtain ix2 where 2: "(case w of Some v \<Rightarrow> si_insert i v ix1 | None \<Rightarrow> Ok ix1) = Ok ix2" "index_holds (rows(i := w)) ix2"
    using index_insert_holds [OF 1(2), of i] 1(2) by (cases w) auto
  show ?case using "2.IH" [OF 1(1) 2] 1(1) 2(1) by (simp add: rows_after_def fun_upd_def)
qed (simp add: rows_after_def)

section \<open>Ranges\<close>

text \<open>Keys in their own order: every number below every text.\<close>

instantiation key :: linorder
begin

definition less_key :: "key \<Rightarrow> key \<Rightarrow> bool" where "less_key a b \<longleftrightarrow> key_cmp a b = Less"
definition less_eq_key :: "key \<Rightarrow> key \<Rightarrow> bool" where "less_eq_key a b \<longleftrightarrow> key_cmp a b \<noteq> Greater"

instance
proof
  show "x < y \<longleftrightarrow> x \<le> y \<and> \<not> y \<le> x" for x y :: key
    by (cases x; cases y) (auto simp: less_key_def less_eq_key_def)
  show "x \<le> x" for x :: key by (cases x) (auto simp: less_eq_key_def)
  show "x \<le> y \<Longrightarrow> y \<le> z \<Longrightarrow> x \<le> z" for x y z :: key
    by (cases x; cases y; cases z) (auto simp: less_eq_key_def)
  show "x \<le> y \<Longrightarrow> y \<le> x \<Longrightarrow> x = y" for x y :: key
    by (cases x; cases y) (auto simp: less_eq_key_def)
  show "x \<le> y \<or> y \<le> x" for x y :: key
    by (cases x; cases y) (auto simp: less_eq_key_def)
qed

end

lemma key_cmp_is_cmp: "key_cmp a b = cmp a b"
  by (cases a; cases b) (auto simp: cmp_def less_key_def)

lemma then_ord_cases [simp]:
  "then_ord (cmp a b) Greater = Greater \<longleftrightarrow> b \<le> a" "then_ord (cmp a b) Less = Greater \<longleftrightarrow> b < a"
  "then_ord (cmp a b) Less = Less \<longleftrightarrow> a \<le> b" "then_ord (cmp a b) Greater = Less \<longleftrightarrow> a < b"
  by (auto simp: cmp_def)

text \<open>A comparison tightens a range to where it holds.\<close>

abbreviation in_range :: "range \<Rightarrow> key \<Rightarrow> bool" where
  "in_range r \<equiv> within key_cmp (r_lo r) (r_hi r)"

lemma tighten_lo_within: "in_range (tighten_lo b r) x \<longleftrightarrow> in_range r x \<and> within key_cmp b Unbounded x"
  by (cases b; cases "r_lo r") (auto simp: tighten_lo_def within_def bound_cmp_def Let_def key_cmp_is_cmp not_less)

lemma tighten_hi_within: "in_range (tighten_hi b r) x \<longleftrightarrow> in_range r x \<and> within key_cmp Unbounded b x"
  by (cases b; cases "r_hi r") (auto simp: tighten_hi_def within_def bound_cmp_def Let_def key_cmp_is_cmp not_less)

lemma within_ends [simp]:
  "within ord (Included k) Unbounded x \<longleftrightarrow> ord x k \<noteq> Less" "within ord (Excluded k) Unbounded x \<longleftrightarrow> ord x k = Greater"
  "within ord Unbounded (Included k) x \<longleftrightarrow> ord x k \<noteq> Greater" "within ord Unbounded (Excluded k) x \<longleftrightarrow> ord x k = Less"
  "within ord Unbounded Unbounded x"
  by (simp_all add: within_def)

lemma within_strict [simp]: "in_range (r\<lparr>r_strict := s\<rparr>) = in_range r"
  by simp

lemma narrow_within:
  "in_range (narrow oper k r) x \<longleftrightarrow> in_range r x \<and> (oper \<noteq> Ne \<longrightarrow> op_holds oper (key_cmp x k))"
  by (cases oper) (auto simp: narrow_def tighten_lo_within tighten_hi_within op_holds_def key_cmp_is_cmp)

lemma tighten_strict [simp]: "r_strict (tighten_lo b r) = r_strict r" "r_strict (tighten_hi b r) = r_strict r"
  by (simp_all add: tighten_lo_def tighten_hi_def)

lemma narrow_strict: "r_strict (narrow oper k r) \<longleftrightarrow> r_strict r \<or> oper = Lt \<or> oper = Gt"
  by (cases oper) (auto simp: narrow_def)

definition range_of :: "(cmp_op \<times> key) list \<Rightarrow> range" where
  "range_of cs = fold (\<lambda>(oper, k). narrow oper k) cs range_all"

lemma range_of_within:
  assumes "\<forall>(oper, k)\<in>set cs. oper \<noteq> Ne"
  shows "in_range (range_of cs) x \<longleftrightarrow> (\<forall>(oper, k)\<in>set cs. op_holds oper (key_cmp x k))"
    and "r_strict (range_of cs) \<longleftrightarrow> (\<exists>(oper, k)\<in>set cs. oper = Lt \<or> oper = Gt)"
proof -
  have "in_range (fold (\<lambda>(oper, k). narrow oper k) cs r) x
      \<longleftrightarrow> in_range r x \<and> (\<forall>(oper, k)\<in>set cs. op_holds oper (key_cmp x k))" for r
    using assms by (induction cs arbitrary: r) (auto simp: narrow_within)
  then show "in_range (range_of cs) x \<longleftrightarrow> (\<forall>(oper, k)\<in>set cs. op_holds oper (key_cmp x k))"
    by (simp add: range_of_def range_all_def within_def)
  have "r_strict (fold (\<lambda>(oper, k). narrow oper k) cs r)
      \<longleftrightarrow> r_strict r \<or> (\<exists>(oper, k)\<in>set cs. oper = Lt \<or> oper = Gt)" for r
    by (induction cs arbitrary: r) (auto simp: narrow_strict)
  then show "r_strict (range_of cs) \<longleftrightarrow> (\<exists>(oper, k)\<in>set cs. oper = Lt \<or> oper = Gt)"
    by (simp add: range_of_def range_all_def)
qed

text \<open>The ends of a range among the entries of one kind of key.\<close>

lemma num_ends:
  assumes "i \<le> docid_max"
  shows "\<not> is_text lo \<Longrightarrow> within entry_cmp (num_bound True lo) Unbounded (k, i) \<longleftrightarrow> within key_cmp lo Unbounded (Key_num k)"
    and "\<not> is_text hi \<Longrightarrow> within entry_cmp Unbounded (num_bound False hi) (k, i) \<longleftrightarrow> within key_cmp Unbounded hi (Key_num k)"
proof -
  show "\<not> is_text lo \<Longrightarrow> within entry_cmp (num_bound True lo) Unbounded (k, i) \<longleftrightarrow> within key_cmp lo Unbounded (Key_num k)"
    using assms by (cases lo rule: is_text.cases) (auto simp: within_def entry_cmp_def cmp_def)
  show "\<not> is_text hi \<Longrightarrow> within entry_cmp Unbounded (num_bound False hi) (k, i) \<longleftrightarrow> within key_cmp Unbounded hi (Key_num k)"
    using assms by (cases hi rule: is_text.cases) (auto simp: within_def entry_cmp_def cmp_def)
qed

lemma text_ends:
  assumes "i \<le> docid_max"
  shows "\<not> is_num lo \<Longrightarrow> within entry_cmp (text_bound True lo) Unbounded (k, i) \<longleftrightarrow> within key_cmp lo Unbounded (Key_text k)"
    and "\<not> is_num hi \<Longrightarrow> within entry_cmp Unbounded (text_bound False hi) (k, i) \<longleftrightarrow> within key_cmp Unbounded hi (Key_text k)"
proof -
  show "\<not> is_num lo \<Longrightarrow> within entry_cmp (text_bound True lo) Unbounded (k, i) \<longleftrightarrow> within key_cmp lo Unbounded (Key_text k)"
    using assms by (cases lo rule: is_num.cases) (auto simp: within_def entry_cmp_def cmp_def)
  show "\<not> is_num hi \<Longrightarrow> within entry_cmp Unbounded (text_bound False hi) (k, i) \<longleftrightarrow> within key_cmp Unbounded hi (Key_text k)"
    using assms by (cases hi rule: is_num.cases) (auto simp: within_def entry_cmp_def cmp_def)
qed

lemma other_kind:
  "is_text lo \<Longrightarrow> \<not> within key_cmp lo Unbounded (Key_num k)" "is_text hi \<Longrightarrow> within key_cmp Unbounded hi (Key_num k)"
  "is_num hi \<Longrightarrow> \<not> within key_cmp Unbounded hi (Key_text t)" "is_num lo \<Longrightarrow> within key_cmp lo Unbounded (Key_text t)"
  by (cases lo rule: is_text.cases; simp add: within_def; fail | cases hi rule: is_text.cases; simp add: within_def; fail
     | cases hi rule: is_num.cases; simp add: within_def; fail | cases lo rule: is_num.cases; simp add: within_def; fail)+

section \<open>Literals\<close>

lemma and_then_OkE: "and_then m f = Ok y \<Longrightarrow> (\<And>x. f x = Ok y \<Longrightarrow> thesis) \<Longrightarrow> thesis"
  by (auto simp: result_simps)

lemma guard_OkE: "(if b then Err e else r) = Ok y \<Longrightarrow> (r = Ok y \<Longrightarrow> thesis) \<Longrightarrow> thesis"
  by (cases b) simp_all

lemma time_parse_i64: "time_parse txt = Ok ms \<Longrightarrow> \<exists>x. ms = i64 x"
  unfolding time_parse_def Let_def case_prod_unfold
  by (elim and_then_OkE guard_OkE) (simp only: result.inject, blast)

lemma parse_time_i64: "parse_time t = Some ms \<Longrightarrow> sint (word_of_int ms :: i64) = ms"
proof -
  assume "parse_time t = Some ms"
  then have "time_parse (map time_char (utf8_scalars t)) = Ok ms"
    unfolding parse_time_def by (cases "time_parse (map time_char (utf8_scalars t))") simp_all
  then obtain x where x: "ms = i64 x" using time_parse_i64 by blast
  have "- (2 ^ 63) \<le> i64 x" using pos_mod_sign [of "2 ^ 64" "x + 2 ^ 63"] by (simp add: i64_def)
  with i64_below [of x] have "sint (word_of_int (i64 x) :: i64) = i64 x"
    by (simp add: signed_of_int signed_take_bit_int_eq_self)
  then show ?thesis by (simp add: x)
qed

text \<open>The values a field of a type holds, and the key of one.\<close>

definition fits_type :: "data_type \<Rightarrow> val \<Rightarrow> bool" where
  "fits_type ty v =
     (case ty of
        TInt \<Rightarrow> (case v of VInt _ \<Rightarrow> True | _ \<Rightarrow> False)
      | TFloat \<Rightarrow> (case v of VFloat _ \<Rightarrow> True | _ \<Rightarrow> False)
      | TTimestamp \<Rightarrow> (case v of VTimestamp _ \<Rightarrow> True | _ \<Rightarrow> False)
      | TText \<Rightarrow> (case v of VText _ \<Rightarrow> True | _ \<Rightarrow> False)
      | TJson \<Rightarrow> v \<noteq> VNull
      | _ \<Rightarrow> False)"

definition value_key :: "data_type \<Rightarrow> val \<Rightarrow> key option" where
  "value_key ty v =
     (case ty of
        TText \<Rightarrow> (case text_slot (Some v) of Key t \<Rightarrow> Some (Key_text t) | _ \<Rightarrow> None)
      | TJson \<Rightarrow> (case json_slot (Some v) of Json_num k \<Rightarrow> Some (Key_num k) | Json_text t \<Rightarrow> Some (Key_text t) | _ \<Rightarrow> None)
      | _ \<Rightarrow> (case num_slot (Some v) of Key k \<Rightarrow> Some (Key_num k) | _ \<Rightarrow> None))"

text \<open>
  A timestamp and an int meet as two doubles: at \<open>2 ^ 53\<close> itself the int is the double of a timestamp
  that is another.
\<close>

definition exact_literal :: "data_type \<Rightarrow> val \<Rightarrow> bool" where
  "exact_literal ty lit \<longleftrightarrow> \<not> (ty = TTimestamp \<and> (case lit of VInt ms \<Rightarrow> \<bar>sint ms\<bar> = 2 ^ 53 | _ \<Rightarrow> False))"

lemma f64_of_i64_nan: "\<not> f64_is_nan (f64_of_int (sint i))" for i :: i64
  by (rule f64_of_int_place(2)) (rule sint_bound)

lemma float_key_or_equal:
  "\<not> f64_is_nan a \<Longrightarrow> \<not> f64_is_nan b \<Longrightarrow> or_equal (f64_partial_cmp a b) = cmp (float_key a) (float_key b)"
  by (simp add: float_key_cmp or_equal_def)

lemma float_key_small:
  assumes "\<bar>a\<bar> \<le> 2 ^ 53" "\<bar>b\<bar> \<le> 2 ^ 53"
  shows "cmp (float_key (f64_of_int a)) (float_key (f64_of_int b)) = cmp a b"
proof -
  have nn: "\<not> f64_is_nan (f64_of_int a)" "\<not> f64_is_nan (f64_of_int b)"
    using assms by (intro f64_of_int_place(2); simp)+
  have "cmp (float_key (f64_of_int a)) (float_key (f64_of_int b)) = cmp (f64_value (f64_of_int a)) (f64_value (f64_of_int b))"
    using float_key_cmp [OF nn] int_double_cmp [OF nn] by simp
  also have "\<dots> = cmp a b"
    unfolding f64_value_of_int [OF assms(1)] f64_value_of_int [OF assms(2)]
    by (simp only: cmp_scale zero_less_power zero_less_numeral)
  finally show ?thesis .
qed

lemma timestamp_int_key:
  fixes t ms :: i64
  assumes "\<bar>sint ms\<bar> \<le> 2 ^ 53" "\<bar>sint ms\<bar> \<noteq> 2 ^ 53"
  shows "cmp (float_key (f64_of_int (sint t))) (float_key (f64_of_int (sint ms))) = cmp (sint t) (sint ms)"
proof -
  have "\<bar>sint ms\<bar> < 2 ^ 53" using assms by linarith
  from small_int_cmp [OF sint_bound [of t] this] float_key_cmp [OF f64_of_i64_nan [of t] f64_of_i64_nan [of ms]]
  show ?thesis by simp
qed

lemma rank_order: "cmp (2 :: nat) 3 = Less" "cmp (3 :: nat) 2 = Greater"
  by (simp_all add: cmp_def)

lemmas key_rules = value_key_def si_bound_def exact_literal_def cmp_other_def int_key_cmp float_key_or_equal f64_of_i64_nan
  float_key_small [simplified] json_exact_def rank_order

lemma key_is_value_num:
  assumes "value_key ty v = Some kv" "si_bound ty lit = Some k" "fits_type ty v" "exact_literal ty lit" "is_number ty"
  shows "key_cmp kv k = cmp_value v lit"
proof (cases ty)
  case TInt
  then obtain i where "v = VInt i" using assms(3) by (cases v) (auto simp: fits_type_def)
  then show ?thesis using TInt assms(1,2) by (cases lit) (auto simp: key_rules)
next
  case TFloat
  then obtain f where "v = VFloat f" using assms(3) by (cases v) (auto simp: fits_type_def)
  then show ?thesis using TFloat assms(1,2) by (cases lit) (auto simp: key_rules split: if_splits)
next
  case TTimestamp
  then obtain t where "v = VTimestamp t" using assms(3) by (cases v) (auto simp: fits_type_def)
  then show ?thesis using TTimestamp assms(1,2,4)
    by (cases lit) (auto simp: key_rules timestamp_int_key [simplified] parse_time_i64 split: if_splits)
qed (use assms(5) in \<open>simp_all add: is_number_def\<close>)

lemma json_key_cases:
  assumes "si_bound TJson v = Some k"
  obtains i where "v = VInt i" "\<bar>sint i\<bar> \<le> 2 ^ 53" "k = Key_num (float_key (f64_of_int (sint i)))"
  | f where "v = VFloat f" "\<not> f64_is_nan f" "k = Key_num (float_key f)"
  | t where "v = VText t" "k = Key_text t"
  using assms by (cases v) (auto simp: si_bound_def json_exact_def split: if_splits)

lemma value_key_json: "value_key TJson v = si_bound TJson v"
  by (simp add: value_key_def si_bound_def)

lemma json_key_is_value:
  assumes "si_bound TJson v = Some kv" "si_bound TJson lit = Some k"
  shows "key_cmp kv k = cmp_value v lit"
  using assms(1)
proof (cases v kv rule: json_key_cases)
  case (1 i)
  show ?thesis using assms(2)
    by (cases lit k rule: json_key_cases) (use 1 in \<open>simp_all add: key_rules\<close>)
next
  case (2 f)
  show ?thesis using assms(2)
    by (cases lit k rule: json_key_cases) (use 2 in \<open>simp_all add: key_rules\<close>)
next
  case (3 t)
  show ?thesis using assms(2)
    by (cases lit k rule: json_key_cases) (use 3 in \<open>simp_all add: key_rules\<close>)
qed

lemma key_is_value:
  assumes "value_key ty v = Some kv" "si_bound ty lit = Some k" "fits_type ty v" "exact_literal ty lit"
  shows "key_cmp kv k = cmp_value v lit"
proof -
  consider "is_number ty" | "ty = TText" | "ty = TJson" using assms(3) by (cases ty) (auto simp: is_number_def fits_type_def)
  then show ?thesis
  proof cases
    case 2
    then obtain t where "v = VText t" using assms(3) by (cases v) (auto simp: fits_type_def)
    then show ?thesis using 2 assms(1,2) by (cases lit) (auto simp: key_rules)
  qed (use assms key_is_value_num json_key_is_value value_key_json in auto)
qed

section \<open>The ids of a range\<close>

lemma take_ids_all:
  "length out \<le> cap \<Longrightarrow> take_ids cap (Some out) is = (if length (out @ is) \<le> cap then Some (out @ is) else None)"
  by (induction "is" arbitrary: out) auto

definition capped :: "nat \<Rightarrow> docid list \<Rightarrow> docid list option" where
  "capped cap ids = (if length ids \<le> cap then Some ids else None)"

lemma take_ids_capped: "take_ids cap (Some []) is = capped cap is"
  by (simp add: take_ids_all capped_def)

lemma take_range_capped:
  assumes "ch_range entry_cmp lo hi c = Ok es"
  shows "take_range cap lo hi c (capped cap ids) = Ok (capped cap (ids @ map snd es))"
  using assms by (auto simp: take_range_def capped_def take_ids_all)

lemma ch_range_holds:
  fixes c :: "('k::linorder \<times> docid) chunked"
  assumes "holds_in c es" "inj_on snd es"
  shows "\<exists>xs. ch_range entry_cmp lo hi c = Ok xs \<and> distinct (map snd xs)
     \<and> set (map snd xs) = {i. \<exists>k. (k, i) \<in> es \<and> within entry_cmp lo hi (k, i)}"
proof -
  have c: "ch_inv entry_cmp c" "set (ch_iter c) = es" using assms(1) by (auto simp: holds_in_def)
  have "distinct xs" if "sorted_wrt (\<lambda>a b. entry_cmp a b = Less) xs" for xs :: "('k \<times> docid) list"
    using that by (induction xs) auto
  then have "distinct (ch_iter c)" using c(1) by (simp add: ch_inv_def ascends_def)
  then have "distinct (map snd (filter (within entry_cmp lo hi) (ch_iter c)))"
    using assms(2) c(2) by (auto simp: distinct_map inj_on_def)
  then show ?thesis using entry.range_is_filter [OF c(1)] c(2) by (force simp: image_iff)
qed

text \<open>The conditions a range is made of, and the rows the scan finds.\<close>

fun bounds_of :: "data_type \<Rightarrow> (cmp_op \<times> val) list \<Rightarrow> (cmp_op \<times> key) list option" where
  "bounds_of ty [] = Some []"
| "bounds_of ty ((oper, lit) # cs) =
     (case si_bound ty lit of None \<Rightarrow> None | Some k \<Rightarrow> map_option ((#) (oper, k)) (bounds_of ty cs))"

definition scan_ids :: "rows \<Rightarrow> (cmp_op \<times> val) list \<Rightarrow> docid set" where
  "scan_ids rows cs = {i. \<exists>v. rows i = Some (Some v) \<and> (\<forall>(oper, lit)\<in>set cs. compare oper v lit)}"

definition rows_fit :: "data_type \<Rightarrow> rows \<Rightarrow> bool" where
  "rows_fit ty rows \<longleftrightarrow> (\<forall>i v. rows i = Some (Some v) \<longrightarrow> v = VNull \<or> fits_type ty v) \<and> (\<forall>i\<in>dom rows. i \<le> docid_max)"

definition index_kind :: "data_type \<Rightarrow> sorted_index \<Rightarrow> bool" where
  "index_kind ty ix = (case ix of Num _ \<Rightarrow> is_number ty | Text _ \<Rightarrow> ty = TText | Json _ \<Rightarrow> ty = TJson)"

lemma si_new_kind: "orderable ty \<Longrightarrow> index_kind ty (si_new ty)"
  by (cases ty) (simp_all add: orderable_def index_kind_def si_new_def is_number_def)

lemma si_writes_kind:
  "si_insert i v ix = Ok ix' \<Longrightarrow> index_kind ty ix' = index_kind ty ix" "si_remove i v ix = Ok ix' \<Longrightarrow> index_kind ty ix' = index_kind ty ix"
  by (cases ix; auto simp: index_kind_def result_simps split: jslot.splits)+

lemma index_writes_kind: "index_writes ws rows ix = Ok ix' \<Longrightarrow> index_kind ty ix' = index_kind ty ix"
proof (induction ws arbitrary: rows ix)
  case (Cons iw ws)
  obtain i w where "iw = (i, w)" by (cases iw)
  with Cons show ?case by (cases "rows i"; cases w) (auto simp: result_simps dest: si_writes_kind [of _ _ _ _ ty])
qed simp

lemma bound_not_null: "si_bound ty lit = Some k \<Longrightarrow> \<not> is_null lit"
  by (cases lit; cases ty) (simp_all add: si_bound_def)

lemma bounds_of_all:
  assumes "bounds_of ty cs = Some ks"
    and "\<And>oper lit k. (oper, lit) \<in> set cs \<Longrightarrow> si_bound ty lit = Some k \<Longrightarrow> P oper k \<longleftrightarrow> Q oper lit"
  shows "(\<forall>(oper, k)\<in>set ks. P oper k) \<longleftrightarrow> (\<forall>(oper, lit)\<in>set cs. Q oper lit)"
  using assms
proof (induction cs arbitrary: ks)
  case (Cons c cs)
  obtain oper lit where c: "c = (oper, lit)" by (cases c)
  with Cons.prems(1) obtain k ks' where k: "si_bound ty lit = Some k" "bounds_of ty cs = Some ks'" "ks = (oper, k) # ks'"
    by (auto split: option.splits)
  have "(\<forall>(oper, k)\<in>set ks'. P oper k) \<longleftrightarrow> (\<forall>(oper, lit)\<in>set cs. Q oper lit)"
    by (rule Cons.IH [OF k(2)], rule Cons.prems(2)) simp_all
  moreover have "P oper k \<longleftrightarrow> Q oper lit" using Cons.prems(2) k(1) by (simp add: c)
  ultimately show ?case by (simp add: c k(3))
qed simp

lemma bounds_of_null: "bounds_of ty cs = Some ks \<Longrightarrow> (oper, lit) \<in> set cs \<Longrightarrow> \<not> is_null lit"
  using bounds_of_all [of ty cs ks "\<lambda>_ _. True" "\<lambda>_ lit. \<not> is_null lit"] bound_not_null by fastforce

lemma bounds_of_kind:
  assumes "bounds_of ty cs = Some ks"
  shows "is_number ty \<Longrightarrow> \<forall>(oper, k)\<in>set ks. \<exists>n. k = Key_num n" "ty = TText \<Longrightarrow> \<forall>(oper, k)\<in>set ks. \<exists>t. k = Key_text t"
proof -
  have n: "\<exists>n. k = Key_num n" if "si_bound ty lit = Some k" "is_number ty" for lit k
    using that by (cases ty; cases lit) (auto simp: si_bound_def is_number_def split: if_splits)
  then show "is_number ty \<Longrightarrow> \<forall>(oper, k)\<in>set ks. \<exists>n. k = Key_num n"
    using bounds_of_all [OF assms, of "\<lambda>_ k. \<exists>n. k = Key_num n" "\<lambda>_ _. True"] by simp
  have t: "\<exists>t. k = Key_text t" if "si_bound TText lit = Some k" for lit k
    using that by (cases lit) (auto simp: si_bound_def)
  then show "ty = TText \<Longrightarrow> \<forall>(oper, k)\<in>set ks. \<exists>t. k = Key_text t"
    using bounds_of_all [OF assms, of "\<lambda>_ k. \<exists>t. k = Key_text t" "\<lambda>_ _. True"] by simp
qed

lemma range_of_kind:
  "\<forall>(oper, k)\<in>set ks. \<exists>n. k = Key_num n \<Longrightarrow> \<not> is_text (r_lo (range_of ks)) \<and> \<not> is_text (r_hi (range_of ks))"
  "\<forall>(oper, k)\<in>set ks. \<exists>t. k = Key_text t \<Longrightarrow> \<not> is_num (r_lo (range_of ks)) \<and> \<not> is_num (r_hi (range_of ks))"
proof -
  have n: "\<not> is_text (r_lo (narrow oper (Key_num n) r)) \<and> \<not> is_text (r_hi (narrow oper (Key_num n) r))"
    if "\<not> is_text (r_lo r) \<and> \<not> is_text (r_hi r)" for oper n r
    using that by (cases oper) (auto simp: narrow_def tighten_lo_def tighten_hi_def)
  then have "\<forall>(oper, k)\<in>set ks. \<exists>n. k = Key_num n \<Longrightarrow> \<not> is_text (r_lo r) \<and> \<not> is_text (r_hi r) \<Longrightarrow>
     \<not> is_text (r_lo (fold (\<lambda>(oper, k). narrow oper k) ks r)) \<and> \<not> is_text (r_hi (fold (\<lambda>(oper, k). narrow oper k) ks r))" for r
    by (induction ks arbitrary: r) auto
  then show "\<forall>(oper, k)\<in>set ks. \<exists>n. k = Key_num n \<Longrightarrow> \<not> is_text (r_lo (range_of ks)) \<and> \<not> is_text (r_hi (range_of ks))"
    by (simp add: range_of_def range_all_def)
  have t: "\<not> is_num (r_lo (narrow oper (Key_text n) r)) \<and> \<not> is_num (r_hi (narrow oper (Key_text n) r))"
    if "\<not> is_num (r_lo r) \<and> \<not> is_num (r_hi r)" for oper n r
    using that by (cases oper) (auto simp: narrow_def tighten_lo_def tighten_hi_def)
  then have "\<forall>(oper, k)\<in>set ks. \<exists>t. k = Key_text t \<Longrightarrow> \<not> is_num (r_lo r) \<and> \<not> is_num (r_hi r) \<Longrightarrow>
     \<not> is_num (r_lo (fold (\<lambda>(oper, k). narrow oper k) ks r)) \<and> \<not> is_num (r_hi (fold (\<lambda>(oper, k). narrow oper k) ks r))" for r
    by (induction ks arbitrary: r) auto
  then show "\<forall>(oper, k)\<in>set ks. \<exists>t. k = Key_text t \<Longrightarrow> \<not> is_num (r_lo (range_of ks)) \<and> \<not> is_num (r_hi (range_of ks))"
    by (simp add: range_of_def range_all_def)
qed

text \<open>Which rows the conditions hold of, by their slot.\<close>

lemma bounds_of_ne:
  "bounds_of ty cs = Some ks \<Longrightarrow> \<forall>(oper, lit)\<in>set cs. oper \<noteq> Ne \<Longrightarrow> \<forall>(oper, k)\<in>set ks. oper \<noteq> Ne"
  using bounds_of_all [of ty cs ks "\<lambda>oper _. oper \<noteq> Ne" "\<lambda>oper _. oper \<noteq> Ne"] by simp

lemma row_in_range:
  assumes "bounds_of ty cs = Some ks" "\<forall>(oper, lit)\<in>set cs. oper \<noteq> Ne" "\<forall>(oper, lit)\<in>set cs. exact_literal ty lit"
    "fits_type ty v" "value_key ty v = Some kv"
  shows "in_range (range_of ks) kv \<longleftrightarrow> (\<forall>(oper, lit)\<in>set cs. compare oper v lit)"
proof -
  have nn: "\<not> is_null v" using assms(4) by (cases v; cases ty) (auto simp: fits_type_def)
  have "op_holds oper (key_cmp kv k) \<longleftrightarrow> compare oper v lit" if "(oper, lit) \<in> set cs" "si_bound ty lit = Some k" for oper lit k
    using key_is_value [OF assms(5) that(2) assms(4)] that assms(3) bound_not_null [OF that(2)] nn
    by (auto simp: compare_def)
  from bounds_of_all [OF assms(1) this] show ?thesis
    using range_of_within(1) [OF bounds_of_ne [OF assms(1,2)]] by simp
qed

lemma nan_in_range:
  assumes "bounds_of ty cs = Some ks" "\<forall>(oper, lit)\<in>set cs. oper \<noteq> Ne" "fits_type ty v" "num_slot (Some v) = Nan" "is_number ty"
  shows "\<not> r_strict (range_of ks) \<longleftrightarrow> (\<forall>(oper, lit)\<in>set cs. compare oper v lit)"
proof -
  obtain f where f: "v = VFloat f" "f64_is_nan f" "ty = TFloat"
    using assms(3-5) by (cases v; cases ty) (auto simp: fits_type_def is_number_def split: if_splits)
  have c: "cmp_value v lit = Equal" if "si_bound ty lit = Some k" for lit k
    using that f by (cases lit) (auto simp: si_bound_def cmp_other_def f64_partial_cmp_def float_cmp_def f64_is_nan_def or_equal_def)
  have "\<not> (oper = Lt \<or> oper = Gt) \<longleftrightarrow> compare oper v lit" if "(oper, lit) \<in> set cs" "si_bound ty lit = Some k" for oper lit k
    using c [OF that(2)] bound_not_null [OF that(2)] that(1) assms(2) f(1)
    by (cases oper) (auto simp: compare_def op_holds_def)
  from bounds_of_all [OF assms(1) this] show ?thesis
    using range_of_within(2) [OF bounds_of_ne [OF assms(1,2)]] by fastforce
qed

lemma null_in_range:
  assumes "bounds_of ty cs = Some ks" "\<forall>(oper, lit)\<in>set cs. oper \<noteq> Ne" "cs \<noteq> []" "is_null v"
  shows "\<not> (\<forall>(oper, lit)\<in>set cs. compare oper v lit)"
proof -
  obtain oper lit where c: "(oper, lit) \<in> set cs" using assms(3) by (cases cs) auto
  have "\<not> compare oper v lit" using bounds_of_null [OF assms(1) c] c assms(2,4) by (cases oper) (auto simp: compare_def)
  then show ?thesis using c by auto
qed

lemma keyed_inj: "inj_on snd (keyed sl rows)" "inj_on snd (left_out dflt s sl rows)"
  by (auto simp: inj_on_def keyed_def left_out_def slotted_def)

lemma ch_iter_holds:
  assumes "holds_in c es" "inj_on snd es"
  shows "distinct (map snd (ch_iter c))" "set (map snd (ch_iter c)) = snd ` es"
proof -
  have "ch_range entry_cmp Unbounded Unbounded c = Ok (ch_iter c)"
    using entry.range_is_filter [of c Unbounded Unbounded] assms(1) by (simp add: holds_in_def)
  with ch_range_holds [OF assms, of Unbounded Unbounded]
  show "distinct (map snd (ch_iter c))" "set (map snd (ch_iter c)) = snd ` es" by (force simp: image_iff)+
qed

text \<open>The ids of the entries of a part whose key lies in a range.\<close>

definition part_ids :: "('k \<Rightarrow> bool) \<Rightarrow> (val option \<Rightarrow> 'k slot option) \<Rightarrow> rows \<Rightarrow> docid set" where
  "part_ids p sl rows = {i. \<exists>k. slotted sl rows (Key k) i \<and> p k}"

lemma part_range:
  assumes "o_holds dflt sl rows ox" "\<And>k i. slotted sl rows (Key k) i \<Longrightarrow> within entry_cmp lo hi (k, i) \<longleftrightarrow> p k"
  shows "\<exists>xs. (\<forall>cap ids. take_range cap lo hi (o_keys ox) (capped cap ids) = Ok (capped cap (ids @ xs)))
     \<and> distinct xs \<and> set xs = part_ids p sl rows"
proof -
  obtain es where es: "ch_range entry_cmp lo hi (o_keys ox) = Ok es" "distinct (map snd es)"
    "set (map snd es) = {i. \<exists>k. (k, i) \<in> keyed sl rows \<and> within entry_cmp lo hi (k, i)}"
    using ch_range_holds [OF _ keyed_inj(1)] assms(1) unfolding o_holds_def by blast
  have "set (map snd es) = part_ids p sl rows" unfolding es(3) part_ids_def keyed_def using assms(2) by auto
  with take_range_capped [OF es(1)] es(2) show ?thesis by blast
qed

lemma in_range_split: "in_range r k \<longleftrightarrow> within key_cmp (r_lo r) Unbounded k \<and> within key_cmp Unbounded (r_hi r) k"
  by (auto simp: within_def)

lemma json_nums_within:
  assumes "i \<le> docid_max"
  shows "json_nums (Some r) = Some (lo, hi) \<Longrightarrow> within entry_cmp lo hi (k, i) \<longleftrightarrow> in_range r (Key_num k)"
    and "json_nums (Some r) = None \<Longrightarrow> \<not> in_range r (Key_num k)"
  using num_ends [OF assms] other_kind
  by (auto simp: json_nums_def in_range_split [of r] entry.within_both [of lo hi] split: if_splits)

lemma json_texts_within:
  assumes "i \<le> docid_max"
  shows "json_texts (Some r) = Some (lo, hi) \<Longrightarrow> within entry_cmp lo hi (k, i) \<longleftrightarrow> in_range r (Key_text k)"
    and "json_texts (Some r) = None \<Longrightarrow> \<not> in_range r (Key_text k)"
  using text_ends [OF assms] other_kind
  by (auto simp: json_texts_def in_range_split [of r] entry.within_both [of lo hi] split: if_splits)

lemma slotted_id: "rows_fit ty rows \<Longrightarrow> slotted sl rows s i \<Longrightarrow> i \<le> docid_max"
  by (auto simp: slotted_def rows_fit_def)

lemma num_part:
  assumes "o_holds dflt sl rows ox" "rows_fit ty rows" "json_nums (Some r) = Some (lo, hi)"
  shows "\<exists>xs. (\<forall>cap ids. take_range cap lo hi (o_keys ox) (capped cap ids) = Ok (capped cap (ids @ xs)))
     \<and> distinct xs \<and> set xs = part_ids (\<lambda>k. in_range r (Key_num k)) sl rows"
  by (rule part_range [OF assms(1)], rule json_nums_within(1) [OF slotted_id [OF assms(2)] assms(3)])

lemma text_part:
  assumes "o_holds dflt sl rows ox" "rows_fit ty rows" "json_texts (Some r) = Some (lo, hi)"
  shows "\<exists>xs. (\<forall>cap ids. take_range cap lo hi (o_keys ox) (capped cap ids) = Ok (capped cap (ids @ xs)))
     \<and> distinct xs \<and> set xs = part_ids (\<lambda>k. in_range r (Key_text k)) sl rows"
  by (rule part_range [OF assms(1)], rule json_texts_within(1) [OF slotted_id [OF assms(2)] assms(3)])

lemma num_range:
  assumes "index_holds rows (Num ox)" "rows_fit ty rows" "\<not> is_text (r_lo r)" "\<not> is_text (r_hi r)"
  shows "\<exists>ids. range_ids r cap (Num ox) = Ok (capped cap ids) \<and> distinct ids
     \<and> set ids = {i. \<not> r_strict r \<and> slotted (\<lambda>v. Some (num_slot v)) rows Nan i}
         \<union> part_ids (\<lambda>k. in_range r (Key_num k)) (\<lambda>v. Some (num_slot v)) rows"
proof -
  let ?sl = "\<lambda>v. Some (num_slot v)"
  have h: "o_holds 0 ?sl rows ox" using assms(1) by simp
  have "json_nums (Some r) = Some (num_bound True (r_lo r), num_bound False (r_hi r))" using assms(3,4) by (simp add: json_nums_def)
  from num_part [OF h assms(2) this] obtain xs where
    xs: "\<And>cap ids. take_range cap (num_bound True (r_lo r)) (num_bound False (r_hi r)) (o_keys ox) (capped cap ids)
      = Ok (capped cap (ids @ xs))" "distinct xs" "set xs = part_ids (\<lambda>k. in_range r (Key_num k)) ?sl rows" by blast
  have n: "holds_in (o_nans ox) (left_out 0 Nan ?sl rows)" using h by (simp add: o_holds_def)
  note ns = ch_iter_holds [OF n keyed_inj(2)]
  define nans where "nans = (if r_strict r then [] else map snd (ch_iter (o_nans ox)))"
  have s: "set nans = {i. \<not> r_strict r \<and> slotted ?sl rows Nan i}"
    unfolding nans_def if_distrib [of set] ns(2) by (force simp: left_out_def)
  moreover have "distinct nans" using ns(1) by (simp add: nans_def)
  moreover have "set nans \<inter> set xs = {}"
    unfolding s xs(3) by (auto simp: part_ids_def slotted_def)
  moreover have "range_ids r cap (Num ox) = Ok (capped cap (nans @ xs))"
    by (simp only: range_ids.simps nans_def [symmetric] take_ids_capped xs(1))
  ultimately show ?thesis using xs(2,3) by (intro exI [of _ "nans @ xs"]) simp
qed

lemma text_range:
  assumes "index_holds rows (Text ox)" "rows_fit ty rows" "\<not> is_num (r_lo r)" "\<not> is_num (r_hi r)"
  shows "\<exists>ids. range_ids r cap (Text ox) = Ok (capped cap ids) \<and> distinct ids
     \<and> set ids = part_ids (\<lambda>k. in_range r (Key_text k)) (\<lambda>v. Some (text_slot v)) rows"
proof -
  have h: "o_holds [] (\<lambda>v. Some (text_slot v)) rows ox" using assms(1) by simp
  have "json_texts (Some r) = Some (text_bound True (r_lo r), text_bound False (r_hi r))" using assms(3,4) by (simp add: json_texts_def)
  from text_part [OF h assms(2) this] show ?thesis by (metis append_Nil capped_def le0 list.size(3) range_ids.simps(2))
qed

lemma json_key_slots:
  "json_num_slot v = Some (Key k) \<longleftrightarrow> json_slot v = Json_num k" "json_text_slot v = Some (Key t) \<longleftrightarrow> json_slot v = Json_text t"
  by (auto simp: json_slots split: jslot.splits)

lemma json_range:
  assumes "index_holds rows (Json j)" "rows_fit ty rows"
  shows "\<exists>ids. range_ids r cap (Json j) = Ok (capped cap ids) \<and> distinct ids
     \<and> set ids = part_ids (\<lambda>k. in_range r (Key_num k)) json_num_slot rows
         \<union> part_ids (\<lambda>k. in_range r (Key_text k)) json_text_slot rows"
proof -
  have h: "o_holds 0 json_num_slot rows (j_num j)" "o_holds [] json_text_slot rows (j_text j)" using assms(1) by simp_all
  have some: "Some [] = capped cap []" by (simp add: capped_def)
  obtain ns where ns: "(case json_nums (Some r) of None \<Rightarrow> Ok (Some [])
       | Some (lo, hi) \<Rightarrow> take_range cap lo hi (o_keys (j_num j)) (Some [])) = Ok (capped cap ns)"
    "distinct ns" "set ns = part_ids (\<lambda>k. in_range r (Key_num k)) json_num_slot rows"
  proof (cases "json_nums (Some r)")
    case None
    then have "part_ids (\<lambda>k. in_range r (Key_num k)) json_num_slot rows = {}"
      using json_nums_within(2) [OF le0] by (simp add: part_ids_def)
    then show ?thesis using that [of "[]"] None some by simp
  next
    case (Some lh)
    then show ?thesis using num_part [OF h(1) assms(2), of r "fst lh" "snd lh"] that some
      by (metis (mono_tags, lifting) append_Nil case_prod_beta option.simps(5) prod.collapse)
  qed
  obtain ts where ts: "(case json_texts (Some r) of None \<Rightarrow> Ok (capped cap ns)
       | Some (lo, hi) \<Rightarrow> take_range cap lo hi (o_keys (j_text j)) (capped cap ns)) = Ok (capped cap (ns @ ts))"
    "distinct ts" "set ts = part_ids (\<lambda>k. in_range r (Key_text k)) json_text_slot rows"
  proof (cases "json_texts (Some r)")
    case None
    then have "part_ids (\<lambda>k. in_range r (Key_text k)) json_text_slot rows = {}"
      using json_texts_within(2) [OF le0] by (simp add: part_ids_def)
    then show ?thesis using that [of "[]"] None by simp
  next
    case (Some lh)
    then show ?thesis using text_part [OF h(2) assms(2), of r "fst lh" "snd lh"] that
      by (metis (mono_tags, lifting) case_prod_beta option.simps(5) prod.collapse)
  qed
  have "set ns \<inter> set ts = {}"
    unfolding ns(3) ts(3) by (auto simp: part_ids_def slotted_def json_key_slots)
  moreover have "range_ids r cap (Json j) = Ok (capped cap (ns @ ts))"
    by (simp only: range_ids.simps ns(1) and_then.simps ts(1))
  ultimately show ?thesis using ns(2,3) ts(2,3) by (intro exI [of _ "ns @ ts"]) simp
qed

lemma answers_iff:
  assumes "index_holds rows ix" "index_kind ty ix"
  shows "answers ix \<longleftrightarrow> (ty = TJson \<longrightarrow> (\<forall>i v. rows i = Some v \<longrightarrow> json_slot v \<noteq> Json_apart))"
proof (cases ix)
  case (Json j)
  then have "answers ix \<longleftrightarrow> left_out 0 Nan apart_slot rows = {}"
    using assms(1) entry.ch_is_empty_iff [of "j_apart j"] by (simp add: holds_in_def)
  also have "\<dots> \<longleftrightarrow> (\<forall>i v. rows i = Some v \<longrightarrow> json_slot v \<noteq> Json_apart)"
    by (auto simp: left_out_def slotted_def apart_slot_def)
  finally show ?thesis using Json assms(2) by (simp add: index_kind_def)
qed (use assms(2) in \<open>auto simp: index_kind_def is_number_def\<close>)

lemma rows_fit_at: "rows_fit ty rows \<Longrightarrow> rows i = Some (Some v) \<Longrightarrow> is_null v \<or> fits_type ty v"
  unfolding rows_fit_def by (metis is_null.simps(1))

lemma scan_by_row:
  assumes "\<And>i v. rows i = Some (Some v) \<Longrightarrow> i \<in> ids \<longleftrightarrow> (\<forall>(oper, lit)\<in>set cs. compare oper v lit)"
    and "\<And>i. i \<in> ids \<Longrightarrow> \<exists>v. rows i = Some (Some v)"
  shows "ids = scan_ids rows cs"
  using assms by (auto simp: scan_ids_def) blast

lemma num_slot_None: "num_slot v \<noteq> Null \<Longrightarrow> \<exists>x. v = Some x" "text_slot v = Key t \<Longrightarrow> \<exists>x. v = Some x"
  "json_slot v = Json_num k \<Longrightarrow> \<exists>x. v = Some x" "json_slot v = Json_text t \<Longrightarrow> \<exists>x. v = Some x"
  by (cases v; simp)+

lemma scan_num:
  assumes "bounds_of ty cs = Some ks" "cs \<noteq> []" "\<forall>(oper, lit)\<in>set cs. oper \<noteq> Ne" "\<forall>(oper, lit)\<in>set cs. exact_literal ty lit"
    "rows_fit ty rows" "is_number ty"
  shows "{i. \<not> r_strict (range_of ks) \<and> slotted (\<lambda>v. Some (num_slot v)) rows Nan i}
       \<union> part_ids (\<lambda>k. in_range (range_of ks) (Key_num k)) (\<lambda>v. Some (num_slot v)) rows = scan_ids rows cs"
proof -
  have "(\<forall>(oper, lit)\<in>set cs. compare oper v lit) \<longleftrightarrow>
      (case num_slot (Some v) of Key k \<Rightarrow> in_range (range_of ks) (Key_num k) | Nan \<Rightarrow> \<not> r_strict (range_of ks) | Null \<Rightarrow> False)"
    if "rows i = Some (Some v)" for i v
  proof -
    from rows_fit_at [OF assms(5) that] consider "is_null v" | "fits_type ty v" by blast
    then show ?thesis
    proof cases
      case 1
      then show ?thesis using null_in_range [OF assms(1,3,2) 1] by (cases v) auto
    next
      case 2
      show ?thesis
      proof (cases "num_slot (Some v)")
        case (Key k)
        then have "value_key ty v = Some (Key_num k)" using assms(6) by (cases ty) (simp_all add: value_key_def is_number_def)
        then show ?thesis using row_in_range [OF assms(1,3,4) 2] Key by simp
      next
        case Null
        then show ?thesis using 2 assms(6) by (cases ty; cases v) (auto simp: fits_type_def is_number_def split: if_splits)
      next
        case Nan
        then show ?thesis using nan_in_range [OF assms(1,3) 2 Nan assms(6)] by simp
      qed
    qed
  qed
  note row = this
  show ?thesis
  proof (rule scan_by_row, goal_cases)
    case (1 i v)
    then show ?case unfolding row [OF 1] by (cases "num_slot (Some v)") (simp_all add: part_ids_def slotted_def)
  next
    case (2 i)
    then show ?case by (force simp: part_ids_def slotted_def intro: num_slot_None(1))
  qed
qed

lemma scan_text:
  assumes "bounds_of TText cs = Some ks" "cs \<noteq> []" "\<forall>(oper, lit)\<in>set cs. oper \<noteq> Ne" "rows_fit TText rows"
  shows "part_ids (\<lambda>k. in_range (range_of ks) (Key_text k)) (\<lambda>v. Some (text_slot v)) rows = scan_ids rows cs"
proof -
  have ex: "\<forall>(oper, lit)\<in>set cs. exact_literal TText lit" by (simp add: exact_literal_def)
  have "(\<forall>(oper, lit)\<in>set cs. compare oper v lit) \<longleftrightarrow> (\<exists>t. v = VText t \<and> in_range (range_of ks) (Key_text t))"
    if "rows i = Some (Some v)" for i v
  proof -
    from rows_fit_at [OF assms(4) that] consider "is_null v" | t where "v = VText t" "fits_type TText v"
      by (cases v) (auto simp: fits_type_def)
    then show ?thesis
    proof cases
      case 1
      then show ?thesis using null_in_range [OF assms(1,3,2) 1] by (cases v) auto
    next
      case 2
      then show ?thesis using row_in_range [OF assms(1,3) ex 2(2), of "Key_text t"] by (simp add: value_key_def)
    qed
  qed
  note row = this
  have k: "text_slot v = Key t \<longleftrightarrow> v = Some (VText t)" for v t by (cases v rule: text_slot.cases) auto
  show ?thesis by (rule scan_by_row) (auto simp: row part_ids_def slotted_def k)
qed

lemma scan_json:
  assumes "bounds_of TJson cs = Some ks" "cs \<noteq> []" "\<forall>(oper, lit)\<in>set cs. oper \<noteq> Ne"
    "\<And>i v. rows i = Some v \<Longrightarrow> json_slot v \<noteq> Json_apart"
  shows "part_ids (\<lambda>k. in_range (range_of ks) (Key_num k)) json_num_slot rows
       \<union> part_ids (\<lambda>k. in_range (range_of ks) (Key_text k)) json_text_slot rows = scan_ids rows cs"
proof -
  have ex: "\<forall>(oper, lit)\<in>set cs. exact_literal TJson lit" by (simp add: exact_literal_def)
  have "(\<forall>(oper, lit)\<in>set cs. compare oper v lit) \<longleftrightarrow>
      (case json_slot (Some v) of Json_num k \<Rightarrow> in_range (range_of ks) (Key_num k) | Json_text t \<Rightarrow> in_range (range_of ks) (Key_text t)
       | _ \<Rightarrow> False)"
    if "rows i = Some (Some v)" for i v
  proof (cases "is_null v")
    case True
    then show ?thesis using null_in_range [OF assms(1,3,2) True] by (cases v) auto
  next
    case False
    then have f: "fits_type TJson v" by (cases v) (simp_all add: fits_type_def)
    have "json_slot (Some v) \<noteq> Json_null" "json_slot (Some v) \<noteq> Json_apart"
      using False assms(4) [OF that] by (cases v; simp split: if_splits)+
    then show ?thesis using row_in_range [OF assms(1,3) ex f] by (cases "json_slot (Some v)") (simp_all add: value_key_def)
  qed
  note row = this
  show ?thesis
  proof (rule scan_by_row, goal_cases)
    case (1 i v)
    then show ?case unfolding row [OF 1] by (cases "json_slot (Some v)") (simp_all add: part_ids_def slotted_def json_key_slots)
  next
    case (2 i)
    then show ?case by (auto simp: part_ids_def slotted_def json_key_slots dest: num_slot_None)
  qed
qed

lemma range_ids_scan:
  assumes "index_holds rows ix" "index_kind ty ix" "answers ix" "rows_fit ty rows" "bounds_of ty cs = Some ks" "cs \<noteq> []"
    "\<forall>(oper, lit)\<in>set cs. oper \<noteq> Ne" "\<forall>(oper, lit)\<in>set cs. exact_literal ty lit"
  shows "\<exists>ids. range_ids (range_of ks) cap ix = Ok (capped cap ids) \<and> distinct ids \<and> set ids = scan_ids rows cs"
proof (cases ix)
  case (Num ox)
  then have n: "is_number ty" using assms(2) by (simp add: index_kind_def)
  show ?thesis
    using num_range [of rows ox ty "range_of ks" cap] assms(1,4) range_of_kind(1) [OF bounds_of_kind(1) [OF assms(5) n]]
    unfolding Num scan_num [OF assms(5-8,4) n] by blast
next
  case (Text ox)
  then have t: "ty = TText" using assms(2) by (simp add: index_kind_def)
  show ?thesis
    using text_range [of rows ox ty "range_of ks" cap] assms(1,4) range_of_kind(2) [OF bounds_of_kind(2) [OF assms(5) t]]
    unfolding Text scan_text [OF assms(5-7,4) [unfolded t]] by blast
next
  case (Json j)
  then have t: "ty = TJson" using assms(2) by (simp add: index_kind_def)
  have "json_slot v \<noteq> Json_apart" if "rows i = Some v" for i v using answers_iff [OF assms(1,2)] assms(3) t that by blast
  from scan_json [OF assms(5) [unfolded t] assms(6,7) this] show ?thesis
    using json_range [of rows j ty "range_of ks" cap] assms(1,4) unfolding Json by simp
qed

end
