(* ===== verification/Fenec_Sorted_Answers.thy ===== *)
theory Fenec_Sorted_Answers
  imports Fenec_Sorted_Index "HOL-Library.Option_ord"
begin

text \<open>
  The answers of the ordered index against the scan. A walk hands over the rows in the order of
  \<open>cmp_value\<close>, ties by ascending id both ways; the last section states the properties of the chunked
  sequence, the keys, the ranges and the walks over any writes.
\<close>

section \<open>Walks\<close>

lemma and_emit_each: "and_emit (emit_each emit xs) (emit_each emit ys) = emit_each emit (xs @ ys)"
proof
  show "and_emit (emit_each emit xs) (emit_each emit ys) st = emit_each emit (xs @ ys) st" for st
  proof (induction xs arbitrary: st)
    case (Cons a xs)
    obtain st' r where e: "emit a st = (st', r)" by (cases "emit a st")
    then show ?case using Cons.IH [of st'] by (cases "r = Ok True") (auto simp: and_emit_def split: result.splits bool.splits)
  qed (simp add: and_emit_def)
qed

lemma emit_none: "(\<lambda>st. (st, Ok True)) = emit_each emit []"
  by auto

text \<open>Pairs of a key and an id, a missing key below every key: in order, ties by ascending id.\<close>

definition in_order :: "bool \<Rightarrow> ('k::linorder \<times> docid) list \<Rightarrow> bool" where
  "in_order desc = sorted_wrt (\<lambda>a b. (if desc then fst b < fst a else fst a < fst b) \<or> fst a = fst b \<and> snd a < snd b)"

fun desc_pairs :: "('k \<times> docid) list \<Rightarrow> ('k \<times> docid) list \<Rightarrow> ('k \<times> docid) list" where
  "desc_pairs [] run = rev run"
| "desc_pairs (e # es) run =
     (if run \<noteq> [] \<and> fst (hd run) = fst e then desc_pairs es (run @ [e]) else rev run @ desc_pairs es [e])"

lemma desc_loop_pairs:
  "rk = (if run = [] then None else Some (fst (hd run)))
     \<Longrightarrow> desc_loop emit es (map snd run) rk = emit_each emit (map snd (desc_pairs es run))"
proof (induction es arbitrary: run rk)
  case Nil
  show ?case by (auto simp: rev_map)
next
  case (Cons e es)
  obtain k i where e: "e = (k, i)" by (cases e)
  show ?case
  proof (cases "rk = Some k")
    case True
    with Cons.prems have r: "run \<noteq> []" "fst (hd run) = k" by (auto split: if_splits)
    have "desc_loop emit es (map snd (run @ [e])) rk = emit_each emit (map snd (desc_pairs es (run @ [e])))"
      by (rule Cons.IH) (use True r in simp)
    then show ?thesis using True r by (auto simp: e)
  next
    case False
    have "desc_loop emit es (map snd [e]) (Some k) = emit_each emit (map snd (desc_pairs es [e]))"
      by (rule Cons.IH) (simp add: e)
    then have g: "desc_loop emit es [i] (Some k) = emit_each emit (map snd (desc_pairs es [(k, i)]))" by (simp add: e)
    show ?thesis using False Cons.prems by (intro ext) (auto simp: e g rev_map and_emit_each split: if_splits)
  qed
qed

lemma desc_pairs_set: "set (desc_pairs es run) = set run \<union> set es"
  by (induction es run rule: desc_pairs.induct) auto

lemma run_order:
  assumes "sorted_wrt (\<lambda>a b. entry_cmp b a = Less) run" "\<forall>a\<in>set run. fst a = k"
  shows "in_order True (rev run)"
proof -
  have "fst y = fst x \<and> snd y < snd x" if "x \<in> set run" "y \<in> set run" "entry_cmp y x = Less" for x y
  proof -
    have "fst x = k" "fst y = k" using assms(2) that(1,2) by auto
    then show ?thesis using that(3) by (auto simp: entry_cmp_def)
  qed
  then have "sorted_wrt (\<lambda>a b. fst b = fst a \<and> snd b < snd a) run"
    using assms(1) by (rule sorted_wrt_mono_rel)
  then have "sorted_wrt (\<lambda>a b. fst a = fst b \<and> snd a < snd b) (rev run)" by (simp add: sorted_wrt_rev)
  then show ?thesis unfolding in_order_def by (rule sorted_wrt_mono_rel [rotated]) auto
qed

lemma desc_pairs_order:
  "sorted_wrt (\<lambda>a b. entry_cmp b a = Less) (run @ es) \<Longrightarrow> \<forall>a\<in>set run. fst a = fst (hd run) \<Longrightarrow> in_order True (desc_pairs es run)"
proof (induction es run rule: desc_pairs.induct)
  case (1 run)
  then show ?case using run_order [of run "fst (hd run)"] by simp
next
  case (2 e es run)
  show ?case
  proof (cases "run \<noteq> [] \<and> fst (hd run) = fst e")
    case True
    then have "in_order True (desc_pairs es (run @ [e]))"
      using 2(3,4) by (intro 2(1)) auto
    then show ?thesis using True by simp
  next
    case False
    have s: "sorted_wrt (\<lambda>a b. entry_cmp b a = Less) run" "sorted_wrt (\<lambda>a b. entry_cmp b a = Less) ([e] @ es)"
      "\<forall>a\<in>set run. \<forall>b\<in>set (e # es). entry_cmp b a = Less" using 2(3) by (auto simp: sorted_wrt_append)
    have t: "in_order True (desc_pairs es [e])" using s(2) by (intro 2(2) [OF False]) auto
    have r: "in_order True (rev run)" by (rule run_order [OF s(1) 2(4)])
    have "fst b < fst a" if "a \<in> set run" "b \<in> set (e # es)" for a b
    proof -
      have "fst a = fst (hd run)" "run \<noteq> []" using that(1) 2(4) by auto
      then have "fst a \<noteq> fst e" using False by simp
      moreover have "entry_cmp e a = Less" using s(3) that(1) by simp
      ultimately have "fst e < fst a" by (auto simp: entry_cmp_def cmp_def split: if_splits)
      moreover have "b = e \<or> entry_cmp b e = Less" using s(2) that(2) by auto
      then have "fst b \<le> fst e" by (auto simp: entry_cmp_def cmp_def split: if_splits)
      ultimately show ?thesis by simp
    qed
    then show ?thesis using r t False by (auto simp: in_order_def sorted_wrt_append desc_pairs_set)
  qed
qed

lemma in_order_map:
  assumes "\<And>k l. k < l \<Longrightarrow> f k < f l"
  shows "in_order desc xs \<Longrightarrow> in_order desc (map (map_prod f id) xs)"
  unfolding in_order_def sorted_wrt_map by (erule sorted_wrt_mono_rel [rotated]) (auto simp: assms split: if_splits)

lemma ascends_order: "ascends entry_cmp xs \<Longrightarrow> in_order False xs"
  unfolding ascends_def in_order_def by (erule sorted_wrt_mono_rel [rotated]) (auto simp: entry_cmp_def cmp_def split: if_splits)

lemma ascends_desc_order: "ascends entry_cmp xs \<Longrightarrow> in_order True (desc_pairs (rev xs) [])"
  by (rule desc_pairs_order) (simp_all add: ascends_def sorted_wrt_rev)

lemma in_order_append:
  "in_order desc (xs @ ys) \<longleftrightarrow> in_order desc xs \<and> in_order desc ys
     \<and> (\<forall>a\<in>set xs. \<forall>b\<in>set ys. (if desc then fst b < fst a else fst a < fst b) \<or> fst a = fst b \<and> snd a < snd b)"
  by (auto simp: in_order_def sorted_wrt_append)

lemma holds_in_pairs:
  assumes "holds_in c es"
  shows "\<exists>xs. ch_range entry_cmp lo hi c = Ok xs \<and> ascends entry_cmp xs \<and> set xs = {e\<in>es. within entry_cmp lo hi e}"
proof -
  have c: "ch_inv entry_cmp c" "set (ch_iter c) = es" using assms by (auto simp: holds_in_def)
  have "ascends entry_cmp (filter (within entry_cmp lo hi) (ch_iter c))"
    using c(1) by (simp add: ch_inv_def ascends_def sorted_wrt_filter)
  then show ?thesis using entry.range_is_filter [OF c(1)] c(2) by auto
qed

lemma walk_bounded_pairs:
  assumes "o_holds dflt sl rows ox" and mono: "\<And>k l. k < l \<Longrightarrow> key_of k < (key_of l :: key)"
  shows "\<exists>ps. (\<forall>emit :: 's emit. walk_bounded ox lo hi wn desc emit = emit_each emit (map snd ps)) \<and> in_order desc ps
     \<and> set ps = {(k, i). wn \<and> k = None \<and> slotted sl rows Null i}
         \<union> {(k, i). \<exists>x. k = Some (key_of x) \<and> slotted sl rows (Key x) i \<and> within entry_cmp lo hi (x, i)}"
proof -
  obtain xs where xs: "ch_range entry_cmp lo hi (o_keys ox) = Ok xs" "ascends entry_cmp xs"
    "set xs = {e\<in>keyed sl rows. within entry_cmp lo hi e}" using holds_in_pairs assms(1) unfolding o_holds_def by blast
  have n: "ch_inv entry_cmp (o_nulls ox)" "set (ch_iter (o_nulls ox)) = left_out dflt Null sl rows"
    using assms(1) by (auto simp: o_holds_def holds_in_def)
  define ns where "ns = (if wn then map (map_prod (\<lambda>_. None :: key option) id) (ch_iter (o_nulls ox)) else [])"
  define ks where "ks = map (map_prod (\<lambda>k. Some (key_of k)) id) (if desc then desc_pairs (rev xs) [] else xs)"
  have "ascends entry_cmp (ch_iter (o_nulls ox))" using n(1) by (simp add: ch_inv_def)
  then have "sorted_wrt (\<lambda>a b. snd a < snd b) (ch_iter (o_nulls ox))"
    unfolding ascends_def by (rule sorted_wrt_mono_rel [rotated])
      (use n(2) in \<open>auto simp: left_out_def entry_cmp_def\<close>)
  then have no: "in_order desc ns" by (auto simp: ns_def in_order_def sorted_wrt_map)
  have ko: "in_order desc ks"
    unfolding ks_def by (rule in_order_map) (auto simp: mono ascends_order ascends_desc_order xs(2))
  have "set ns = {(k, i). wn \<and> k = None \<and> slotted sl rows Null i}"
    unfolding ns_def using n(2) by (force simp: left_out_def)
  moreover have "set ks = {(k, i). \<exists>x. k = Some (key_of x) \<and> slotted sl rows (Key x) i \<and> within entry_cmp lo hi (x, i)}"
    unfolding ks_def using xs(3) by (force simp: desc_pairs_set keyed_def)
  moreover have "map snd ns = (if wn then map snd (ch_iter (o_nulls ox)) else [])" by (simp add: ns_def)
  moreover have "map snd ks = map snd (if desc then desc_pairs (rev xs) [] else xs)" by (simp add: ks_def)
  moreover have "desc_loop emit (rev xs) [] None = emit_each emit (map snd (desc_pairs (rev xs) []))" for emit :: "'s emit"
    using desc_loop_pairs [of None "[]" emit "rev xs"] by simp
  ultimately show ?thesis
    using no ko
    by (intro exI [of _ "if desc then ks @ ns else ns @ ks"])
      (auto simp: walk_bounded_def xs(1) and_emit_each [symmetric] in_order_append)
qed

definition in_given :: "range option \<Rightarrow> key \<Rightarrow> bool" where
  "in_given r k = (case r of None \<Rightarrow> True | Some r \<Rightarrow> in_range r k)"

definition part_pairs :: "('k \<Rightarrow> key) \<Rightarrow> bool \<Rightarrow> range option \<Rightarrow> (val option \<Rightarrow> 'k slot option) \<Rightarrow> rows \<Rightarrow> (key option \<times> docid) set" where
  "part_pairs key_of wn r sl rows = {(k, i). wn \<and> k = None \<and> slotted sl rows Null i}
     \<union> {(k, i). \<exists>x. k = Some (key_of x) \<and> slotted sl rows (Key x) i \<and> in_given r (key_of x)}"

lemma part_walk:
  assumes "o_holds dflt sl rows ox" "rows_fit ty rows" "\<And>k l. k < l \<Longrightarrow> key_of k < key_of l"
    and "\<And>lo hi x i. ends = Some (lo, hi) \<Longrightarrow> i \<le> docid_max \<Longrightarrow> within entry_cmp lo hi (x, i) \<longleftrightarrow> in_given r (key_of x)"
    and "ends = None \<Longrightarrow> \<not> wn \<and> (\<forall>x. \<not> in_given r (key_of x))"
  shows "\<exists>ps. (\<forall>emit :: 's emit. (case ends of None \<Rightarrow> (\<lambda>st. (st, Ok True))
       | Some (lo, hi) \<Rightarrow> walk_bounded ox lo hi wn desc emit) = emit_each emit (map snd ps))
     \<and> in_order desc ps \<and> set ps = part_pairs key_of wn r sl rows"
proof (cases ends)
  case None
  then show ?thesis using assms(5) by (intro exI [of _ "[]"]) (auto simp: part_pairs_def in_order_def)
next
  case (Some e)
  obtain lo hi where e: "e = (lo, hi)" by (cases e)
  obtain ps where ps: "\<forall>emit :: 's emit. walk_bounded ox lo hi wn desc emit = emit_each emit (map snd ps)" "in_order desc ps"
     "set ps = {(k, i). wn \<and> k = None \<and> slotted sl rows Null i}
         \<union> {(k, i). \<exists>x. k = Some (key_of x) \<and> slotted sl rows (Key x) i \<and> within entry_cmp lo hi (x, i)}"
    using walk_bounded_pairs [OF assms(1), of key_of, OF assms(3)] by blast
  have w: "within entry_cmp lo hi (x, i) \<longleftrightarrow> in_given r (key_of x)" if "slotted sl rows (Key x) i" for x i
    by (rule assms(4)) (simp_all add: Some e slotted_id [OF assms(2) that])
  have "set ps = part_pairs key_of wn r sl rows"
    unfolding ps(3) part_pairs_def by (auto simp: w cong: conj_cong)
  then show ?thesis using ps(1,2) Some e by auto
qed

lemma json_nums_given:
  "json_nums r = Some (lo, hi) \<Longrightarrow> i \<le> docid_max \<Longrightarrow> within entry_cmp lo hi (x, i) \<longleftrightarrow> in_given r (Key_num x)"
  "json_nums r = None \<Longrightarrow> r \<noteq> None \<and> (\<forall>x. \<not> in_given r (Key_num x))"
  using json_nums_within(1) json_nums_within(2) [OF le0]
  by (cases r; simp add: in_given_def json_nums_def [of None])+

lemma json_texts_given:
  "json_texts r = Some (lo, hi) \<Longrightarrow> i \<le> docid_max \<Longrightarrow> within entry_cmp lo hi (x, i) \<longleftrightarrow> in_given r (Key_text x)"
  "json_texts r = None \<Longrightarrow> r \<noteq> None \<and> (\<forall>x. \<not> in_given r (Key_text x))"
  using json_texts_within(1) json_texts_within(2) [OF le0]
  by (cases r; simp add: in_given_def json_texts_def [of None])+

lemma key_less [simp]: "Key_num a < Key_num b \<longleftrightarrow> a < b" "Key_text s < Key_text t \<longleftrightarrow> s < t" "Key_num a < Key_text t" "\<not> Key_text t < Key_num a"
  by (simp_all add: less_key_def)

lemma num_walk:
  assumes "o_holds dflt sl rows ox" "rows_fit ty rows" "wn \<Longrightarrow> r = None"
  shows "\<exists>ps. (\<forall>emit :: 's emit. (case json_nums r of None \<Rightarrow> (\<lambda>st. (st, Ok True))
       | Some (lo, hi) \<Rightarrow> walk_bounded ox lo hi wn desc emit) = emit_each emit (map snd ps))
     \<and> in_order desc ps \<and> set ps = part_pairs Key_num wn r sl rows"
  by (rule part_walk [OF assms(1,2)]) (use json_nums_given assms(3) in \<open>simp_all, blast+\<close>)

lemma text_walk:
  assumes "o_holds dflt sl rows ox" "rows_fit ty rows" "wn \<Longrightarrow> r = None"
  shows "\<exists>ps. (\<forall>emit :: 's emit. (case json_texts r of None \<Rightarrow> (\<lambda>st. (st, Ok True))
       | Some (lo, hi) \<Rightarrow> walk_bounded ox lo hi wn desc emit) = emit_each emit (map snd ps))
     \<and> in_order desc ps \<and> set ps = part_pairs Key_text wn r sl rows"
  by (rule part_walk [OF assms(1,2)]) (use json_texts_given assms(3) in \<open>simp_all, blast+\<close>)

text \<open>The rows as the walk is to hand them over.\<close>

definition row_key :: "data_type \<Rightarrow> rows \<Rightarrow> docid \<Rightarrow> key option" where
  "row_key ty rows i = (case rows i of Some (Some v) \<Rightarrow> value_key ty v | _ \<Rightarrow> None)"

definition row_pairs :: "data_type \<Rightarrow> rows \<Rightarrow> range option \<Rightarrow> (key option \<times> docid) set" where
  "row_pairs ty rows r = {(k, i). i \<in> dom rows \<and> k = row_key ty rows i
     \<and> (case k of None \<Rightarrow> r = None | Some k \<Rightarrow> in_given r k)}"

lemma has_nan_iff:
  assumes "index_holds rows ix" "index_kind ty ix"
  shows "has_nan ix \<longleftrightarrow> (\<exists>i v. rows i = Some v
     \<and> (if ty = TJson then json_slot v = Json_apart else is_number ty \<and> num_slot v = Nan))"
proof (cases ix)
  case (Num ox)
  then have "has_nan ix \<longleftrightarrow> left_out 0 Nan (\<lambda>v. Some (num_slot v)) rows \<noteq> {}"
    using assms(1) entry.ch_is_empty_iff [of "o_nans ox"] by (simp add: o_holds_def holds_in_def)
  moreover have "is_number ty" "ty \<noteq> TJson" using Num assms(2) by (auto simp: index_kind_def is_number_def)
  ultimately show ?thesis by (auto simp: left_out_def slotted_def)
next
  case (Text ox)
  then show ?thesis using assms(2) by (simp add: index_kind_def is_number_def)
next
  case (Json j)
  then show ?thesis using answers_iff [OF assms] assms(2) by (auto simp: index_kind_def)
qed

lemma num_pairs:
  assumes "is_number ty" "\<And>i v. rows i = Some v \<Longrightarrow> num_slot v \<noteq> Nan"
  shows "part_pairs Key_num (r = None) r (\<lambda>v. Some (num_slot v)) rows = row_pairs ty rows r"
proof -
  have k: "value_key ty v = (case num_slot (Some v) of Key k \<Rightarrow> Some (Key_num k) | _ \<Rightarrow> None)" for v
    using assms(1) by (cases ty) (simp_all add: is_number_def value_key_def)
  have "(k, i) \<in> part_pairs Key_num (r = None) r (\<lambda>v. Some (num_slot v)) rows \<longleftrightarrow> (k, i) \<in> row_pairs ty rows r" for k i
  proof (cases "rows i")
    case (Some w)
    then show ?thesis using assms(2) [OF Some]
      by (cases w; cases "num_slot w") (auto simp: part_pairs_def row_pairs_def row_key_def slotted_def k)
  qed (simp add: part_pairs_def row_pairs_def slotted_def domIff)
  then show ?thesis by auto
qed

lemma text_pairs: "part_pairs Key_text (r = None) r (\<lambda>v. Some (text_slot v)) rows = row_pairs TText rows r"
proof -
  have "(k, i) \<in> part_pairs Key_text (r = None) r (\<lambda>v. Some (text_slot v)) rows \<longleftrightarrow> (k, i) \<in> row_pairs TText rows r" for k i
  proof (cases "rows i")
    case (Some w)
    moreover have "text_slot w \<noteq> Nan" by (cases w rule: text_slot.cases) simp_all
    ultimately show ?thesis
      by (cases w; cases "text_slot w") (auto simp: part_pairs_def row_pairs_def row_key_def slotted_def value_key_def)
  qed (simp add: part_pairs_def row_pairs_def slotted_def domIff)
  then show ?thesis by auto
qed

lemma json_pairs:
  assumes "\<And>i v. rows i = Some v \<Longrightarrow> json_slot v \<noteq> Json_apart"
  shows "part_pairs Key_num (r = None) r json_num_slot rows \<union> part_pairs Key_text False r json_text_slot rows = row_pairs TJson rows r"
proof -
  have n: "json_num_slot v = Some Null \<longleftrightarrow> json_slot v = Json_null" for v by (auto simp: json_slots split: jslot.splits)
  have "(k, i) \<in> part_pairs Key_num (r = None) r json_num_slot rows \<union> part_pairs Key_text False r json_text_slot rows
      \<longleftrightarrow> (k, i) \<in> row_pairs TJson rows r" for k i
  proof (cases "rows i")
    case (Some w)
    then show ?thesis using assms [OF Some]
      by (cases w; cases "json_slot w") (auto simp: part_pairs_def row_pairs_def row_key_def slotted_def value_key_def json_key_slots n)
  qed (simp add: part_pairs_def row_pairs_def slotted_def domIff)
  then show ?thesis by auto
qed

definition range_fits :: "data_type \<Rightarrow> range option \<Rightarrow> bool" where
  "range_fits ty r \<longleftrightarrow> (case r of None \<Rightarrow> True | Some r \<Rightarrow>
     (is_number ty \<longrightarrow> \<not> is_text (r_lo r) \<and> \<not> is_text (r_hi r)) \<and> (ty = TText \<longrightarrow> \<not> is_num (r_lo r) \<and> \<not> is_num (r_hi r)))"

lemma walk_parts_pairs:
  assumes "index_holds rows ix" "index_kind ty ix" "\<not> has_nan ix" "rows_fit ty rows" "range_fits ty r"
  shows "\<exists>ps. (\<forall>emit :: 's emit. walk_parts desc r emit ix = emit_each emit (map snd ps)) \<and> in_order desc ps
     \<and> set ps = row_pairs ty rows r"
proof (cases ix)
  case (Num ox)
  then have n: "is_number ty" "ty \<noteq> TJson" using assms(2) by (auto simp: index_kind_def is_number_def)
  have "num_slot v \<noteq> Nan" if "rows i = Some v" for i v using has_nan_iff [OF assms(1,2)] assms(3) n that by auto
  then have p: "part_pairs Key_num (r = None) r (\<lambda>v. Some (num_slot v)) rows = row_pairs ty rows r"
    by (rule num_pairs [OF n(1)])
  have j: "json_nums r = Some (case r of None \<Rightarrow> Unbounded | Some r \<Rightarrow> num_bound True (r_lo r),
      case r of None \<Rightarrow> Unbounded | Some r \<Rightarrow> num_bound False (r_hi r))"
    using assms(5) n by (cases r) (auto simp: range_fits_def json_nums_def)
  have "o_holds 0 (\<lambda>v. Some (num_slot v)) rows ox" using assms(1) Num by simp
  from num_walk [OF this assms(4), of "r = None" r desc] show ?thesis unfolding Num p j by simp
next
  case (Text ox)
  then have t: "ty = TText" using assms(2) by (simp add: index_kind_def)
  have j: "json_texts r = Some (case r of None \<Rightarrow> Unbounded | Some r \<Rightarrow> text_bound True (r_lo r),
      case r of None \<Rightarrow> Unbounded | Some r \<Rightarrow> text_bound False (r_hi r))"
    using assms(5) t by (cases r) (auto simp: range_fits_def json_texts_def)
  have "o_holds [] (\<lambda>v. Some (text_slot v)) rows ox" using assms(1) Text by simp
  from text_walk [OF this assms(4), of "r = None" r desc] show ?thesis unfolding Text text_pairs j t by simp
next
  case (Json j)
  then have t: "ty = TJson" using assms(2) by (simp add: index_kind_def)
  have h: "o_holds 0 json_num_slot rows (j_num j)" "o_holds [] json_text_slot rows (j_text j)" using assms(1) Json by simp_all
  have "json_slot v \<noteq> Json_apart" if "rows i = Some v" for i v using has_nan_iff [OF assms(1,2)] assms(3) t that by auto
  then have p: "part_pairs Key_num (r = None) r json_num_slot rows \<union> part_pairs Key_text False r json_text_slot rows = row_pairs TJson rows r"
    by (rule json_pairs)
  obtain ns where ns: "\<forall>emit :: 's emit. (case json_nums r of None \<Rightarrow> (\<lambda>st. (st, Ok True))
       | Some (lo, hi) \<Rightarrow> walk_bounded (j_num j) lo hi (r = None) desc emit) = emit_each emit (map snd ns)"
     "in_order desc ns" "set ns = part_pairs Key_num (r = None) r json_num_slot rows"
    using num_walk [OF h(1) assms(4), of "r = None" r desc] by blast
  obtain ts where ts: "\<forall>emit :: 's emit. (case json_texts r of None \<Rightarrow> (\<lambda>st. (st, Ok True))
       | Some (lo, hi) \<Rightarrow> walk_bounded (j_text j) lo hi False desc emit) = emit_each emit (map snd ts)"
     "in_order desc ts" "set ts = part_pairs Key_text False r json_text_slot rows"
    using text_walk [OF h(2) assms(4), of False r desc] by blast
  have "fst a < fst b" if "a \<in> set ns" "b \<in> set ts" for a b
    using that unfolding ns(3) ts(3) by (auto simp: part_pairs_def)
  then have "in_order desc (if desc then ts @ ns else ns @ ts)" using ns(2) ts(2) by (cases desc) (simp_all add: in_order_append)
  moreover have "set (if desc then ts @ ns else ns @ ts) = row_pairs ty rows r"
    unfolding t p [symmetric] using ns(3) ts(3) by auto
  moreover have "walk_parts desc r emit ix = emit_each emit (map snd (if desc then ts @ ns else ns @ ts))" for emit :: "'s emit"
    unfolding Json walk_parts.simps Let_def ns(1) [rule_format] ts(1) [rule_format] by (simp add: and_emit_each)
  ultimately show ?thesis by blast
qed

text \<open>Rows compared as the scan compares them.\<close>

definition row_value :: "rows \<Rightarrow> docid \<Rightarrow> val" where
  "row_value rows i = (case rows i of Some (Some v) \<Rightarrow> v | _ \<Rightarrow> VNull)"

definition walk_before :: "bool \<Rightarrow> rows \<Rightarrow> docid \<Rightarrow> docid \<Rightarrow> bool" where
  "walk_before desc rows i j \<longleftrightarrow>
     cmp_value (row_value rows i) (row_value rows j) = (if desc then Greater else Less)
     \<or> cmp_value (row_value rows i) (row_value rows j) = Equal \<and> i < j"

lemma value_key_bound: "fits_type ty v \<Longrightarrow> value_key ty v = Some k \<Longrightarrow> si_bound ty v = Some k \<and> exact_literal ty v"
  by (cases v; cases ty) (auto simp: fits_type_def value_key_def si_bound_def exact_literal_def split: if_splits)

lemma fits_not_null: "fits_type ty v \<Longrightarrow> v \<noteq> VNull"
  by (cases ty) (auto simp: fits_type_def)

lemma cmp_null: "v \<noteq> VNull \<Longrightarrow> (case v of VNull \<Rightarrow> Equal | _ \<Rightarrow> Less) = Less" "v \<noteq> VNull \<Longrightarrow> cmp_value v VNull = Greater"
  by (cases v; simp)+

lemma row_placed:
  assumes "index_holds rows ix" "index_kind ty ix" "\<not> has_nan ix" "fits_type ty v" "rows i = Some (Some v)"
  shows "\<exists>k. value_key ty v = Some k"
proof -
  have "if ty = TJson then json_slot (Some v) \<noteq> Json_apart else \<not> is_number ty \<or> num_slot (Some v) \<noteq> Nan"
    using has_nan_iff [OF assms(1,2)] assms(3,5) by auto
  then show ?thesis using assms(4)
    by (cases ty; cases v) (auto simp: fits_type_def value_key_def is_number_def split: if_splits)
qed

lemma row_key_cmp:
  assumes "index_holds rows ix" "index_kind ty ix" "\<not> has_nan ix" "rows_fit ty rows"
  shows "cmp_value (row_value rows i) (row_value rows j) = cmp (row_key ty rows i) (row_key ty rows j)"
proof -
  have row: "(row_value rows i = VNull \<and> row_key ty rows i = None)
      \<or> (\<exists>k. fits_type ty (row_value rows i) \<and> row_key ty rows i = Some k \<and> value_key ty (row_value rows i) = Some k)" for i
  proof (cases "\<exists>v. rows i = Some (Some v)")
    case True
    then obtain v where v: "rows i = Some (Some v)" by blast
    from rows_fit_at [OF assms(4) v] show ?thesis
    proof
      assume "is_null v"
      then have "v = VNull" by (cases v) auto
      moreover have "value_key ty VNull = None" by (cases ty) (simp_all add: value_key_def)
      ultimately show ?thesis using v by (simp add: row_value_def row_key_def)
    next
      assume f: "fits_type ty v"
      from row_placed [OF assms(1-3) f v] f show ?thesis using v by (auto simp: row_value_def row_key_def)
    qed
  qed (auto simp: row_value_def row_key_def split: option.splits)
  consider "row_value rows i = VNull" "row_key ty rows i = None" "row_value rows j = VNull" "row_key ty rows j = None"
    | l where "row_value rows i = VNull" "row_key ty rows i = None" "row_value rows j \<noteq> VNull" "row_key ty rows j = Some l"
    | k where "row_value rows i \<noteq> VNull" "row_key ty rows i = Some k" "row_value rows j = VNull" "row_key ty rows j = None"
    | k l where "fits_type ty (row_value rows i)" "value_key ty (row_value rows i) = Some k" "row_key ty rows i = Some k"
        "fits_type ty (row_value rows j)" "value_key ty (row_value rows j) = Some l" "row_key ty rows j = Some l"
    using row [of i] row [of j] by (elim disjE exE conjE) (auto dest: fits_not_null)
  then show ?thesis
  proof cases
    case 4
    have "cmp_value (row_value rows i) (row_value rows j) = key_cmp k l"
      using key_is_value [OF 4(2) _ 4(1), of "row_value rows j" l] value_key_bound [OF 4(4,5)] by simp
    then show ?thesis using 4(3,6) by (simp add: key_cmp_is_cmp cmp_def)
  qed (simp_all add: cmp_null cmp_def)
qed

lemma walk_order:
  assumes "index_holds rows ix" "index_kind ty ix" "\<not> has_nan ix" "rows_fit ty rows" "range_fits ty r"
  shows "\<exists>ids. (\<forall>emit (st :: 's). si_walk desc r emit ix st = map_prod id (map_ok (\<lambda>_. ())) (emit_each emit ids st))
     \<and> sorted_wrt (walk_before desc rows) ids \<and> set ids = snd ` row_pairs ty rows r"
proof -
  obtain ps where ps: "\<And>emit :: 's emit. walk_parts desc r emit ix = emit_each emit (map snd ps)" "in_order desc ps"
    "set ps = row_pairs ty rows r" using walk_parts_pairs [OF assms, of desc] by blast
  have k: "fst a = row_key ty rows (snd a)" if "a \<in> set ps" for a using that unfolding ps(3) by (auto simp: row_pairs_def)
  have "walk_before desc rows (snd a) (snd b)"
    if "a \<in> set ps" "b \<in> set ps" "(if desc then fst b < fst a else fst a < fst b) \<or> fst a = fst b \<and> snd a < snd b" for a b
    using that(3) unfolding walk_before_def row_key_cmp [OF assms(1-4)] k [OF that(1), symmetric] k [OF that(2), symmetric]
    by (auto split: if_splits)
  then have "sorted_wrt (walk_before desc rows) (map snd ps)"
    using ps(2) unfolding in_order_def sorted_wrt_map by (rule sorted_wrt_mono_rel)
  then show ?thesis using ps(1,3) by (intro exI [of _ "map snd ps"]) (auto simp: si_walk_def)
qed

lemma range_rows:
  assumes "index_holds rows ix" "index_kind ty ix" "\<not> has_nan ix" "rows_fit ty rows" "bounds_of ty cs = Some ks" "cs \<noteq> []"
    "\<forall>(oper, lit)\<in>set cs. oper \<noteq> Ne" "\<forall>(oper, lit)\<in>set cs. exact_literal ty lit"
  shows "snd ` row_pairs ty rows (Some (range_of ks)) = scan_ids rows cs"
proof (rule scan_by_row, goal_cases)
  case (1 i v)
  have m: "i \<in> snd ` row_pairs ty rows (Some (range_of ks)) \<longleftrightarrow> (\<exists>k. value_key ty v = Some k \<and> in_range (range_of ks) k)"
    using 1 by (force simp: row_pairs_def row_key_def in_given_def image_iff split: option.splits)
  from rows_fit_at [OF assms(4) 1] show ?case
  proof
    assume n: "is_null v"
    then have "value_key ty v = None" by (cases v; cases ty) (simp_all add: value_key_def)
    then show ?thesis using m null_in_range [OF assms(5,7,6) n] by simp
  next
    assume f: "fits_type ty v"
    from row_placed [OF assms(1-3) f 1] obtain k where "value_key ty v = Some k" by blast
    then show ?thesis using m row_in_range [OF assms(5,7,8) f] by simp
  qed
next
  case (2 i)
  then show ?case by (auto simp: row_pairs_def row_key_def split: option.splits)
qed

lemma whole_rows: "snd ` row_pairs ty rows None = dom rows"
  by (force simp: row_pairs_def in_given_def image_iff split: option.splits)

section \<open>The index and the scan\<close>

fun ch_run :: "(bool \<times> ('k::linorder \<times> docid)) list \<Rightarrow> ('k \<times> docid) chunked \<Rightarrow> (('k \<times> docid) chunked \<times> bool list) result" where
  "ch_run [] c = Ok (c, [])"
| "ch_run ((put, x) # ops) c =
     and_then (if put then ch_insert entry_cmp x c else ch_remove entry_cmp x c) (\<lambda>(c, b).
     map_ok (map_prod id ((#) b)) (ch_run ops c))"

fun set_run :: "(bool \<times> 'a) list \<Rightarrow> 'a set \<Rightarrow> 'a set \<times> bool list" where
  "set_run [] es = (es, [])"
| "set_run ((put, x) # ops) es =
     map_prod id ((#) (put \<longleftrightarrow> x \<notin> es)) (set_run ops (if put then insert x es else es - {x}))"

lemma ch_run_set:
  "ch_inv entry_cmp c \<Longrightarrow> \<exists>c'. ch_run ops c = Ok (c', snd (set_run ops (set (ch_iter c))))
     \<and> ch_inv entry_cmp c' \<and> set (ch_iter c') = fst (set_run ops (set (ch_iter c)))"
proof (induction ops arbitrary: c)
  case (Cons op ops)
  obtain put x where o: "op = (put, x)" by (cases op)
  let ?es = "set (ch_iter c)"
  obtain c1 where "(if put then ch_insert entry_cmp x c else ch_remove entry_cmp x c) = Ok (c1, put \<longleftrightarrow> x \<notin> ?es)"
    "ch_inv entry_cmp c1" "set (ch_iter c1) = (if put then insert x ?es else ?es - {x})"
    using entry.insert_spec [OF Cons.prems, of x] entry.remove_spec [OF Cons.prems, of x] by (cases put) auto
  with Cons.IH [of c1] show ?case by (auto simp: o)
qed simp

text \<open>
  C23: The chunked sequence is a set kept in order. Any insertions and removals, in any order, end without
  a panic, tell of each whether it changed anything as a set would, and leave the structural invariant:
  chunks of one to 256 entries, \<open>firsts\<close> beside them, the entries ascending. Its length is the set's, and
  every range, whatever its ends, is the entries that lie in it, counted without walking them.
\<close>

theorem chunked_refines_set:
  fixes ops :: "(bool \<times> ('k::linorder \<times> docid)) list"
  assumes "set_run ops {} = (es, changed)"
  shows "\<exists>c. ch_run ops ch_new = Ok (c, changed) \<and> ch_inv entry_cmp c \<and> set (ch_iter c) = es \<and> ch_len c = card es
     \<and> (\<forall>lo hi. ch_range entry_cmp lo hi c = Ok (filter (within entry_cmp lo hi) (ch_iter c))
          \<and> ch_count_within entry_cmp lo hi c = Ok (length (filter (within entry_cmp lo hi) (ch_iter c))))"
proof -
  have n: "ch_iter (ch_new :: ('k \<times> docid) chunked) = []" by (simp add: ch_new_def ch_iter_def)
  obtain c where c: "ch_run ops ch_new = Ok (c, changed)" "ch_inv entry_cmp c" "set (ch_iter c) = es"
    using ch_run_set [OF entry.new_inv, of ops] assms n by auto
  have "distinct xs" if "ascends entry_cmp xs" for xs :: "('k \<times> docid) list"
    using that unfolding ascends_def by (induction xs) auto
  then have "ch_len c = card es" using c(2,3) by (auto simp: ch_inv_def distinct_card)
  then show ?thesis using c entry.range_is_filter [OF c(2)] entry.count_is_length(1) [OF c(2)] by blast
qed

theorem chunked_refines_set_witness:
  "\<exists>c. ch_run [(True, (7 :: u64, 1)), (True, (3, 2)), (True, (3, 2)), (False, (7, 1))] ch_new = Ok (c, [True, True, False, True])
     \<and> ch_inv entry_cmp c \<and> set (ch_iter c) = {(3, 2)} \<and> ch_len c = 1"
proof -
  have "set_run [(True, (7 :: u64, 1 :: docid)), (True, (3, 2)), (True, (3, 2)), (False, (7, 1))] {} = ({(3, 2)}, [True, True, False, True])"
    by (auto simp: insert_commute)
  from chunked_refines_set [OF this] show ?thesis by auto
qed

text \<open>
  C24: A key orders as the value it stands for. Where the index gives a field's value a key and a literal a
  bound, the two compare as \<open>cmp_value\<close> compares the value and the literal: ints, timestamps and texts read
  as times by the flipped sign bit, floats and ints against floats by their bits, json numbers of both
  kinds as doubles and below every text. It is stated of every literal but one that \<open>bound\<close> takes and
  should not, an int of exactly \<open>2 ^ 53\<close> or \<open>- 2 ^ 53\<close> over a timestamp field (\<open>exact_literal\<close>), where it
  fails.
\<close>

theorem keys_order_as_values:
  assumes "fits_type ty v" "value_key ty v = Some kv" "si_bound ty lit = Some k" "exact_literal ty lit"
  shows "key_cmp kv k = cmp_value v lit"
  using assms(2,3,1,4) by (rule key_is_value)

theorem keys_order_as_values_witness:
  "key_cmp (Key_num (int_key 5)) (Key_num (int_key (- 3))) = cmp_value (VInt 5) (VInt (- 3))"
  by (rule keys_order_as_values [of TInt]) (simp_all add: fits_type_def value_key_def si_bound_def exact_literal_def)

lemma utf8_below_ff:
  assumes "from_utf8 t"
  shows "t < 0xFF # bs"
proof (cases t)
  case (Cons b bs')
  then have "b \<noteq> 0xFF" using assms by auto
  moreover have "(0xFF :: u8) = - 1" by simp
  ultimately have "b < 0xFF" using word_order.not_eq_extremum [of b] by metis
  then show ?thesis by (simp add: Cons)
qed simp

text \<open>
  C25: What \<open>by_kind\<close> says of a literal it says of every value of the field: the comparison of any value of
  the field's type with the literal is the answer given without reading the value.
\<close>

theorem by_kind_is_compare:
  assumes "by_kind ty oper lit = Some b" "fits_type ty v" "wf_val v"
  shows "compare oper v lit = b"
proof -
  obtain rank where r: "kind_rank ty lit = Some rank" "b = (case oper of Eq \<Rightarrow> False | Ne \<Rightarrow> True | Lt \<Rightarrow> rank = Less
      | Le \<Rightarrow> rank = Less | Gt \<Rightarrow> rank = Greater | Ge \<Rightarrow> rank = Greater)" using assms(1) by (auto simp: by_kind_def)
  have "\<not> is_null v" using fits_not_null [OF assms(2)] by (cases v) auto
  moreover have "\<not> is_null lit" using r(1) by (cases lit) (auto simp: kind_rank_def)
  moreover have "cmp_value v lit = rank \<and> rank \<noteq> Equal"
  proof -
    consider i where "ty = TInt" "v = VInt i" | i where "ty = TFloat" "v = VFloat i" | i where "ty = TTimestamp" "v = VTimestamp i"
      | t where "ty = TText" "v = VText t" | "ty = TJson"
      using assms(2) by (cases ty; cases v) (auto simp: fits_type_def)
    then show ?thesis
    proof cases
      case (4 t)
      then show ?thesis using r(1) assms(3)
        by (cases lit) (auto simp: kind_rank_def cmp_other_def is_number_def utf8_below_ff neq_Nil_conv rank_order cmp_def split: if_splits)
    qed (use r(1) in \<open>cases lit; auto simp: kind_rank_def cmp_other_def is_number_def cmp_def split: if_splits option.splits\<close>)+
  qed
  ultimately show ?thesis using r(2) by (cases oper; cases rank) (simp_all add: compare_def op_holds_def)
qed

theorem by_kind_is_compare_witness: "compare Gt (VText [0x61]) (VBool True) = True"
  by (rule by_kind_is_compare [of TText]) (simp_all add: by_kind_def kind_rank_def is_number_def fits_type_def)

text \<open>
  C18: The ids of a range are the rows the scan finds. After any writes an index of any orderable type
  answers unless it is a json index that holds a value apart, and then the range made of one or more
  comparisons that all have bounds gives, each once, the ids of exactly the rows every comparison holds of
  -- nulls never, NaNs where no comparison is strict -- or nothing where there are more than the cap. The
  rows' values are of the field's type. The comparisons are \<open>=\<close>, \<open><\<close>, \<open><=\<close>, \<open>>\<close> and \<open>>=\<close>, the ones \<open>range_key\<close>
  makes a range of (\<open>!=\<close> it leaves out), and none is of an int of exactly \<open>2 ^ 53\<close> or \<open>- 2 ^ 53\<close> over a
  timestamp field (\<open>exact_literal\<close>), of which the index's answer is not the scan's.
\<close>

theorem index_range_is_scan:
  assumes "orderable ty" "rows_after ws Map.empty = rows" "rows_fit ty rows" "cs \<noteq> []" "bounds_of ty cs = Some ks"
    "\<forall>(oper, lit)\<in>set cs. oper \<noteq> Ne" "\<forall>(oper, lit)\<in>set cs. exact_literal ty lit"
  shows "\<exists>ix. index_writes ws Map.empty (si_new ty) = Ok ix
     \<and> (answers ix \<longleftrightarrow> (ty = TJson \<longrightarrow> (\<forall>i v. rows i = Some v \<longrightarrow> json_slot v \<noteq> Json_apart)))
     \<and> (answers ix \<longrightarrow> (\<exists>ids. range_ids (range_of ks) cap ix = Ok (if length ids \<le> cap then Some ids else None)
          \<and> distinct ids \<and> set ids = scan_ids rows cs))"
proof -
  obtain ix where ix: "index_writes ws Map.empty (si_new ty) = Ok ix" "index_holds rows ix"
    using index_writes_hold [OF index_holds_new, of ws ty] assms(2) by blast
  have k: "index_kind ty ix" using index_writes_kind [OF ix(1), of ty] si_new_kind [OF assms(1)] by simp
  show ?thesis
    using ix(1) answers_iff [OF ix(2) k] range_ids_scan [OF ix(2) k _ assms(3,5,4,6,7), of cap] unfolding capped_def by blast
qed

theorem index_range_is_scan_witness:
  "\<exists>ix ids. index_writes [(1, Some (Some (VInt 5))), (2, Some None), (1, Some (Some (VInt 7)))] Map.empty (si_new TInt) = Ok ix
     \<and> range_ids (range_of [(Ge, Key_num (int_key 6))]) 10 ix = Ok (if length ids \<le> 10 then Some ids else None)
     \<and> distinct ids \<and> set ids = scan_ids ([1 \<mapsto> Some (VInt 7), 2 \<mapsto> None]) [(Ge, VInt 6)]"
proof -
  have r: "rows_after [(1, Some (Some (VInt 5))), (2, Some None), (1, Some (Some (VInt 7)))] Map.empty = [1 \<mapsto> Some (VInt 7), 2 \<mapsto> None]"
    by (auto simp: rows_after_def)
  have f: "rows_fit TInt [1 \<mapsto> Some (VInt 7), 2 \<mapsto> None]" by (auto simp: rows_fit_def fits_type_def docid_max_def split: if_splits)
  show ?thesis
    using index_range_is_scan [OF _ r f, of "[(Ge, VInt 6)]" "[(Ge, Key_num (int_key 6))]" 10]
    by (auto simp: orderable_def si_bound_def exact_literal_def)
qed

text \<open>
  C19: A walk is the ordered scan. After any writes, where no row is without a place (\<open>has_nan\<close>, told exactly),
  a walk of the whole index hands \<open>emit\<close> every row and a walk within a range exactly the rows the scan
  finds, up to where \<open>emit\<close> stops it, in the order of \<open>cmp_value\<close> ascending or descending with nulls
  below every value, and rows that compare equal in ascending id both ways. Where a row is without a
  place -- a NaN, or a json value held apart -- nothing is said of a walk: the caller asks \<open>has_nan\<close> first.
  The range is made as for the ids: of one or more comparisons that have bounds, none of them \<open>!=\<close>, none
  of an int of exactly \<open>2 ^ 53\<close> or \<open>- 2 ^ 53\<close> over a timestamp field; the rows' values are of the field's
  type.
\<close>

theorem index_walk_is_scan:
  assumes "orderable ty" "rows_after ws Map.empty = rows" "rows_fit ty rows" "cs \<noteq> []" "bounds_of ty cs = Some ks"
    "\<forall>(oper, lit)\<in>set cs. oper \<noteq> Ne" "\<forall>(oper, lit)\<in>set cs. exact_literal ty lit"
  shows "\<exists>ix. index_writes ws Map.empty (si_new ty) = Ok ix
     \<and> (has_nan ix \<longleftrightarrow> (\<exists>i v. rows i = Some v
          \<and> (if ty = TJson then json_slot v = Json_apart else is_number ty \<and> num_slot v = Nan)))
     \<and> (\<not> has_nan ix \<longrightarrow> (\<exists>all some.
          (\<forall>emit (st :: 's). si_walk desc None emit ix st = map_prod id (map_ok (\<lambda>_. ())) (emit_each emit all st)
             \<and> si_walk desc (Some (range_of ks)) emit ix st = map_prod id (map_ok (\<lambda>_. ())) (emit_each emit some st))
          \<and> sorted_wrt (walk_before desc rows) all \<and> set all = dom rows
          \<and> sorted_wrt (walk_before desc rows) some \<and> set some = scan_ids rows cs))"
proof -
  obtain ix where ix: "index_writes ws Map.empty (si_new ty) = Ok ix" "index_holds rows ix"
    using index_writes_hold [OF index_holds_new, of ws ty] assms(2) by blast
  have k: "index_kind ty ix" using index_writes_kind [OF ix(1), of ty] si_new_kind [OF assms(1)] by simp
  have f: "range_fits ty None" "range_fits ty (Some (range_of ks))"
    using range_of_kind bounds_of_kind [OF assms(5)] by (auto simp: range_fits_def)
  have "\<exists>all some. (\<forall>emit (st :: 's). si_walk desc None emit ix st = map_prod id (map_ok (\<lambda>_. ())) (emit_each emit all st)
             \<and> si_walk desc (Some (range_of ks)) emit ix st = map_prod id (map_ok (\<lambda>_. ())) (emit_each emit some st))
          \<and> sorted_wrt (walk_before desc rows) all \<and> set all = dom rows
          \<and> sorted_wrt (walk_before desc rows) some \<and> set some = scan_ids rows cs" if n: "\<not> has_nan ix"
    using walk_order [OF ix(2) k n assms(3) f(1), of desc, where ?'s = 's] walk_order [OF ix(2) k n assms(3) f(2), of desc, where ?'s = 's]
    unfolding whole_rows range_rows [OF ix(2) k n assms(3,5,4,6,7)] by blast
  then show ?thesis using ix(1) has_nan_iff [OF ix(2) k] by blast
qed

theorem index_walk_is_scan_witness:
  "\<exists>ix all some. index_writes [(1, Some (Some (VInt 5))), (2, Some None), (1, Some (Some (VInt 7)))] Map.empty (si_new TInt) = Ok ix
     \<and> (\<forall>emit (st :: docid list). si_walk True None emit ix st = map_prod id (map_ok (\<lambda>_. ())) (emit_each emit all st)
          \<and> si_walk True (Some (range_of [(Ge, Key_num (int_key 6))])) emit ix st = map_prod id (map_ok (\<lambda>_. ())) (emit_each emit some st))
     \<and> sorted_wrt (walk_before True [1 \<mapsto> Some (VInt 7), 2 \<mapsto> None]) all \<and> set all = {1, 2}
     \<and> set some = scan_ids [1 \<mapsto> Some (VInt 7), 2 \<mapsto> None] [(Ge, VInt 6)]"
proof -
  let ?rows = "[1 \<mapsto> Some (VInt 7), 2 \<mapsto> None] :: rows"
  have r: "rows_after [(1, Some (Some (VInt 5))), (2, Some None), (1, Some (Some (VInt 7)))] Map.empty = ?rows"
    by (auto simp: rows_after_def)
  have f: "rows_fit TInt ?rows" by (auto simp: rows_fit_def fits_type_def docid_max_def split: if_splits)
  have n: "\<not> (\<exists>i v. ?rows i = Some v \<and> (if TInt = TJson then json_slot v = Json_apart else is_number TInt \<and> num_slot v = Nan))"
    by (auto split: if_splits)
  have d: "dom ?rows = {1, 2}" by auto
  from index_walk_is_scan [OF _ r f, of "[(Ge, VInt 6)]" "[(Ge, Key_num (int_key 6))]" True, where ?'s = "docid list"]
  show ?thesis unfolding d using n by (simp add: orderable_def si_bound_def exact_literal_def) blast
qed

text \<open>
  C39: The bound of an int literal over a timestamp field is taken at \<open>2 ^ 53\<close> too, where it is not exact: the
  timestamp one past it compares equal to the literal in a scan, both rounding to one double, and the
  index does not find it.
\<close>

theorem timestamp_bound_misses:
  "compare Eq (VTimestamp 9007199254740993) (VInt 9007199254740992)
   \<and> si_bound TTimestamp (VInt 9007199254740992) = Some (Key_num (int_key 9007199254740992))
   \<and> map_ok (range_ids (narrow Eq (Key_num (int_key 9007199254740992)) range_all) 10)
        (si_insert 1 (Some (VTimestamp 9007199254740993)) (si_new TTimestamp)) = Ok (Ok (Some []))"
proof -
  let ?t = "9007199254740993 :: i64" and ?l = "9007199254740992 :: i64"
  have b: "bit_len n = 54" if "2 ^ 53 \<le> n" "n < 2 ^ 54" for n
    using bit_len_le_iff [of n 53] bit_len_le_iff [of n 54] that by simp
  have n: "bit_len 9007199254740993 = 54" "bit_len 9007199254740992 = 54" by (intro b; simp)+
  have e: "f64_of_int 9007199254740993 = f64_of_int 9007199254740992"
    by (simp add: f64_of_int_def f64_of_nat_def n round_shift_def Let_def)
  have nn: "\<not> f64_is_nan (f64_of_int 9007199254740992)" using f64_of_int_place(2) [of 9007199254740992] by simp
  have s: "sint ?t = 9007199254740993" "sint ?l = 9007199254740992" by simp_all
  have c: "compare Eq (VTimestamp ?t) (VInt ?l)"
    using int_double_cmp [OF nn nn] by (simp add: compare_def op_holds_def cmp_other_def s e or_equal_def)
  have ne: "int_key ?t \<noteq> int_key ?l"
  proof
    assume "int_key ?t = int_key ?l"
    then have "cmp (sint ?t) (sint ?l) = Equal" unfolding int_key_cmp [symmetric] by simp
    then show False by (simp add: s)
  qed
  let ?rows = "[1 \<mapsto> Some (VTimestamp ?t)] :: rows" and ?r = "narrow Eq (Key_num (int_key ?l)) range_all"
  have "si_new TTimestamp = Num o_new" by (simp add: si_new_def)
  then obtain ox where ox: "si_insert 1 (Some (VTimestamp ?t)) (si_new TTimestamp) = Ok (Num ox)" "index_holds ?rows (Num ox)"
    using index_insert_holds [OF index_holds_new [of TTimestamp], of 1 "Some (VTimestamp ?t)"] by (auto simp: result_simps)
  have "rows_fit TTimestamp ?rows" by (auto simp: rows_fit_def fits_type_def docid_max_def split: if_splits)
  moreover have "\<not> is_text (r_lo ?r)" "\<not> is_text (r_hi ?r)"
    by (simp_all add: narrow_def tighten_lo_def tighten_hi_def range_all_def)
  ultimately obtain ids where ids: "range_ids ?r 10 (Num ox) = Ok (capped 10 ids)"
    "set ids = {i. \<not> r_strict ?r \<and> slotted (\<lambda>v. Some (num_slot v)) ?rows Nan i}
         \<union> part_ids (\<lambda>k. in_range ?r (Key_num k)) (\<lambda>v. Some (num_slot v)) ?rows"
    using num_range [OF ox(2)] by blast
  have "set ids = {}" unfolding ids(2)
    using ne by (auto simp: part_ids_def slotted_def narrow_within op_holds_def split: if_splits)
  then have "range_ids ?r 10 (Num ox) = Ok (Some [])" using ids(1) by (simp add: capped_def)
  then show ?thesis using c ox(1) by (simp add: si_bound_def)
qed

end
