(* ===== verification/Spec2Isabelle.thy ===== *)
theory Spec2Isabelle
  imports Fenec_Store_Recovery Fenec_Store_Read Fenec_Image_Laws Fenec_Changes Fenec_Blocks
    Fenec_History Fenec_Synclog Fenec_Sorted_Answers
begin

text \<open>
  A verification of the storage core of fenec, an embedded document database in Rust. All paths
  are under \<open>src/crates/fenec-core/src/\<close> unless another crate is named.

  \<^bold>\<open>The program.\<close> A database is one file: a signature, then records
  \<open>[kind][collection][length][body]\<close>. A collection's data records are runs of frames
  \<open>[op][id][length][payload]\<close>, and a payload is a document's field values, one after another, in
  the binary format of \<open>codec.rs\<close>. In memory a collection is an append-only segment store
  (\<open>store.rs\<close>) with an index from ids to payload places; an open rebuilds it by replaying the
  frames or by adopting the index an image carries. A transaction holds its frames back in a block
  and lands them as one record, or in spills and a land record when it outgrew its room
  (\<open>engine.rs\<close>, \<open>engine/handover.rs\<close>). Every write gets a number in the change feed
  (\<open>changes.rs\<close>), from which subscribers and replicas catch up; which numbers two databases share
  is decided by their histories (\<open>history.rs\<close>). A field may have an ordered index (\<open>sorted.rs\<close>), derived
  from the documents, whose answers must be those of a scan. A sync log beside the file (\<open>synclog.rs\<close>) makes a
  commit durable before the file itself is synced, and an open puts its bytes back.

  \<^bold>\<open>The theories, bottom up.\<close>

  \<^item> \<open>Fenec_Prelude\<close>, \<open>Fenec_Std\<close>: the vocabulary. \<open>result\<close> is Rust's \<open>Result\<close> with the errors of
    \<open>error.rs\<close> and panics as values (\<open>Ok\<close>, \<open>Err\<close>, \<open>Panic\<close>); \<open>and_then\<close>, \<open>map_ok\<close> and \<open>ok_or\<close> are the
    \<open>?\<close> operator's; slices, little-endian words, UTF-8, \<open>partition_point\<close>, \<open>split\<close> are the
    standard library's as the sources use them.
  \<^item> \<open>Fenec_Wire\<close>: locale \<open>wire\<close>, the contract of a writer and a reader -- what is written at a
    position is read there and the read stops where the writing did -- with \<open>wire_pair\<close> for two in a
    row. Interpreted on varints and lengths (\<open>Fenec_Varint\<close>), texts, values, types and object members
    (\<open>Fenec_Codec_Laws\<close>) and the names of spills (\<open>Fenec_Blocks\<close>).
  \<^item> \<open>Fenec_Varint\<close>, \<open>Fenec_Half\<close>, \<open>Fenec_Codec\<close>: all of \<open>codec.rs\<close>; \<open>Fenec_Codec_Laws\<close> and
    \<open>Fenec_Codec_Skip\<close> show that every well-formed value of any depth reads back, that decoding is
    total and stays inside its buffer, that a skip ends where a decode would on any bytes, that a
    path read off the bytes is the path into the value, and that halves survive.
  \<^item> \<open>Fenec_Value\<close>: \<open>Value\<close>, \<open>DataType\<close>, \<open>Document\<close> of \<open>value.rs\<close>: building objects, the two builds of
    them, reading and setting a path. \<open>Fenec_Document\<close>: the fields of a schema in a payload
    (\<open>schema.rs\<close>, \<open>Store::encode_doc\<close>), fields added and dropped by \<open>alter_collection\<close>.
  \<^item> \<open>Fenec_Id_Map\<close>: locale \<open>id_map\<close>, the contract of a map by document id, its laws and the
    refinement of any run of operations proved once. Interpreted on \<open>IdIndex\<close> (\<open>Fenec_Id_Index\<close>)
    and \<open>DocMap\<close> (\<open>Fenec_Doc_Map\<close>), each a dense array that takes over a sparse map as ids fill in.
  \<^item> \<open>Fenec_Store\<close>: the state of \<open>Store\<close> -- segments, the mapped file, index, counters -- and its
    operations: append, replay from memory and from the map, marks, roll-back, images, compaction.
    \<open>Fenec_Store_Laws\<close>, \<open>Fenec_Store_Compact\<close> and \<open>Fenec_Store_Recovery\<close> show that over any writes,
    reopens, compactions and rolled-back blocks the store is the map those writes make; the
    abstract state is that map and the list of frames (\<open>store_map\<close>, \<open>logs\<close>). \<open>Fenec_Store_Read\<close>:
    every reader of a stored document, and snapshots. \<open>Fenec_Image_Index\<close>, \<open>Fenec_Image_Laws\<close>: the
    index of an image, read in turn or a share on each core, and relocation into the file.
  \<^item> \<open>Fenec_Records\<close>: the records of the file, \<open>record_at\<close>, \<open>whole_record\<close>, \<open>Walk\<close> and what an open
    reads of them, for a whole file and one a crash cut at any byte. \<open>Fenec_Blocks\<close>: \<open>Block\<close> from the
    writes it is handed to the record it lands as, however often it spilled.
  \<^item> \<open>Fenec_Changes\<close>: the change ring against the whole write log. \<open>Fenec_History\<close>: histories, their
    record, and several databases that write, fork, take images and stream as a step relation
    (\<open>reaches\<close>); the invariant is that a replica let go on holds a prefix of its primary, which
    holds where a fork is made caught up and fails as the code forks. \<open>Fenec_Synclog\<close>: the sync log
    and the recovery of a crash.
  \<^item> \<open>Fenec_Time\<close>, \<open>Fenec_Time_Text\<close>: \<open>time.rs\<close> and \<open>parse_i64\<close> of \<open>num.rs\<close>: the calendar arithmetic
    against the calendar's rules, timestamps written and read back (refused before the year 0), and
    the dates that are read against the calendar.
  \<^item> \<open>Fenec_Chunked\<close>, \<open>Fenec_Compare\<close>, \<open>Fenec_Sorted\<close>: the ordered index. \<open>Fenec_Chunked\<close> is \<open>Chunked\<close> of
    \<open>sorted.rs\<close>, a sorted sequence in chunks, over locale \<open>entry_order\<close>: what an order of entries
    promises, with the invariant, the set the operations keep and the exactness of ranges and
    counts proved once. \<open>Fenec_Compare\<close> is \<open>cmp_value\<close> of \<open>value.rs\<close> and \<open>compare\<close> of \<open>query.rs\<close>, doubles
    by their bit patterns. \<open>Fenec_Sorted\<close> is \<open>SortedIndex\<close>: keys, slots, ranges, walks.
    \<open>Fenec_Sorted_Laws\<close> interprets \<open>entry_order\<close> on the index's entries and shows that keys order as
    values and integers as their doubles; \<open>Fenec_Sorted_Index\<close> and \<open>Fenec_Sorted_Answers\<close> that over any
    writes the index's ranges and walks are the scan's, row for row and tie for tie, save where a
    timestamp field is compared with an int of exactly \<open>2 ^ 53\<close> or \<open>- 2 ^ 53\<close>, whose bound is not
    exact (\<open>exact_literal\<close>, \<open>timestamp_bound_misses\<close>); a walk is asked for only where no row is without
    a place (\<open>has_nan\<close>), and \<open>!=\<close> makes no range.

  \<^bold>\<open>Choices.\<close> The target is 64-bit: \<open>u8\<close>, \<open>u16\<close>, \<open>u32\<close> and \<open>u64\<close> are words, \<open>usize\<close> counts are naturals,
  and where the release build's wrap-around can be reached from bytes of a file the sum is written
  with it (\<open>usize_add\<close>, \<open>usize_sub\<close>); \<open>i64\<close> times are integers wrapped by \<open>i64\<close>. Floats are bit
  patterns; a comparison of two reads their values as integers in units of the least double. Loops that end are \<open>fun\<close> or \<open>function\<close> with a measure. The two replays, whose position
  can wrap back on itself, and the loop of \<open>frames_in\<close> are \<open>partial_function\<close>s into \<open>option\<close>; that they
  return on what the code writes is proved, and so is that a replay does not return on one damaged
  head. The decoders' recursion is closed by a depth of one more than the buffer's bytes, which
  \<open>decode_value_total\<close> shows is never met.

  Hypotheses bound sizes where the code relies on them: buffers below \<open>2 ^ 63\<close> bytes (Rust's own limit
  on an allocation), a store's log below \<open>2 ^ 53\<close> and a payload below \<open>2 ^ 32\<close> (a place in memory is
  a 32-bit segment number, a 32-bit offset and a 32-bit length), a file below \<open>2 ^ 63 - 2 ^ 32\<close> (the
  bit that marks a mapped place), change counters below \<open>2 ^ 64\<close>.

  \<^bold>\<open>Not modelled.\<close> The engine's collections, query execution and maintenance; the other
  secondary indexes (composite, text, sparse, vector, geo), and of the ordered one its build by
  radix sort, the counts of facets and an order by collation or case fold; the query language; JSON and floating-point text;
  collation, case folding and time zones, which are tables; the servers, sharding and bindings,
  which are network and foreign-function glue over the engine. Of the store, the hand-over of
  segments to the file. Capacities, byte counts for memory limits, the page advice to the system
  and the disk's own errors are left out of the states. Threads appear where the code's result
  depends on how work is shared among them (\<open>adopt_shares\<close>), not as interleavings: the engine runs
  writes under one lock.
\<close>

end
